(* ===== verification/Zcl_Prelude.thy ===== *)
theory Zcl_Prelude
  imports Main "HOL-Library.Word" "HOL-Library.Monad_Syntax"
begin

unbundle bit_operations_syntax

text \<open>
  Shared vocabulary of the development: the C integer types as words, C arrays as lists,
  the value of a little-endian sequence of words as a natural number, the truncating signed
  division of C, and the collections of rewrite rules the component theories extend.

  \<^item> \<open>words_val\<close> reads a list of \<open>w\<close>-bit words, least significant first, as a number. It is
    the abstraction function of \<^verbatim>\<open>struct arith_uint256\<close> (eight 32-bit limbs), of the
    little-endian integers of the wire format and of \<^verbatim>\<open>struct uint256\<close> (32 bytes).
  \<^item> \<open>wire_simps\<close>, \<open>limb_simps\<close>, \<open>script_simps\<close> and \<open>check_simps\<close> collect the unfolding
    rules of the serializers, the limb arithmetic, the script VM and the acceptance checks.
\<close>

named_theorems wire_simps "unfolding rules of the byte-stream layer"
named_theorems limb_simps "unfolding rules of the 256-bit limb arithmetic"
named_theorems script_simps "unfolding rules of the script virtual machine"
named_theorems check_simps "unfolding rules of the acceptance checks"

section \<open>Types\<close>

type_synonym u8 = "8 word"
type_synonym u16 = "16 word"
type_synonym u32 = "32 word"
type_synonym u64 = "64 word"
type_synonym bytes = "u8 list"

abbreviation (input) INT32_MAX :: int where "INT32_MAX \<equiv> 2147483647"
abbreviation (input) INT32_MIN :: int where "INT32_MIN \<equiv> -2147483648"
abbreviation (input) INT64_MAX :: int where "INT64_MAX \<equiv> 9223372036854775807"
abbreviation (input) INT64_MIN :: int where "INT64_MIN \<equiv> -9223372036854775808"

text \<open>The values of the C types \<^verbatim>\<open>int\<close>/\<^verbatim>\<open>int32_t\<close> and \<^verbatim>\<open>int64_t\<close>.\<close>

definition is_int32 :: "int \<Rightarrow> bool" where
  "is_int32 x \<longleftrightarrow> INT32_MIN \<le> x \<and> x \<le> INT32_MAX"

definition is_int64 :: "int \<Rightarrow> bool" where
  "is_int64 x \<longleftrightarrow> INT64_MIN \<le> x \<and> x \<le> INT64_MAX"

text \<open>C's signed \<^verbatim>\<open>/\<close> truncates towards zero. The divisor is never zero where it is used.\<close>

definition c_div :: "int \<Rightarrow> int \<Rightarrow> int" where
  "c_div a b = sgn a * sgn b * (\<bar>a\<bar> div \<bar>b\<bar>)"

lemma c_div_nonneg: "0 \<le> a \<Longrightarrow> 0 < b \<Longrightarrow> c_div a b = a div b"
  by (cases "a = 0") (auto simp: c_div_def)

lemma c_div_neg: "a < 0 \<Longrightarrow> 0 < b \<Longrightarrow> c_div a b = - ((- a) div b)"
  by (auto simp: c_div_def)

lemma c_div_abs_le: "\<bar>c_div a b\<bar> \<le> \<bar>a\<bar>"
proof (cases "a = 0 \<or> b = 0")
  case False
  then have "\<bar>c_div a b\<bar> = \<bar>a\<bar> div \<bar>b\<bar>"
    by (simp add: c_div_def abs_mult abs_sgn_eq pos_imp_zdiv_nonneg_iff)
  also have "\<dots> \<le> \<bar>a\<bar>"
    using False by (simp add: zdiv_mono2[of "\<bar>a\<bar>" 1 "\<bar>b\<bar>", simplified] int_one_le_iff_zero_less)
  finally show ?thesis .
qed (auto simp: c_div_def)

text \<open>
  Signed arithmetic of C with its undefined cases: \<open>None\<close> stands for an execution the C standard
  gives no meaning to (a result outside the type, a division by zero, a shift by a negative or
  oversized count) and, in the callers, for a failed \<^verbatim>\<open>assert\<close>. A function whose C code can
  run into one returns an option, and the theorems show when it is \<open>Some\<close>.
\<close>

definition ck32 :: "int \<Rightarrow> int option" where
  "ck32 x = (if is_int32 x then Some x else None)"

definition ck64 :: "int \<Rightarrow> int option" where
  "ck64 x = (if is_int64 x then Some x else None)"

definition ck_div :: "int \<Rightarrow> int \<Rightarrow> int option" where
  "ck_div a b = (if b = 0 then None else Some (c_div a b))"

definition ck_shr64 :: "int \<Rightarrow> int \<Rightarrow> int option" where
  "ck_shr64 a n = (if 0 \<le> n \<and> n < 64 then Some (a div 2 ^ nat n) else None)"

text \<open>Conversion of a signed 64-bit value to \<^verbatim>\<open>uint64_t\<close> wraps.\<close>

definition u64_of_int :: "int \<Rightarrow> u64" where
  "u64_of_int x = word_of_int x"

lemma ck32_some_iff: "ck32 x = Some y \<longleftrightarrow> y = x \<and> is_int32 x"
  by (auto simp: ck32_def)

lemma ck64_some_iff: "ck64 x = Some y \<longleftrightarrow> y = x \<and> is_int64 x"
  by (auto simp: ck64_def)

lemma ck_div_some_iff: "ck_div a b = Some y \<longleftrightarrow> y = c_div a b \<and> b \<noteq> 0"
  by (auto simp: ck_div_def)

lemma ck_shr64_some_iff: "ck_shr64 a n = Some y \<longleftrightarrow> y = a div 2 ^ nat n \<and> 0 \<le> n \<and> n < 64"
  by (auto simp: ck_shr64_def)

lemmas ck_some_iffs = ck32_some_iff ck64_some_iff ck_div_some_iff ck_shr64_some_iff

section \<open>Little-endian sequences of words\<close>

fun words_val :: "'a::len word list \<Rightarrow> nat" where
  "words_val [] = 0"
| "words_val (w # ws) = unat w + 2 ^ LENGTH('a) * words_val ws"

lemma words_val_less: "words_val (ws :: 'a::len word list) < 2 ^ (LENGTH('a) * length ws)"
proof (induction ws)
  case (Cons w ws)
  have "unat w < 2 ^ LENGTH('a)" by (rule unsigned_less)
  then have "unat w + 2 ^ LENGTH('a) * words_val ws < 2 ^ LENGTH('a) * Suc (words_val ws)"
    by simp
  also have "\<dots> \<le> 2 ^ LENGTH('a) * 2 ^ (LENGTH('a) * length ws)"
    using Cons by (intro mult_le_mono2) simp
  finally show ?case by (simp add: power_add)
qed simp

lemma words_val_append:
  "words_val (xs @ ys) = words_val xs + 2 ^ (LENGTH('a) * length xs) * words_val ys"
  for xs ys :: "'a::len word list"
  by (induction xs) (simp_all add: power_add algebra_simps)

lemma words_val_zeros [simp]: "words_val (replicate n 0) = 0"
  by (induction n) auto

lemma words_val_eq_0_iff: "words_val ws = 0 \<longleftrightarrow> (\<forall>w \<in> set ws. w = 0)"
  by (induction ws) (auto simp: unat_eq_0)

lemma words_val_Cons_or:
  "words_val (w # ws) = unat w OR push_bit LENGTH('a) (words_val ws)" for w :: "'a::len word"
proof -
  have "unat w AND push_bit LENGTH('a) (words_val ws) = 0"
    by (rule bit_eqI) (auto simp: bit_simps dest: bit_imp_le_length)
  then show ?thesis by (simp add: disjunctive_add_eq_or [symmetric] push_bit_eq_mult ac_simps)
qed

text \<open>The bits of the number are the bits of the words.\<close>

lemma bit_words_val:
  "bit (words_val ws) n \<longleftrightarrow>
     n < LENGTH('a) * length ws \<and> bit (ws ! (n div LENGTH('a))) (n mod LENGTH('a))"
  for ws :: "'a::len word list"
proof (induction ws arbitrary: n)
  case (Cons w ws)
  show ?case
  proof (cases "n < LENGTH('a)")
    case True
    then show ?thesis by (simp only: words_val_Cons_or) (auto simp: bit_simps)
  next
    case False
    then obtain m where m: "n = m + LENGTH('a)" by (metis add.commute le_add_diff_inverse not_less)
    have "(m + LENGTH('a)) div LENGTH('a) = Suc (m div LENGTH('a))"
      using div_add_self2 [of "LENGTH('a)" m] len_gt_0 [where 'a = 'a] by linarith
    then show ?thesis
      by (simp only: words_val_Cons_or m) (auto simp: bit_simps Cons.IH dest: bit_imp_le_length)
  qed
qed simp

lemma words_val_inject:
  "length xs = length ys \<Longrightarrow> words_val xs = words_val ys \<longleftrightarrow> xs = ys"
  for xs ys :: "'a::len word list"
proof (induction xs ys rule: list_induct2)
  case (Cons x xs y ys)
  have "x = y \<and> words_val xs = words_val ys" if eq: "words_val (x # xs) = words_val (y # ys)"
  proof -
    have x: "unat x < 2 ^ LENGTH('a)" and y: "unat y < 2 ^ LENGTH('a)"
      by (simp_all add: unsigned_less)
    have "words_val (x # xs) mod 2 ^ LENGTH('a) = words_val (y # ys) mod 2 ^ LENGTH('a)"
      and "words_val (x # xs) div 2 ^ LENGTH('a) = words_val (y # ys) div 2 ^ LENGTH('a)"
      using eq by simp_all
    then have "unat x = unat y" and "words_val xs = words_val ys"
      using x y by simp_all
    then show ?thesis by (simp add: word_unat_eq_iff)
  qed
  then show ?case using Cons.IH by auto
qed simp

lemma words_val_update:
  "k < length ws \<Longrightarrow>
     words_val (ws[k := w]) + 2 ^ (LENGTH('a) * k) * unat (ws ! k)
     = words_val ws + 2 ^ (LENGTH('a) * k) * unat w"
  for ws :: "'a::len word list"
proof (induction ws arbitrary: k)
  case (Cons v ws)
  show ?case
  proof (cases k)
    case (Suc j)
    with Cons.prems have "j < length ws" by simp
    from Cons.IH [OF this] have
      "2 ^ LENGTH('a) * (words_val (ws[j := w]) + 2 ^ (LENGTH('a) * j) * unat (ws ! j))
       = 2 ^ LENGTH('a) * (words_val ws + 2 ^ (LENGTH('a) * j) * unat w)"
      by simp
    then show ?thesis using Suc by (simp add: power_add algebra_simps)
  qed simp
qed simp

section \<open>Words\<close>

lemma u64_mask32: "(n :: u64) AND 0xffffffff = take_bit 32 n"
proof -
  have "(0xffffffff :: u64) = mask 32" by (simp add: mask_eq_exp_minus_1)
  then show ?thesis by (simp only: take_bit_eq_mask)
qed

lemma unat_low32: "unat (ucast (n AND 0xffffffff) :: u32) = unat (n :: u64) mod 2 ^ 32"
proof -
  have "ucast (n AND 0xffffffff) = (ucast n :: u32)"
    by (rule bit_word_eqI) (auto simp: u64_mask32 bit_simps)
  then show ?thesis by (simp add: unsigned_ucast_eq take_bit_eq_mod)
qed

lemma unat_high32: "unat (drop_bit 32 (n :: u64)) = unat n div 2 ^ 32"
  by (rule unat_drop_bit_eq [of 32 n, unfolded drop_bit_eq_div [where 'a = nat]])

section \<open>Bits of bytes\<close>

lemma byte_split:
  fixes q :: nat
  obtains k r where "q = 8 * k + r" "r < 8" "q div 8 = k" "q mod 8 = r"
  using that [of "q div 8" "q mod 8"] by simp

lemma u8_bit_ge: "8 \<le> n \<Longrightarrow> \<not> bit (x::u8) n"
  using bit_imp_le_length [of x n] by auto

end
