(* ===== verification/Arith_Uint256.thy ===== *)
theory Arith_Uint256
  imports Zcl_Prelude
begin

text \<open>
  \<^verbatim>\<open>lib/core\<close>: the 256-bit unsigned integer as eight 32-bit limbs, least significant first
  (\<^verbatim>\<open>arith_uint256.h\<close>, \<^verbatim>\<open>arith_uint256.c\<close>), its shift-and-subtract division, and its conversion
  from and to the 32-byte \<^verbatim>\<open>uint256\<close>. The loops are translated limb by limb; the lemmas
  say which number each computes under \<open>words_val\<close>, modulo \<open>2 ^ 256\<close>.
\<close>

section \<open>Model\<close>

type_synonym arith_uint256 = "u32 list"
type_synonym uint256 = bytes

definition arith_wf :: "arith_uint256 \<Rightarrow> bool" where
  "arith_wf a \<longleftrightarrow> length a = 8"

definition arith_uint256_set_zero :: arith_uint256 where
  "arith_uint256_set_zero = replicate 8 0"

definition arith_uint256_set_u64 :: "u64 \<Rightarrow> arith_uint256" where
  "arith_uint256_set_u64 v = ucast v # ucast (drop_bit 32 v) # replicate 6 0"

definition arith_uint256_get_low64 :: "arith_uint256 \<Rightarrow> u64" where
  "arith_uint256_get_low64 a = ucast (a ! 0) OR push_bit 32 (ucast (a ! 1))"

definition arith_uint256_is_zero :: "arith_uint256 \<Rightarrow> bool" where
  "arith_uint256_is_zero a \<longleftrightarrow> list_all (\<lambda>i. a ! i = 0) [0..<8]"

fun compare_loop :: "arith_uint256 \<Rightarrow> arith_uint256 \<Rightarrow> nat \<Rightarrow> int" where
  "compare_loop a b 0 = 0"
| "compare_loop a b (Suc i) =
     (if a ! i < b ! i then -1 else if b ! i < a ! i then 1 else compare_loop a b i)"

definition arith_uint256_compare :: "arith_uint256 \<Rightarrow> arith_uint256 \<Rightarrow> int" where
  "arith_uint256_compare a b = compare_loop a b 8"

definition arith_uint256_equal_u64 :: "arith_uint256 \<Rightarrow> u64 \<Rightarrow> bool" where
  "arith_uint256_equal_u64 a b \<longleftrightarrow>
     list_all (\<lambda>i. a ! i = 0) [2..<8] \<and>
     a ! 1 = ucast (drop_bit 32 b) \<and> a ! 0 = ucast (b AND 0xffffffff)"

definition arith_uint256_complement :: "arith_uint256 \<Rightarrow> arith_uint256" where
  "arith_uint256_complement a = map (\<lambda>w. NOT w) a"

fun increment_loop :: "u32 list \<Rightarrow> u32 list" where
  "increment_loop [] = []"
| "increment_loop (w # ws) = (if w + 1 = 0 then 0 # increment_loop ws else (w + 1) # ws)"

definition arith_uint256_negate :: "arith_uint256 \<Rightarrow> arith_uint256" where
  "arith_uint256_negate a = increment_loop (map (\<lambda>w. NOT w) a)"

fun add_loop :: "u64 \<Rightarrow> u32 list \<Rightarrow> u32 list \<Rightarrow> u32 list" where
  "add_loop carry (x # xs) (y # ys) =
     (let n = carry + ucast x + ucast y
      in ucast (n AND 0xffffffff) # add_loop (drop_bit 32 n) xs ys)"
| "add_loop carry _ _ = []"

definition arith_uint256_add :: "arith_uint256 \<Rightarrow> arith_uint256 \<Rightarrow> arith_uint256" where
  "arith_uint256_add a b = add_loop 0 a b"

definition arith_uint256_sub :: "arith_uint256 \<Rightarrow> arith_uint256 \<Rightarrow> arith_uint256" where
  "arith_uint256_sub a b = arith_uint256_add a (arith_uint256_negate b)"

fun mul_u32_loop :: "u64 \<Rightarrow> u32 \<Rightarrow> u32 list \<Rightarrow> u32 list" where
  "mul_u32_loop carry b [] = []"
| "mul_u32_loop carry b (x # xs) =
     (let n = carry + ucast b * ucast x
      in ucast (n AND 0xffffffff) # mul_u32_loop (drop_bit 32 n) b xs)"

definition arith_uint256_mul_u32 :: "arith_uint256 \<Rightarrow> u32 \<Rightarrow> arith_uint256" where
  "arith_uint256_mul_u32 a b = mul_u32_loop 0 b a"

definition arith_uint256_or :: "arith_uint256 \<Rightarrow> arith_uint256 \<Rightarrow> arith_uint256" where
  "arith_uint256_or a b = map2 (\<lambda>x y. x OR y) a b"

definition arith_uint256_and :: "arith_uint256 \<Rightarrow> arith_uint256 \<Rightarrow> arith_uint256" where
  "arith_uint256_and a b = map2 (\<lambda>x y. x AND y) a b"

definition arith_uint256_xor :: "arith_uint256 \<Rightarrow> arith_uint256 \<Rightarrow> arith_uint256" where
  "arith_uint256_xor a b = map2 (\<lambda>x y. x XOR y) a b"

text \<open>The shift loops accumulate with \<^verbatim>\<open>|=\<close> into a zeroed result, limb index by limb index.\<close>

definition shl_step :: "nat \<Rightarrow> nat \<Rightarrow> u32 list \<Rightarrow> u32 list \<Rightarrow> nat \<Rightarrow> u32 list" where
  "shl_step k shift tmp r i =
     (let r1 = (if i + k + 1 < 8 \<and> shift \<noteq> 0
                then r[i + k + 1 := r ! (i + k + 1) OR drop_bit (32 - shift) (tmp ! i)] else r)
      in if i + k < 8 then r1[i + k := r1 ! (i + k) OR push_bit shift (tmp ! i)] else r1)"

definition arith_uint256_shl :: "arith_uint256 \<Rightarrow> nat \<Rightarrow> arith_uint256" where
  "arith_uint256_shl a shift =
     foldl (shl_step (shift div 32) (shift mod 32) a) (replicate 8 0) [0..<8]"

definition shr_step :: "nat \<Rightarrow> nat \<Rightarrow> u32 list \<Rightarrow> u32 list \<Rightarrow> nat \<Rightarrow> u32 list" where
  "shr_step k shift tmp r i =
     (let r1 = (if k + 1 \<le> i \<and> shift \<noteq> 0
                then r[i - k - 1 := r ! (i - k - 1) OR push_bit (32 - shift) (tmp ! i)] else r)
      in if k \<le> i then r1[i - k := r1 ! (i - k) OR drop_bit shift (tmp ! i)] else r1)"

definition arith_uint256_shr :: "arith_uint256 \<Rightarrow> nat \<Rightarrow> arith_uint256" where
  "arith_uint256_shr a shift =
     foldl (shr_step (shift div 32) (shift mod 32) a) (replicate 8 0) [0..<8]"

text \<open>Schoolbook multiplication: the inner loop carries, the outer loop walks the limbs of \<open>a\<close>.\<close>

function mul_inner :: "u32 \<Rightarrow> u32 list \<Rightarrow> nat \<Rightarrow> nat \<Rightarrow> u64 \<Rightarrow> u32 list \<Rightarrow> u32 list" where
  "mul_inner aj b j i carry r =
     (if i + j < 8 then
        (let n = carry + ucast (r ! (i + j)) + ucast aj * ucast (b ! i)
         in mul_inner aj b j (Suc i) (drop_bit 32 n) (r[i + j := ucast (n AND 0xffffffff)]))
      else r)"
  by pat_completeness auto
termination
  by (relation "measure (\<lambda>(aj, b, j, i, carry, r). 8 - (i + j))") auto

declare mul_inner.simps [simp del]

definition arith_uint256_mul :: "arith_uint256 \<Rightarrow> arith_uint256 \<Rightarrow> arith_uint256" where
  "arith_uint256_mul a b =
     foldl (\<lambda>r j. mul_inner (a ! j) b j 0 0 r) (replicate 8 0) [0..<8]"

fun bits_inner :: "u32 \<Rightarrow> nat \<Rightarrow> nat \<Rightarrow> nat" where
  "bits_inner w pos 0 = 32 * pos + 1"
| "bits_inner w pos (Suc nb) =
     (if w AND push_bit (Suc nb) 1 \<noteq> 0 then 32 * pos + Suc nb + 1 else bits_inner w pos nb)"

fun bits_loop :: "arith_uint256 \<Rightarrow> nat \<Rightarrow> nat" where
  "bits_loop a 0 = 0"
| "bits_loop a (Suc pos) = (if a ! pos \<noteq> 0 then bits_inner (a ! pos) pos 31 else bits_loop a pos)"

definition arith_uint256_bits :: "arith_uint256 \<Rightarrow> nat" where
  "arith_uint256_bits a = bits_loop a 8"

text \<open>Shift-and-subtract division; the argument is the number of remaining iterations, so that
  the C variable \<^verbatim>\<open>shift\<close> is one less.\<close>

fun div_loop :: "nat \<Rightarrow> arith_uint256 \<Rightarrow> arith_uint256 \<Rightarrow> arith_uint256 \<Rightarrow> arith_uint256" where
  "div_loop 0 num dv r = r"
| "div_loop (Suc shift) num dv r =
     (if arith_uint256_compare num dv \<ge> 0
      then div_loop shift (arith_uint256_sub num dv) (arith_uint256_shr dv 1)
             (r[shift div 32 := r ! (shift div 32) OR push_bit (shift mod 32) 1])
      else div_loop shift num (arith_uint256_shr dv 1) r)"

definition arith_uint256_div :: "arith_uint256 \<Rightarrow> arith_uint256 \<Rightarrow> arith_uint256" where
  "arith_uint256_div a b =
     (let num_bits = arith_uint256_bits a; div_bits = arith_uint256_bits b
      in if div_bits = 0 then replicate 8 0
         else if num_bits < div_bits then replicate 8 0
         else (let shift = num_bits - div_bits
               in div_loop (Suc shift) a (arith_uint256_shl b shift) (replicate 8 0)))"

definition ReadLE32 :: "bytes \<Rightarrow> u32" where
  "ReadLE32 p = ucast (p ! 0) OR push_bit 8 (ucast (p ! 1)) OR
                push_bit 16 (ucast (p ! 2)) OR push_bit 24 (ucast (p ! 3))"

definition WriteLE32 :: "u32 \<Rightarrow> bytes" where
  "WriteLE32 v = [ucast v, ucast (drop_bit 8 v), ucast (drop_bit 16 v), ucast (drop_bit 24 v)]"

definition arith_to_uint256 :: "arith_uint256 \<Rightarrow> uint256" where
  "arith_to_uint256 a = concat (map (\<lambda>x. WriteLE32 (a ! x)) [0..<8])"

definition uint256_to_arith :: "uint256 \<Rightarrow> arith_uint256" where
  "uint256_to_arith u = map (\<lambda>x. ReadLE32 (drop (x * 4) u)) [0..<8]"

abbreviation lim :: "nat \<Rightarrow> nat" where "lim n \<equiv> 2 ^ (32 * n)"

lemma mod_cons_step:
  fixes x B M r :: nat assumes "x < B"
  shows "x + B * (r mod M) = (x + B * r) mod (B * M)"
proof -
  have "(x + B * r) mod (B * M) = B * ((x + B * r) div B mod M) + (x + B * r) mod B"
    by (rule mod_mult2_eq)
  then show ?thesis using assms by simp
qed

lemma not_u32: "unat (NOT (w::u32)) = 2 ^ 32 - 1 - unat w"
proof -
  have "NOT w = -1 - w" by (simp add: not_eq_complement)
  moreover have "unat (-1 - w) = unat (-1 :: u32) - unat w"
    by (rule unat_sub) simp
  moreover have "unat (-1 :: u32) = 2 ^ 32 - 1"
    by (simp add: unsigned_minus_1_eq_mask mask_eq_exp_minus_1)
  ultimately show ?thesis by simp
qed

lemma unat_u32_less: "unat (x::u32) < 2 ^ 32"
proof -
  have "unat x < 2 ^ LENGTH(32)" by (rule unsigned_less)
  then show ?thesis by simp
qed

lemma unat_u64_less: "unat (x::u64) < 2 ^ 64"
proof -
  have "unat x < 2 ^ LENGTH(64)" by (rule unsigned_less)
  then show ?thesis by simp
qed

lemma div_mod_carry: "(n::nat) mod B + B * (n div B + a + b) = n + B * a + B * b"
  by (simp add: distrib_left)

section \<open>Carry chains: addition, complement, increment, comparison\<close>

lemma length_add_loop [simp]: "length (add_loop c xs ys) = min (length xs) (length ys)"
  by (induction c xs ys rule: add_loop.induct) (auto simp: Let_def)

lemma unat_add3_u64:
  "unat c \<le> 1 \<Longrightarrow> unat (c + ucast (x::u32) + ucast (y::u32) :: u64) = unat c + unat x + unat y"
  using unat_u32_less [of x] unat_u32_less [of y]
  by (simp add: unat_word_ariths unsigned_ucast_eq take_bit_eq_mod)

lemma words_val_add_loop:
  "length xs = length ys \<Longrightarrow> unat c \<le> 1 \<Longrightarrow>
   words_val (add_loop c xs ys) = (unat c + words_val xs + words_val ys) mod lim (length xs)"
proof (induction xs ys arbitrary: c rule: list_induct2)
  case (Cons x xs y ys)
  define n where "n = c + ucast x + (ucast y :: u64)"
  have un: "unat n = unat c + unat x + unat y"
    using Cons.prems unat_add3_u64 by (simp add: n_def)
  have "unat n < 2 * 2 ^ 32"
    using Cons.prems un unat_u32_less [of x] unat_u32_less [of y] by simp
  then have c': "unat (drop_bit 32 n) \<le> 1" by (simp add: unat_high32 less_mult_imp_div_less flip: less_Suc_eq_le)
  have "words_val (add_loop c (x # xs) (y # ys)) =
    unat n mod 2 ^ 32 + 2 ^ 32 * ((unat n div 2 ^ 32 + words_val xs + words_val ys) mod lim (length xs))"
    using Cons.IH [OF c'] by (simp only: add_loop.simps Let_def n_def [symmetric] words_val.simps unat_low32 unat_high32 len_num0 len_num1 len_bit0) simp
  also have "\<dots> = (unat n mod 2 ^ 32 + 2 ^ 32 * (unat n div 2 ^ 32 + words_val xs + words_val ys)) mod (2 ^ 32 * lim (length xs))"
    by (rule mod_cons_step) simp
  also have "unat n mod 2 ^ 32 + 2 ^ 32 * (unat n div 2 ^ 32 + words_val xs + words_val ys) =
     unat n + 2 ^ 32 * words_val xs + 2 ^ 32 * words_val ys"
    by (rule div_mod_carry)
  also have "(2::nat) ^ 32 * lim (length xs) = lim (length (x # xs))" by (simp add: power_add)
  also have "unat n + 2 ^ 32 * words_val xs + 2 ^ 32 * words_val ys = unat c + words_val (x # xs) + words_val (y # ys)"
    by (simp add: un)
  finally show ?case .
qed simp

lemma words_val_complement:
  "words_val (map (\<lambda>w. NOT w) ws) = lim (length ws) - 1 - words_val (ws :: u32 list)"
proof (induction ws)
  case (Cons w ws)
  have v: "words_val ws + 1 \<le> lim (length ws)" using words_val_less [of ws] by simp
  have "words_val (map (\<lambda>w. NOT w) (w # ws)) =
    (2 ^ 32 - 1 - unat w) + 2 ^ 32 * (lim (length ws) - (words_val ws + 1))"
    using Cons by (simp add: not_u32)
  also have "\<dots> = (2 ^ 32 - 1 - unat w) + (2 ^ 32 * lim (length ws) - 2 ^ 32 * (words_val ws + 1))"
    by (simp only: diff_mult_distrib2)
  also have "\<dots> = 2 ^ 32 * lim (length ws) - 1 - (unat w + 2 ^ 32 * words_val ws)"
    using unat_u32_less [of w] mult_le_mono2 [OF v, of "2 ^ 32"] by simp
  finally show ?case by (simp add: power_add)
qed simp

lemma length_increment_loop [simp]: "length (increment_loop ws) = length ws"
  by (induction ws) auto

lemma unat_Suc_u32: "w + 1 \<noteq> 0 \<Longrightarrow> unat (w + 1) = unat (w::u32) + 1"
  using unatSuc [of w] by (simp add: add.commute)

lemma words_val_increment:
  "words_val (increment_loop ws) = (words_val ws + 1) mod lim (length ws)"
proof (induction ws)
  case (Cons w ws)
  show ?case
  proof (cases "w + 1 = 0")
    case True
    then have "w = -1" by (simp add: eq_neg_iff_add_eq_0)
    then have w: "unat w = 2 ^ 32 - 1" by (simp add: unsigned_minus_1_eq_mask mask_eq_exp_minus_1)
    have "words_val (increment_loop (w # ws)) = 0 + 2 ^ 32 * ((words_val ws + 1) mod lim (length ws))"
      using True Cons by simp
    also have "\<dots> = (0 + 2 ^ 32 * (words_val ws + 1)) mod (2 ^ 32 * lim (length ws))"
      by (rule mod_cons_step) simp
    finally show ?thesis by (simp add: w power_add)
  next
    case False
    then have "words_val (increment_loop (w # ws)) = words_val ((w + 1) # ws)" by simp
    moreover have "words_val ((w + 1) # ws) = words_val (w # ws) + 1"
      using unat_Suc_u32 [OF False] by simp
    moreover have "words_val ((w + 1) # ws) < lim (length (w # ws))"
      using words_val_less [of "(w + 1) # ws"] by simp
    ultimately show ?thesis by simp
  qed
qed simp

lemma compare_loop_spec:
  "n \<le> length a \<Longrightarrow> n \<le> length b \<Longrightarrow>
   compare_loop a b n = (if words_val (take n a) < words_val (take n b) then -1
      else if words_val (take n b) < words_val (take n a) then 1 else 0)"
proof (induction n)
  case (Suc n)
  have ta: "take (Suc n) a = take n a @ [a ! n]" and tb: "take (Suc n) b = take n b @ [b ! n]"
    using Suc.prems by (simp_all add: take_Suc_conv_app_nth)
  have la: "words_val (take n a) < lim n" and lb: "words_val (take n b) < lim n"
    using words_val_less [of "take n a"] words_val_less [of "take n b"] Suc.prems by simp_all
  have va: "words_val (take (Suc n) a) = words_val (take n a) + lim n * unat (a ! n)"
   and vb: "words_val (take (Suc n) b) = words_val (take n b) + lim n * unat (b ! n)"
    using Suc.prems by (simp_all add: ta tb words_val_append)
  have less: "x + lim n * p < y + lim n * q" if "x < lim n" "p < q" for x y p q :: nat
  proof -
    have "lim n * (p + 1) \<le> lim n * q" using that by (intro mult_le_mono2) simp
    then show ?thesis using that by simp
  qed
  consider "a ! n < b ! n" | "b ! n < a ! n" | "a ! n = b ! n" by force
  then show ?case
  proof cases
    case 1
    then have "words_val (take (Suc n) a) < words_val (take (Suc n) b)"
      unfolding va vb using less [OF la] by (simp add: word_less_nat_alt)
    with 1 show ?thesis by simp
  next
    case 2
    then have "words_val (take (Suc n) b) < words_val (take (Suc n) a)"
      unfolding va vb using less [OF lb] by (simp add: word_less_nat_alt)
    with 2 show ?thesis by simp
  next
    case 3
    with Suc show ?thesis by (simp add: va vb)
  qed
qed simp

section \<open>Shifts and bit length\<close>

lemma div_mod_unique: "(x::nat) = 32 * q + r \<Longrightarrow> r < 32 \<Longrightarrow> x div 32 = q \<and> x mod 32 = r"
  by simp

definition shl_limb :: "u32 list \<Rightarrow> nat \<Rightarrow> nat \<Rightarrow> nat \<Rightarrow> nat \<Rightarrow> u32" where
  "shl_limb tmp k s m j =
     (if k \<le> j \<and> j - k < m then push_bit s (tmp ! (j - k)) else 0) OR
     (if k + 1 \<le> j \<and> j - k - 1 < m \<and> s \<noteq> 0 then drop_bit (32 - s) (tmp ! (j - k - 1)) else 0)"

lemma length_shl_step [simp]: "length (shl_step k s tmp r i) = length r"
  by (simp add: shl_step_def Let_def)

lemma shl_step_nth:
  assumes "length r = 8" "j < 8"
  shows "shl_step k s tmp r i ! j =
    (r ! j OR (if j = i + k + 1 \<and> s \<noteq> 0 then drop_bit (32 - s) (tmp ! i) else 0)) OR
     (if j = i + k then push_bit s (tmp ! i) else 0)"
  using assms by (auto simp: shl_step_def Let_def nth_list_update)

lemma shl_fold:
  "m \<le> 8 \<Longrightarrow> length (foldl (shl_step k s tmp) (replicate 8 0) [0..<m]) = 8 \<and>
    (\<forall>j < 8. foldl (shl_step k s tmp) (replicate 8 0) [0..<m] ! j = shl_limb tmp k s m j)"
proof (induction m)
  case 0
  then show ?case by (simp add: shl_limb_def)
next
  case (Suc m)
  then show ?case
    by (auto simp: shl_step_nth shl_limb_def less_Suc_eq ac_simps)
qed

lemma length_shl [simp]: "length (arith_uint256_shl a n) = 8"
  using shl_fold [of 8] by (simp add: arith_uint256_shl_def)

lemma shl_nth: "j < 8 \<Longrightarrow> arith_uint256_shl a n ! j = shl_limb a (n div 32) (n mod 32) 8 j"
  using shl_fold [of 8] by (simp add: arith_uint256_shl_def)

lemma words_val_shl:
  assumes "length a = 8"
  shows "words_val (arith_uint256_shl a n) = (words_val a * 2 ^ n) mod 2 ^ 256"
proof -
  have "words_val (arith_uint256_shl a n) = take_bit 256 (push_bit n (words_val a))"
  proof (rule bit_eqI)
    fix p
    show "bit (words_val (arith_uint256_shl a n)) p \<longleftrightarrow> bit (take_bit 256 (push_bit n (words_val a))) p"
    proof (cases "p < 256")
      case True
      define q i s k where "q = p div 32" and "i = p mod 32" and "s = n mod 32" and "k = n div 32"
      have p: "p = 32 * q + i" and n: "n = 32 * k + s" and i: "i < 32" and s: "s < 32" and q: "q < 8"
        using True by (simp_all add: q_def i_def s_def k_def)
      have L: "bit (words_val (arith_uint256_shl a n)) p \<longleftrightarrow> bit (shl_limb a k s 8 q) i"
        using True q by (simp add: bit_words_val q_def i_def s_def k_def shl_nth)
      have R: "bit (take_bit 256 (push_bit n (words_val a))) p \<longleftrightarrow> n \<le> p \<and> bit (a ! ((p - n) div 32)) ((p - n) mod 32)"
        using True assms by (auto simp: bit_simps bit_words_val)
      have sh: "bit (shl_limb a k s 8 q) i \<longleftrightarrow>
         (k \<le> q \<and> s \<le> i \<and> bit (a ! (q - k)) (i - s)) \<or> (k + 1 \<le> q \<and> s \<noteq> 0 \<and> i + (32 - s) < 32 \<and> bit (a ! (q - k - 1)) (i + (32 - s)))"
        using i q by (auto simp: shl_limb_def bit_simps ac_simps dest: bit_imp_le_length)
      consider "q < k" | "q = k" "i < s" | "k \<le> q" "s \<le> i" | "k < q" "i < s" by linarith
      then show ?thesis
      proof cases
        case 1
        then have "p < n" using p n i by linarith
        with 1 show ?thesis unfolding L R sh by auto
      next
        case 2
        then have "p < n" using p n i by linarith
        with 2 show ?thesis unfolding L R sh by auto
      next
        case 3
        have e: "p - n = 32 * (q - k) + (i - s)" using 3 p n by (simp add: algebra_simps)
        have d: "(p - n) div 32 = q - k" and m: "(p - n) mod 32 = i - s" using i unfolding e by simp_all
        have le: "n \<le> p" using 3 p n by (simp add: add_mono)
        show ?thesis unfolding L R sh d m using 3 le by auto
      next
        case 4
        then obtain t where t: "q = k + 1 + t" by (metis add.assoc less_iff_Suc_add plus_1_eq_Suc add.commute)
        have e: "p - n = 32 * (q - k - 1) + (i + (32 - s))" using 4 p n s t by simp
        have b: "i + (32 - s) < 32" using 4 s by simp
        from div_mod_unique [OF e this] have d: "(p - n) div 32 = q - k - 1" and m: "(p - n) mod 32 = i + (32 - s)" by simp_all
        have le: "n \<le> p" using 4 p n s t by simp
        show ?thesis unfolding L R sh d m using 4 le b by auto
      qed
    next
      case False
      then show ?thesis by (simp add: bit_words_val bit_simps)
    qed
  qed
  then show ?thesis by (simp add: take_bit_eq_mod push_bit_eq_mult)
qed

definition shr_limb :: "u32 list \<Rightarrow> nat \<Rightarrow> nat \<Rightarrow> nat \<Rightarrow> nat \<Rightarrow> u32" where
  "shr_limb tmp k s m j =
     (if j + k < m then drop_bit s (tmp ! (j + k)) else 0) OR
     (if j + k + 1 < m \<and> s \<noteq> 0 then push_bit (32 - s) (tmp ! (j + k + 1)) else 0)"

lemma length_shr_step [simp]: "length (shr_step k s tmp r i) = length r"
  by (simp add: shr_step_def Let_def)

lemma shr_step_nth:
  assumes "length r = 8" "j < 8" "i < 8"
  shows "shr_step k s tmp r i ! j =
    (r ! j OR (if i = j + k + 1 \<and> s \<noteq> 0 then push_bit (32 - s) (tmp ! i) else 0)) OR
     (if i = j + k then drop_bit s (tmp ! i) else 0)"
  using assms by (auto simp: shr_step_def Let_def nth_list_update)

lemma shr_fold:
  "m \<le> 8 \<Longrightarrow> length (foldl (shr_step k s tmp) (replicate 8 0) [0..<m]) = 8 \<and>
    (\<forall>j < 8. foldl (shr_step k s tmp) (replicate 8 0) [0..<m] ! j = shr_limb tmp k s m j)"
proof (induction m)
  case 0
  then show ?case by (simp add: shr_limb_def)
next
  case (Suc m)
  then show ?case
    by (auto simp: shr_step_nth shr_limb_def less_Suc_eq ac_simps) (metis Suc_lessI)
qed

lemma length_shr [simp]: "length (arith_uint256_shr a n) = 8"
  using shr_fold [of 8] by (simp add: arith_uint256_shr_def)

lemma shr_nth: "j < 8 \<Longrightarrow> arith_uint256_shr a n ! j = shr_limb a (n div 32) (n mod 32) 8 j"
  using shr_fold [of 8] by (simp add: arith_uint256_shr_def)

lemma words_val_shr:
  assumes "length a = 8"
  shows "words_val (arith_uint256_shr a n) = words_val a div 2 ^ n"
proof -
  have "words_val (arith_uint256_shr a n) = drop_bit n (words_val a)"
  proof (rule bit_eqI)
    fix p
    show "bit (words_val (arith_uint256_shr a n)) p \<longleftrightarrow> bit (drop_bit n (words_val a)) p"
    proof (cases "p < 256")
      case True
      define q i s k where "q = p div 32" and "i = p mod 32" and "s = n mod 32" and "k = n div 32"
      have p: "p = 32 * q + i" and n: "n = 32 * k + s" and i: "i < 32" and s: "s < 32" and q: "q < 8"
        using True by (simp_all add: q_def i_def s_def k_def)
      have L: "bit (words_val (arith_uint256_shr a n)) p \<longleftrightarrow> bit (shr_limb a k s 8 q) i"
        using True q by (simp add: bit_words_val q_def i_def s_def k_def shr_nth)
      have R: "bit (drop_bit n (words_val a)) p \<longleftrightarrow>
          (n + p) div 32 < 8 \<and> bit (a ! ((n + p) div 32)) ((n + p) mod 32)"
        using assms by (auto simp: bit_simps bit_words_val)
      have sh: "bit (shr_limb a k s 8 q) i \<longleftrightarrow>
         (q + k < 8 \<and> bit (a ! (q + k)) (s + i)) \<or>
         (q + k + 1 < 8 \<and> s \<noteq> 0 \<and> 32 - s \<le> i \<and> bit (a ! (q + k + 1)) (i - (32 - s)))"
        using i q by (auto simp: shr_limb_def bit_simps ac_simps)
      show ?thesis
      proof (cases "s + i < 32")
        case lt: True
        have "n + p = 32 * (q + k) + (s + i)" using p n by simp
        from div_mod_unique [OF this lt] have d: "(n + p) div 32 = q + k" and m: "(n + p) mod 32 = s + i" by simp_all
        show ?thesis unfolding L R sh d m using lt s by auto
      next
        case ge: False
        have "n + p = 32 * (q + k + 1) + (i - (32 - s))" using p n s ge by simp
        moreover have "i - (32 - s) < 32" using i by simp
        ultimately have d: "(n + p) div 32 = q + k + 1" and m: "(n + p) mod 32 = i - (32 - s)"
          using div_mod_unique by blast+
        have "\<not> bit (a ! (q + k)) (s + i)" using ge by (auto dest: bit_imp_le_length)
        then show ?thesis unfolding L R sh d m using ge s i by auto
      qed
    next
      case False
      then have "\<not> bit (drop_bit n (words_val a)) p" using assms by (simp add: bit_words_val bit_simps)
      then show ?thesis using False by (simp add: bit_words_val)
    qed
  qed
  then show ?thesis by (simp add: drop_bit_eq_div)
qed

lemma and_exp_nonzero: "(w::u32) AND 2 ^ n \<noteq> 0 \<longleftrightarrow> bit w n"
  by (simp add: and_exp_eq_0_iff_not_bit)

lemma bits_inner_spec:
  "n < 32 \<Longrightarrow> w \<noteq> 0 \<Longrightarrow> unat w < 2 ^ Suc n \<Longrightarrow>
   \<exists>m \<le> n. bits_inner w pos n = 32 * pos + m + 1 \<and> 2 ^ m \<le> unat w \<and> unat w < 2 ^ Suc m"
proof (induction n)
  case 0
  then have "unat w \<noteq> 0" by (simp add: unat_eq_0)
  with 0 show ?case by auto
next
  case (Suc n)
  have iff: "w AND push_bit (Suc n) 1 \<noteq> 0 \<longleftrightarrow> 2 ^ Suc n \<le> unat w"
  proof -
    have "bit w (Suc n) \<longleftrightarrow> bit (unat w) (Suc n)" using Suc.prems by (simp add: bit_simps)
    also have "\<dots> \<longleftrightarrow> odd (unat w div 2 ^ Suc n)" by (simp only: bit_iff_odd)
    also have "\<dots> \<longleftrightarrow> 2 ^ Suc n \<le> unat w"
    proof (cases "2 ^ Suc n \<le> unat w")
      case True
      have "unat w div 2 ^ Suc n = 1"
        using True Suc.prems by (intro div_nat_eqI) simp_all
      with True show ?thesis by simp
    qed simp
    finally show ?thesis by (simp only: push_bit_of_1 and_exp_nonzero)
  qed
  show ?case
  proof (cases "2 ^ Suc n \<le> unat w")
    case True
    with Suc.prems iff show ?thesis by (auto intro!: exI [of _ "Suc n"])
  next
    case False
    with Suc.IH Suc.prems obtain m where "m \<le> n" "bits_inner w pos n = 32 * pos + m + 1" "2 ^ m \<le> unat w" "unat w < 2 ^ Suc m"
      by auto
    with False iff show ?thesis by (auto intro!: exI [of _ m])
  qed
qed

lemma bits_loop_spec:
  "n \<le> length a \<Longrightarrow> words_val (take n a) < 2 ^ bits_loop a n \<and>
     (words_val (take n a) \<noteq> 0 \<longrightarrow> bits_loop a n \<noteq> 0 \<and> 2 ^ (bits_loop a n - 1) \<le> words_val (take n a)) \<and>
     (words_val (take n a) = 0 \<longrightarrow> bits_loop a n = 0) \<and> bits_loop a n \<le> 32 * n"
proof (induction n)
  case (Suc n)
  have ta: "take (Suc n) a = take n a @ [a ! n]" using Suc.prems by (simp add: take_Suc_conv_app_nth)
  have va: "words_val (take (Suc n) a) = words_val (take n a) + lim n * unat (a ! n)"
    using Suc.prems by (simp add: ta words_val_append)
  show ?case
  proof (cases "a ! n = 0")
    case True
    with Suc show ?thesis by (simp add: va)
  next
    case False
    obtain m where m: "m \<le> 31" "bits_inner (a ! n) n 31 = 32 * n + m + 1" "2 ^ m \<le> unat (a ! n)" "unat (a ! n) < 2 ^ Suc m"
      using bits_inner_spec [of 31 "a ! n" n] False unat_u32_less [of "a ! n"] by auto
    have la: "words_val (take n a) < lim n"
      using words_val_less [of "take n a"] Suc.prems by simp
    have "lim n * 2 ^ m \<le> lim n * unat (a ! n)" using m by (intro mult_le_mono2)
    then have lo: "2 ^ (32 * n + m) \<le> words_val (take (Suc n) a)" 
      unfolding va power_add by (rule trans_le_add2)
    have "lim n * (unat (a ! n) + 1) \<le> lim n * 2 ^ Suc m" using m by (intro mult_le_mono2) simp
    then have hi: "words_val (take (Suc n) a) < 2 ^ (32 * n + m + 1)" using la by (simp add: va power_add)
    have "words_val (take (Suc n) a) \<noteq> 0" using lo by (metis le_zero_eq power_not_zero zero_neq_numeral)
    then show ?thesis using m lo hi False by simp
  qed
qed simp

section \<open>Multiplication\<close>

lemma mul_bound: "(c::nat) < B \<Longrightarrow> r < B \<Longrightarrow> a < B \<Longrightarrow> b < B \<Longrightarrow> c + r + a * b < B * B"
proof -
  assume h: "c < B" "r < B" "a < B" "b < B"
  have "a * b \<le> (B - 1) * (B - 1)" using h by (intro mult_le_mono) auto
  moreover have "c + r \<le> 2 * (B - 1)" using h by simp
  moreover have "(B - 1) * (B - 1) + 2 * (B - 1) < B * B" using h by (cases B) auto
  ultimately show ?thesis by linarith
qed

lemma mul_step_unat:
  assumes "unat (carry::u64) < 2 ^ 32"
  shows "unat (carry + ucast (r::u32) + ucast (aj::u32) * ucast (b::u32) :: u64) = unat carry + unat r + unat aj * unat b"
proof -
  have b: "unat carry + unat r + unat aj * unat b < 2 ^ 32 * 2 ^ 32"
    using assms unat_u32_less [of r] unat_u32_less [of aj] unat_u32_less [of b] by (rule mul_bound)
  have u: "unat (ucast x :: u64) = unat (x::u32)" for x
    using unat_u32_less [of x] by (simp add: unsigned_ucast_eq take_bit_eq_mod)
  have "unat (carry + ucast r + ucast aj * ucast b :: u64) = (unat carry + unat r + unat aj * unat b) mod 2 ^ 64"
    by (simp add: unat_word_ariths u mod_simps)
  with b show ?thesis by simp
qed

lemma length_mul_inner [simp]: "length (mul_inner aj b j i c r) = length r"
proof (induction aj b j i c r rule: mul_inner.induct)
  case (1 aj b j i c r)
  then show ?case by (subst mul_inner.simps) (auto simp: Let_def)
qed

text \<open>The row loop adds \<open>aj * (b from limb i) * 2^(32 (i+j))\<close> and the carry, modulo \<open>2^256\<close>.\<close>

lemma words_val_take_Suc: "i < length b \<Longrightarrow> words_val (drop i b) = unat (b ! i) + 2 ^ 32 * words_val (drop (Suc i) (b :: u32 list))"
  by (subst Cons_nth_drop_Suc [symmetric]) simp_all

lemma mul_inner_spec:
  assumes "length r = 8" "length b = 8" "unat c < 2 ^ 32" "j < 8" 
  shows "words_val (mul_inner aj b j i c r) mod 2 ^ 256 =
     (words_val r + 2 ^ (32 * (i + j)) * (unat c + unat aj * words_val (drop i b))) mod 2 ^ 256"
  using assms
proof (induction aj b j i c r rule: mul_inner.induct)
  case (1 aj b j i c r)
  show ?case
  proof (cases "i + j < 8")
    case True
    define n where "n = c + ucast (r ! (i + j)) + ucast aj * (ucast (b ! i) :: u64)"
    define r' where "r' = r[i + j := ucast (n AND 0xffffffff)]"
    have un: "unat n = unat c + unat (r ! (i + j)) + unat aj * unat (b ! i)"
      unfolding n_def by (rule mul_step_unat) (rule "1.prems")
    have "unat n < 2 ^ 64" 
      by (rule unat_u64_less)
    then have c': "unat (drop_bit 32 n) < 2 ^ 32" unfolding unat_high32 by (simp add: less_mult_imp_div_less)
    have IH: "words_val (mul_inner aj b j (Suc i) (drop_bit 32 n) r') mod 2 ^ 256 =
       (words_val r' + 2 ^ (32 * (Suc i + j)) * (unat (drop_bit 32 n) + unat aj * words_val (drop (Suc i) b))) mod 2 ^ 256"
      unfolding r'_def by (rule "1.IH" [OF True n_def]) (use c' "1.prems" in simp_all)
    have upd: "words_val r' + 2 ^ (32 * (i + j)) * unat (r ! (i + j)) = words_val r + 2 ^ (32 * (i + j)) * (unat n mod 2 ^ 32)"
      using words_val_update [of "i + j" r "ucast (n AND 0xffffffff)"] True "1.prems"
      by (simp add: r'_def unat_low32)
    define P d m W where "P = (2::nat) ^ (32 * (i + j))" and "d = unat n div 2 ^ 32" and "m = unat n mod 2 ^ 32"
      and "W = unat aj * words_val (drop (Suc i) b)"
    have PS: "(2::nat) ^ (32 * (Suc i + j)) = P * 2 ^ 32" by (simp add: P_def power_add)
    have nd: "m + 2 ^ 32 * d = unat c + unat (r ! (i + j)) + unat aj * unat (b ! i)"
      unfolding m_def d_def un [symmetric] by (rule mod_mult_div_eq)
    have dr: "unat aj * words_val (drop i b) = unat aj * unat (b ! i) + 2 ^ 32 * W"
      using True "1.prems" by (simp add: words_val_take_Suc W_def algebra_simps)
    have "words_val r' + P * 2 ^ 32 * (d + W) + P * unat (r ! (i + j)) = words_val r + P * (m + 2 ^ 32 * d) + P * (2 ^ 32 * W)"
      using upd unfolding P_def [symmetric] m_def [symmetric] by (simp add: algebra_simps)
    also have "\<dots> = words_val r + P * (unat c + unat aj * words_val (drop i b)) + P * unat (r ! (i + j))"
      unfolding nd dr by (simp add: algebra_simps)
    finally have "words_val r' + 2 ^ (32 * (Suc i + j)) * (unat n div 2 ^ 32 + unat aj * words_val (drop (Suc i) b))
      = words_val r + 2 ^ (32 * (i + j)) * (unat c + unat aj * words_val (drop i b))"
      unfolding PS P_def [symmetric] d_def [symmetric] W_def [symmetric] by simp
    with IH have "words_val (mul_inner aj b j (Suc i) (drop_bit 32 n) r') mod 2 ^ 256 =
      (words_val r + 2 ^ (32 * (i + j)) * (unat c + unat aj * words_val (drop i b))) mod 2 ^ 256" by (simp only: unat_high32)
    moreover have "mul_inner aj b j i c r = mul_inner aj b j (Suc i) (drop_bit 32 n) r'"
      using True by (subst mul_inner.simps) (simp add: Let_def n_def r'_def)
    ultimately show ?thesis by simp
  next
    case False
    then have "(2::nat) ^ 256 dvd 2 ^ (32 * (i + j))" by (intro le_imp_power_dvd) simp
    then have "(2::nat) ^ 256 dvd 2 ^ (32 * (i + j)) * (unat c + unat aj * words_val (drop i b))" by (rule dvd_mult2)
    then obtain q where "2 ^ (32 * (i + j)) * (unat c + unat aj * words_val (drop i b)) = 2 ^ 256 * q" by (rule dvdE)
    then have "(words_val r + 2 ^ (32 * (i + j)) * (unat c + unat aj * words_val (drop i b))) mod 2 ^ 256 = words_val r mod 2 ^ 256"
      by (simp only: mod_mult_self2)
    then show ?thesis using False by (subst mul_inner.simps) simp
  qed
qed

lemma mul_fold:
  assumes "length a = 8" "length b = 8" "m \<le> 8"
  shows "length (foldl (\<lambda>r j. mul_inner (a ! j) b j 0 0 r) (replicate 8 0) [0..<m]) = 8 \<and>
     words_val (foldl (\<lambda>r j. mul_inner (a ! j) b j 0 0 r) (replicate 8 0) [0..<m]) mod 2 ^ 256
     = (words_val (take m a) * words_val b) mod 2 ^ 256"
  using assms(3)
proof (induction m)
  case (Suc m)
  let ?r = "foldl (\<lambda>r j. mul_inner (a ! j) b j 0 0 r) (replicate 8 0) [0..<m]"
  have l: "length ?r = 8" and v: "words_val ?r mod 2 ^ 256 = (words_val (take m a) * words_val b) mod 2 ^ 256" using Suc by simp_all
  have t: "words_val (take (Suc m) a) = words_val (take m a) + lim m * unat (a ! m)"
    using Suc.prems assms by (simp add: take_Suc_conv_app_nth words_val_append)
  have "words_val (mul_inner (a ! m) b m 0 0 ?r) mod 2 ^ 256 = (words_val ?r + 2 ^ (32 * (0 + m)) * (unat (0::u64) + unat (a ! m) * words_val (drop 0 b))) mod 2 ^ 256"
    by (rule mul_inner_spec) (use l assms Suc.prems in simp_all)
  also have "\<dots> = (words_val ?r mod 2 ^ 256 + lim m * (unat (a ! m) * words_val b)) mod 2 ^ 256" by (simp only: mod_add_left_eq) simp
  also have "\<dots> = (words_val (take (Suc m) a) * words_val b) mod 2 ^ 256"
    unfolding v t by (simp only: mod_add_left_eq) (simp add: algebra_simps)
  finally show ?case using l by simp
qed simp

lemma words_val_mod_256: "length a = 8 \<Longrightarrow> words_val (a :: u32 list) mod 2 ^ 256 = words_val a"
  using words_val_less [of a] by simp

lemma length_mul [simp]: "length a = 8 \<Longrightarrow> length b = 8 \<Longrightarrow> length (arith_uint256_mul a b) = 8"
  using mul_fold [of a b 8] by (simp add: arith_uint256_mul_def)

lemma words_val_mul:
  "length a = 8 \<Longrightarrow> length b = 8 \<Longrightarrow> words_val (arith_uint256_mul a b) = (words_val a * words_val b) mod 2 ^ 256"
  using mul_fold [of a b 8] words_val_mod_256 [of "arith_uint256_mul a b"] by (simp add: arith_uint256_mul_def)

lemma words_val_mul_u32_loop:
  "unat c < 2 ^ 32 \<Longrightarrow>
   words_val (mul_u32_loop c b xs) = (unat c + words_val xs * unat b) mod lim (length xs)"
proof (induction xs arbitrary: c)
  case (Cons x xs)
  define n where "n = c + ucast b * (ucast x :: u64)"
  have un: "unat n = unat c + unat b * unat x"
    using mul_step_unat [of c 0 b x] Cons.prems by (simp add: n_def)
  have "unat n < 2 ^ 64" by (rule unat_u64_less)
  then have c': "unat (drop_bit 32 n) < 2 ^ 32" unfolding unat_high32 by (simp add: less_mult_imp_div_less)
  have "words_val (mul_u32_loop c b (x # xs)) =
    unat n mod 2 ^ 32 + 2 ^ 32 * ((unat n div 2 ^ 32 + words_val xs * unat b) mod lim (length xs))"
    using Cons.IH [OF c'] by (simp only: mul_u32_loop.simps Let_def n_def [symmetric] words_val.simps unat_low32 unat_high32 len_num0 len_num1 len_bit0) simp
  also have "\<dots> = (unat n mod 2 ^ 32 + 2 ^ 32 * (unat n div 2 ^ 32 + words_val xs * unat b)) mod (2 ^ 32 * lim (length xs))"
    by (rule mod_cons_step) simp
  also have "unat n mod 2 ^ 32 + 2 ^ 32 * (unat n div 2 ^ 32 + words_val xs * unat b) = unat n + 2 ^ 32 * (words_val xs * unat b)"
    using div_mod_carry [of "unat n" "2 ^ 32" "words_val xs * unat b" 0] by (simp only: mult_0_right add_0_right)
  also have "(2::nat) ^ 32 * lim (length xs) = lim (length (x # xs))" by (simp add: power_add)
  also have "unat n + 2 ^ 32 * (words_val xs * unat b) = unat c + words_val (x # xs) * unat b"
  proof -
    have "words_val (x # xs) * unat b = unat b * unat x + 2 ^ 32 * (words_val xs * unat b)"
      by (simp add: distrib_right)
    then show ?thesis by (simp only: un add.assoc)
  qed
  finally show ?case .
qed simp

lemma words_val_mul_u32:
  "length a = 8 \<Longrightarrow> words_val (arith_uint256_mul_u32 a b) = (words_val a * unat b) mod 2 ^ 256"
  using words_val_mul_u32_loop [of 0 b a] by (simp add: arith_uint256_mul_u32_def)

section \<open>Subtraction and division\<close>

lemma length_negate [simp]: "length (arith_uint256_negate a) = length a"
  by (simp add: arith_uint256_negate_def)

lemma length_sub [simp]: "length a = 8 \<Longrightarrow> length b = 8 \<Longrightarrow> length (arith_uint256_sub a b) = 8"
  by (simp add: arith_uint256_sub_def arith_uint256_add_def arith_uint256_negate_def)

lemma words_val_add:
  "length a = 8 \<Longrightarrow> length b = 8 \<Longrightarrow> words_val (arith_uint256_add a b) = (words_val a + words_val b) mod 2 ^ 256"
  by (simp add: arith_uint256_add_def words_val_add_loop)

lemma words_val_negate:
  "length a = 8 \<Longrightarrow> words_val (arith_uint256_negate a) = (2 ^ 256 - words_val a) mod 2 ^ 256"
proof -
  assume "length a = 8"
  then have "words_val a < 2 ^ 256" using words_val_less [of a] by simp
  then have "2 ^ 256 - 1 - words_val a + 1 = 2 ^ 256 - words_val a" by linarith
  moreover have "words_val (arith_uint256_negate a) = (2 ^ 256 - 1 - words_val a + 1) mod 2 ^ 256"
    using \<open>length a = 8\<close> unfolding arith_uint256_negate_def words_val_increment words_val_complement by simp
  ultimately show ?thesis by simp
qed

lemma words_val_sub:
  assumes "length a = 8" "length b = 8" "words_val b \<le> words_val a"
  shows "words_val (arith_uint256_sub a b) = words_val a - words_val b"
proof -
  have a: "words_val a < 2 ^ 256" and b: "words_val b < 2 ^ 256" using words_val_less [of a] words_val_less [of b] assms by simp_all
  have "words_val (arith_uint256_sub a b) = (words_val a + (2 ^ 256 - words_val b) mod 2 ^ 256) mod 2 ^ 256"
    using assms by (simp only: arith_uint256_sub_def words_val_add words_val_negate length_negate)
  also have "\<dots> = (words_val a + (2 ^ 256 - words_val b)) mod 2 ^ 256" by (rule mod_add_right_eq)
  also have "words_val a + (2 ^ 256 - words_val b) = (words_val a - words_val b) + 2 ^ 256" using assms b by simp
  also have "\<dots> mod 2 ^ 256 = (words_val a - words_val b) mod 2 ^ 256" by (rule mod_add_self2)
  also have "\<dots> = words_val a - words_val b" using a by simp
  finally show ?thesis .
qed

lemma compare_spec:
  "length a = 8 \<Longrightarrow> length b = 8 \<Longrightarrow> arith_uint256_compare a b =
     (if words_val a < words_val b then -1 else if words_val b < words_val a then 1 else 0)"
  using compare_loop_spec [of 8 a b] by (simp add: arith_uint256_compare_def)

lemma words_val_set_bit:
  fixes r :: "u32 list"
  assumes "length r = 8" "n < 256" "2 ^ Suc n dvd words_val r"
  shows "words_val (r[n div 32 := r ! (n div 32) OR push_bit (n mod 32) 1]) = words_val r + 2 ^ n"
proof -
  have "words_val (r[n div 32 := r ! (n div 32) OR push_bit (n mod 32) 1]) = words_val r OR push_bit n 1"
  proof (rule bit_eqI)
    fix p
    have "p div 32 = n div 32 \<and> p mod 32 = n mod 32 \<longleftrightarrow> p = n" by (metis div_mult_mod_eq)
    then show "bit (words_val (r[n div 32 := r ! (n div 32) OR push_bit (n mod 32) 1])) p \<longleftrightarrow> bit (words_val r OR push_bit n 1) p"
      using assms by (auto simp: bit_words_val bit_simps nth_list_update)
  qed
  also have "\<dots> = words_val r + push_bit n 1"
  proof (rule disjunctive_add_eq_or [symmetric], rule bit_eqI)
    fix p
    obtain k where "words_val r = 2 ^ Suc n * k" using assms(3) by (auto elim: dvdE)
    then have "words_val r = push_bit (Suc n) k" by (simp add: push_bit_eq_mult)
    then show "bit (words_val r AND push_bit n 1) p \<longleftrightarrow> bit 0 p" by (auto simp: bit_simps bit_0)
  qed
  finally show ?thesis by simp
qed

lemma div_loop_spec:
  assumes "length num = 8" "length dv = 8" "length r = 8" "n \<le> 256"
    and "0 < D" "words_val num < D * 2 ^ n" "n \<noteq> 0 \<longrightarrow> words_val dv = D * 2 ^ (n - 1)" "2 ^ n dvd words_val r"
  shows "length (div_loop n num dv r) = 8 \<and> words_val (div_loop n num dv r) = words_val r + words_val num div D"
  using assms
proof (induction n arbitrary: num dv r)
  case 0
  then show ?case by simp
next
  case (Suc n)
  have dv: "words_val dv = D * 2 ^ n" using Suc.prems by simp
  have dv': "n \<noteq> 0 \<longrightarrow> words_val (arith_uint256_shr dv 1) = D * 2 ^ (n - 1)"
  proof
    assume "n \<noteq> 0"
    then obtain m where "n = Suc m" by (cases n) auto
    then show "words_val (arith_uint256_shr dv 1) = D * 2 ^ (n - 1)" using dv Suc.prems by (simp add: words_val_shr)
  qed
  have r2: "2 ^ n dvd words_val r" using Suc.prems by (meson dvd_trans le_imp_power_dvd lessI less_imp_le)
  show ?case
  proof (cases "words_val dv \<le> words_val num")
    case True
    have cmp: "arith_uint256_compare num dv \<ge> 0" using True Suc.prems by (simp add: compare_spec)
    let ?num = "arith_uint256_sub num dv" and ?r = "r[n div 32 := r ! (n div 32) OR push_bit (n mod 32) 1]"
    have vn: "words_val ?num = words_val num - D * 2 ^ n" using True Suc.prems dv by (simp add: words_val_sub)
    have vr: "words_val ?r = words_val r + 2 ^ n" by (rule words_val_set_bit) (use Suc.prems in simp_all)
    have IH: "length (div_loop n ?num (arith_uint256_shr dv 1) ?r) = 8 \<and> words_val (div_loop n ?num (arith_uint256_shr dv 1) ?r) = words_val ?r + words_val ?num div D"
      by (rule Suc.IH) (use Suc.prems dv dv' vn vr r2 True in simp_all)
    have "words_val num div D = 2 ^ n + (words_val num - D * 2 ^ n) div D"
    proof -
      have "words_val num = (words_val num - D * 2 ^ n) + D * 2 ^ n" using True dv by simp
      then have "words_val num div D = ((words_val num - D * 2 ^ n) + D * 2 ^ n) div D" by (rule arg_cong)
      also have "\<dots> = 2 ^ n + (words_val num - D * 2 ^ n) div D" using Suc.prems(5) by simp
      finally show ?thesis .
    qed
    with IH cmp vn vr show ?thesis by simp
  next
    case False
    have cmp: "\<not> arith_uint256_compare num dv \<ge> 0" using False Suc.prems by (simp add: compare_spec)
    have "length (div_loop n num (arith_uint256_shr dv 1) r) = 8 \<and> words_val (div_loop n num (arith_uint256_shr dv 1) r) = words_val r + words_val num div D"
      by (rule Suc.IH) (use Suc.prems dv dv' r2 False in simp_all)
    with cmp show ?thesis by simp
  qed
qed

lemma bits_spec:
  assumes "length a = 8"
  shows "words_val a < 2 ^ arith_uint256_bits a"
    and "words_val a \<noteq> 0 \<Longrightarrow> 2 ^ (arith_uint256_bits a - 1) \<le> words_val a"
    and "arith_uint256_bits a = 0 \<longleftrightarrow> words_val a = 0" and "arith_uint256_bits a \<le> 256"
  using bits_loop_spec [of 8 a] assms by (auto simp: arith_uint256_bits_def)

lemma div_correct:
  assumes "length a = 8" "length b = 8"
  shows "length (arith_uint256_div a b) = 8 \<and> words_val (arith_uint256_div a b) = words_val a div words_val b"
proof -
  let ?m = "arith_uint256_bits a" and ?n = "arith_uint256_bits b"
  note A = bits_spec [OF assms(1)] and B = bits_spec [OF assms(2)]
  show ?thesis
  proof (cases "?n = 0 \<or> ?m < ?n")
    case True
    then have "words_val a div words_val b = 0"
    proof
      assume "?m < ?n"
      then have "words_val b \<noteq> 0" using B(3) by simp
      have "words_val a < 2 ^ ?m" by (rule A)
      also have "\<dots> \<le> 2 ^ (?n - 1)" using \<open>?m < ?n\<close> by (intro power_increasing) auto
      also have "\<dots> \<le> words_val b" by (rule B(2)) fact
      finally show ?thesis by simp
    qed (simp add: B(3))
    with True show ?thesis by (auto simp: arith_uint256_div_def Let_def)
  next
    case False
    define s where "s = ?m - ?n"
    have m: "?m = ?n + s" using False by (simp add: s_def)
    have D: "0 < words_val b" using False B(3) by simp
    have "words_val b * 2 ^ s < 2 ^ ?n * 2 ^ s" using B(1) by simp
    also have "\<dots> = 2 ^ ?m" by (simp add: m power_add)
    also have "\<dots> \<le> 2 ^ 256" using A(4) by (intro power_increasing) auto
    finally have shl: "words_val (arith_uint256_shl b s) = words_val b * 2 ^ s" using assms by (simp add: words_val_shl)
    have "words_val a < 2 ^ ?m" by (rule A)
    also have "\<dots> = 2 ^ (?n - 1) * 2 ^ Suc s" using False unfolding m by (simp add: power_add [symmetric] del: power_Suc)
    also have "\<dots> \<le> words_val b * 2 ^ Suc s" using B(2) D by (intro mult_le_mono1) simp
    finally have lt: "words_val a < words_val b * 2 ^ Suc s" .
    have s: "Suc s \<le> 256" using False A(4) m by linarith
    have "length (div_loop (Suc s) a (arith_uint256_shl b s) (replicate 8 0)) = 8 \<and>
      words_val (div_loop (Suc s) a (arith_uint256_shl b s) (replicate 8 0)) = words_val (replicate 8 (0::u32)) + words_val a div words_val b"
      by (rule div_loop_spec) (use assms D lt s shl in simp_all)
    with False show ?thesis by (simp add: arith_uint256_div_def Let_def s_def)
  qed
qed

section \<open>Conversion from and to the 32-byte blob\<close>

lemma bit_ReadLE32:
  assumes "q < 32"
  shows "bit (ReadLE32 p) q \<longleftrightarrow> bit (p ! (q div 8)) (q mod 8)"
proof -
  obtain k r where q: "q = 8 * k + r" "r < 8" "q div 8 = k" "q mod 8 = r" by (rule byte_split)
  then have "k < 4" using assms by linarith
  then consider "k = 0" | "k = 1" | "k = 2" | "k = 3" by linarith
  then show ?thesis unfolding q(3,4)
    by cases (use q(1,2) in \<open>simp_all add: ReadLE32_def bit_simps u8_bit_ge\<close>)
qed

lemma length_uint256_to_arith [simp]: "length (uint256_to_arith u) = 8"
  by (simp add: uint256_to_arith_def)

lemma length_arith_to_uint256 [simp]: "length (arith_to_uint256 a) = 32"
  by (simp add: arith_to_uint256_def WriteLE32_def upt_rec)

lemma words_val_uint256_to_arith:
  assumes "length u = 32"
  shows "words_val (uint256_to_arith u) = words_val u"
proof (rule bit_eqI)
  fix p :: nat
  have "p = p mod 32 + p div 32 * 4 * 8" by simp
  then have "p div 8 = (p mod 32 + p div 32 * 4 * 8) div 8" by (rule arg_cong)
  also have "\<dots> = p div 32 * 4 + p mod 32 div 8" by (rule div_mult_self1) simp
  finally have dm: "p div 32 * 4 + p mod 32 div 8 = p div 8" by simp
  have mm: "p mod 32 mod 8 = p mod 8" by (rule mod_mod_cancel) simp
  have l: "length (uint256_to_arith u) = 8" by (simp add: uint256_to_arith_def)
  show "bit (words_val (uint256_to_arith u)) p \<longleftrightarrow> bit (words_val u) p"
  proof (cases "p < 256")
    case True
    then have "p div 32 < 8" by (simp add: less_mult_imp_div_less)
    then have "uint256_to_arith u ! (p div 32) = ReadLE32 (drop (p div 32 * 4) u)"
      by (simp add: uint256_to_arith_def)
    moreover have "drop (p div 32 * 4) u ! (p mod 32 div 8) = u ! (p div 8)"
    proof -
      have "p div 32 * 4 \<le> length u" using \<open>p div 32 < 8\<close> assms by linarith
      then show ?thesis using nth_drop [of "p div 32 * 4" u "p mod 32 div 8"] by (simp only: dm)
    qed
    moreover have "bit (ReadLE32 v) (p mod 32) \<longleftrightarrow> bit (v ! (p mod 32 div 8)) (p mod 8)" for v
      using bit_ReadLE32 [of "p mod 32" v] by (simp only: mm mod_less_divisor zero_less_numeral)
    ultimately show ?thesis using True assms l by (simp add: bit_words_val)
  next
    case False
    then show ?thesis using assms l by (simp add: bit_words_val)
  qed
qed

lemma ReadLE32_WriteLE32: "ReadLE32 (WriteLE32 v @ xs) = v"
proof (rule bit_word_eqI)
  fix q assume "q < LENGTH(32)"
  then have l: "q < 32" by simp
  obtain k r where q: "q = 8 * k + r" "r < 8" "q div 8 = k" "q mod 8 = r" by (rule byte_split)
  then have "k < 4" using l by linarith
  then consider "k = 0" | "k = 1" | "k = 2" | "k = 3" by linarith
  then show "bit (ReadLE32 (WriteLE32 v @ xs)) q \<longleftrightarrow> bit v q"
    unfolding bit_ReadLE32 [OF l] q(3,4)
    by cases (use q(1,2) in \<open>simp_all add: WriteLE32_def bit_simps add.commute\<close>)
qed

lemma uint256_to_arith_to_uint256:
  assumes "length a = 8"
  shows "uint256_to_arith (arith_to_uint256 a) = a"
proof (rule nth_equalityI)
  fix i assume "i < length (uint256_to_arith (arith_to_uint256 a))"
  then have i: "i < 8" by simp
  have "drop (i * 4) (arith_to_uint256 a) = concat (map (\<lambda>x. WriteLE32 (a ! x)) [i..<8])"
  proof -
    have "arith_to_uint256 a = concat (map (\<lambda>x. WriteLE32 (a ! x)) [0..<i]) @ concat (map (\<lambda>x. WriteLE32 (a ! x)) [i..<8])"
      using i upt_add_eq_append [of 0 i "8 - i"] by (simp add: arith_to_uint256_def)
    moreover have "length (concat (map (\<lambda>x. WriteLE32 (a ! x)) [0..<i])) = i * 4"
      by (induction i) (simp_all add: WriteLE32_def)
    ultimately show ?thesis by simp
  qed
  also have "\<dots> = WriteLE32 (a ! i) @ concat (map (\<lambda>x. WriteLE32 (a ! x)) [Suc i..<8])"
    using i by (simp add: upt_conv_Cons)
  finally show "uint256_to_arith (arith_to_uint256 a) ! i = a ! i"
    using i by (simp add: uint256_to_arith_def ReadLE32_WriteLE32)
qed (simp add: assms)

lemma words_val_arith_to_uint256:
  assumes "length a = 8"
  shows "words_val (arith_to_uint256 a) = words_val a"
  using words_val_uint256_to_arith [of "arith_to_uint256 a"] assms by (simp add: uint256_to_arith_to_uint256)

section \<open>Properties\<close>

text \<open>
  C24: shift-and-subtract division computes the exact quotient of the two 256-bit numbers, and zero
  for a zero divisor.
\<close>

theorem div_exact:
  assumes "length a = 8" "length b = 8"
  shows "length (arith_uint256_div a b) = 8 \<and> words_val (arith_uint256_div a b) = words_val a div words_val b"
  using assms by (rule div_correct)

theorem div_exact_witness:
  "length (arith_uint256_div (replicate 8 7) (3 # replicate 7 0)) = 8 \<and>
   words_val (arith_uint256_div (replicate 8 7) (3 # replicate 7 0)) =
     words_val (replicate 8 (7::u32)) div words_val (3 # replicate 7 (0::u32))"
  by (rule div_exact) simp_all

text \<open>
  C25: addition, multiplication, multiplication by a 32-bit word and left shift compute modulo
  \<open>2 ^ 256\<close>, right shift divides exactly, and comparison orders the numbers.
\<close>

theorem limb_arithmetic_correct:
  assumes "length a = 8" "length b = 8"
  shows "words_val (arith_uint256_add a b) = (words_val a + words_val b) mod 2 ^ 256 \<and>
    words_val (arith_uint256_mul a b) = (words_val a * words_val b) mod 2 ^ 256 \<and>
    words_val (arith_uint256_mul_u32 a w) = (words_val a * unat w) mod 2 ^ 256 \<and>
    words_val (arith_uint256_shl a n) = (words_val a * 2 ^ n) mod 2 ^ 256 \<and>
    words_val (arith_uint256_shr a n) = words_val a div 2 ^ n \<and>
    arith_uint256_compare a b = (if words_val a < words_val b then -1 else if words_val b < words_val a then 1 else 0)"
  using assms
  by (simp only: words_val_add words_val_mul words_val_mul_u32 words_val_shl words_val_shr compare_spec simp_thms)

theorem limb_arithmetic_correct_witness:
  "words_val (arith_uint256_add (replicate 8 0xffffffff) (1 # replicate 7 0)) =
     (words_val (replicate 8 (0xffffffff::u32)) + words_val (1 # replicate 7 (0::u32))) mod 2 ^ 256"
  by (rule conjunct1 [OF limb_arithmetic_correct [where w = 0 and n = 0]]) simp_all

end
