(* ===== verification/Uint256_Spec.thy ===== *)
theory Uint256_Spec
  imports Zcl_Prelude
begin

text \<open>
  The contract of 256-bit unsigned arithmetic that the proof-of-work code relies on: each
  operation is described by the number it computes. What the difficulty formulas need is proved
  here once, from the contract alone; \<^verbatim>\<open>Compact_Target\<close> interprets the contract on the limb
  routines.
\<close>

lemma div_complement:
  fixes t N :: nat
  assumes "0 < t" "t < N"
  shows "((N - 1 - t) div (t + 1)) + 1 = N div (t + 1)"
proof -
  have "N = (N - 1 - t) + (t + 1)" using assms by simp
  then have "N div (t + 1) = ((N - 1 - t) + (t + 1)) div (t + 1)" by simp
  also have "\<dots> = (N - 1 - t) div (t + 1) + 1" by (subst div_add_self2) simp_all
  finally show ?thesis by simp
qed

locale uint256_arith =
  fixes wf :: "'a \<Rightarrow> bool" and val :: "'a \<Rightarrow> nat"
    and of_u64 :: "u64 \<Rightarrow> 'a"
    and add :: "'a \<Rightarrow> 'a \<Rightarrow> 'a" and sub :: "'a \<Rightarrow> 'a \<Rightarrow> 'a"
    and mul :: "'a \<Rightarrow> 'a \<Rightarrow> 'a" and divide :: "'a \<Rightarrow> 'a \<Rightarrow> 'a"
    and complement :: "'a \<Rightarrow> 'a" and cmp :: "'a \<Rightarrow> 'a \<Rightarrow> int"
  assumes val_less: "wf a \<Longrightarrow> val a < 2 ^ 256"
    and wf_of_u64: "wf (of_u64 n)" and val_of_u64: "val (of_u64 n) = unat n"
    and wf_add: "wf a \<Longrightarrow> wf b \<Longrightarrow> wf (add a b)"
    and val_add: "wf a \<Longrightarrow> wf b \<Longrightarrow> val (add a b) = (val a + val b) mod 2 ^ 256"
    and wf_sub: "wf a \<Longrightarrow> wf b \<Longrightarrow> wf (sub a b)"
    and val_sub: "wf a \<Longrightarrow> wf b \<Longrightarrow> val b \<le> val a \<Longrightarrow> val (sub a b) = val a - val b"
    and wf_mul: "wf a \<Longrightarrow> wf b \<Longrightarrow> wf (mul a b)"
    and val_mul: "wf a \<Longrightarrow> wf b \<Longrightarrow> val (mul a b) = (val a * val b) mod 2 ^ 256"
    and wf_div: "wf a \<Longrightarrow> wf b \<Longrightarrow> wf (divide a b)"
    and val_div: "wf a \<Longrightarrow> wf b \<Longrightarrow> val (divide a b) = val a div val b"
    and wf_complement: "wf a \<Longrightarrow> wf (complement a)"
    and val_complement: "wf a \<Longrightarrow> val (complement a) = 2 ^ 256 - 1 - val a"
    and cmp_val: "wf a \<Longrightarrow> wf b \<Longrightarrow>
           cmp a b = (if val a < val b then -1 else if val b < val a then 1 else 0)"
begin

lemmas wf_ops = wf_of_u64 wf_add wf_sub wf_mul wf_div wf_complement

lemma val_add_exact: "wf a \<Longrightarrow> wf b \<Longrightarrow> val a + val b < 2 ^ 256 \<Longrightarrow> val (add a b) = val a + val b"
  by (simp only: val_add mod_less)

lemma work_of_target:
  assumes "wf t" "0 < val t"
  shows "val (add (divide (complement t) (add t (of_u64 1))) (of_u64 1)) = 2 ^ 256 div (val t + 1)"
proof -
  define N where "N = (2::nat) ^ 256"
  have tN: "val t < N" using val_less [OF assms(1)] by (simp only: N_def)
  have one: "val (of_u64 1) = 1" by (simp add: val_of_u64)
  have q: "val (divide (complement t) (add t (of_u64 1))) = (N - 1 - val t) div ((val t + 1) mod N)"
    using assms(1) by (simp only: val_div wf_ops val_complement val_add one N_def)
  have s: "(N - 1 - val t) div ((val t + 1) mod N) + 1 = N div (val t + 1)"
  proof (cases "val t + 1 = N")
    case True
    then show ?thesis using tN by simp
  next
    case False
    then have "(val t + 1) mod N = val t + 1" using tN by simp
    then show ?thesis using div_complement [OF assms(2) tN] by simp
  qed
  have "N div (val t + 1) < N" using assms(2) tN by (simp add: div_less_dividend)
  then have "(val (divide (complement t) (add t (of_u64 1))) + 1) mod N = N div (val t + 1)" using q s by simp
  moreover have "val (add (divide (complement t) (add t (of_u64 1))) (of_u64 1)) =
      (val (divide (complement t) (add t (of_u64 1))) + 1) mod N"
    using val_add [of "divide (complement t) (add t (of_u64 1))" "of_u64 1"] assms(1)
    by (simp only: wf_ops one N_def)
  ultimately show ?thesis by (simp only: N_def)
qed

lemma clamp:
  assumes "wf a" "wf b"
  shows "wf (if cmp a b > 0 then b else a)" and "val (if cmp a b > 0 then b else a) = min (val a) (val b)"
  using assms by (auto simp: cmp_val)

lemma scale:
  assumes "wf a" "val a div unat n * unat m < 2 ^ 256"
  shows "val (mul (divide a (of_u64 n)) (of_u64 m)) = val a div unat n * unat m"
  using assms(1) assms(2) by (simp only: val_mul val_div wf_ops val_of_u64 mod_less)

end

end
