(* ===== verification/Compact_Target.thy ===== *)
theory Compact_Target
  imports Arith_Uint256 Uint256_Spec
begin

text \<open>
  The compact ("nBits") encoding of difficulty targets, \<^verbatim>\<open>arith_uint256_set_compact\<close> and
  \<^verbatim>\<open>arith_uint256_get_compact\<close> of \<^verbatim>\<open>lib/core/src/arith_uint256.c\<close>. The lemmas relate both to
  the number \<open>compact_value\<close> an encoding denotes, characterise the overflow flag exactly, show that
  the assertions of the encoder cannot fail and that encoding truncates to at least 16 leading
  bits and is idempotent.
\<close>

section \<open>Model\<close>

text \<open>\<^verbatim>\<open>arith_uint256_set_compact\<close> returns the target with the negative and overflow flags.\<close>

definition arith_uint256_set_compact :: "u32 \<Rightarrow> arith_uint256 \<times> bool \<times> bool" where
  "arith_uint256_set_compact compact =
     (let size = unat (drop_bit 24 compact);
          word0 = compact AND 0x007fffff;
          word = (if size \<le> 3 then drop_bit (8 * (3 - size)) word0 else word0);
          a = (if size \<le> 3 then arith_uint256_set_u64 (ucast word)
               else arith_uint256_shl (arith_uint256_set_u64 (ucast word)) (8 * (size - 3)));
          negative = (word \<noteq> 0 \<and> compact AND 0x00800000 \<noteq> 0);
          overflow = (word \<noteq> 0 \<and>
                      (34 < size \<or> (0xff < word \<and> 33 < size) \<or> (0xffff < word \<and> 32 < size)))
      in (a, negative, overflow))"

text \<open>\<^verbatim>\<open>arith_uint256_get_compact\<close>; \<open>None\<close> is a failed assertion.\<close>

definition arith_uint256_get_compact :: "arith_uint256 \<Rightarrow> bool \<Rightarrow> u32 option" where
  "arith_uint256_get_compact a negative =
     (let size = (arith_uint256_bits a + 7) div 8;
          compact = (if size \<le> 3
                     then ucast (push_bit (8 * (3 - size)) (arith_uint256_get_low64 a))
                     else ucast (arith_uint256_get_low64 (arith_uint256_shr a (8 * (size - 3)))));
          (compact, size) = (if compact AND 0x00800000 \<noteq> 0
                             then (drop_bit 8 compact, size + 1) else (compact, size))
      in if compact AND NOT 0x007fffff \<noteq> 0 then None
         else if \<not> size < 256 then None
         else (let compact = compact OR push_bit 24 (of_nat size)
               in Some (compact OR (if negative \<and> compact AND 0x007fffff \<noteq> 0
                                    then 0x00800000 else 0))))"

text \<open>Size byte, mantissa and denoted number of a compact target.\<close>

definition compact_size_byte :: "u32 \<Rightarrow> nat" where "compact_size_byte c = unat c div 2 ^ 24"

definition compact_mantissa :: "u32 \<Rightarrow> nat" where "compact_mantissa c = unat c mod 2 ^ 23"

definition compact_word :: "u32 \<Rightarrow> nat" where
  "compact_word c = (if compact_size_byte c \<le> 3 then compact_mantissa c div 256 ^ (3 - compact_size_byte c) else compact_mantissa c)"

definition compact_value :: "u32 \<Rightarrow> nat" where
  "compact_value c = (if compact_size_byte c \<le> 3 then compact_word c
     else compact_mantissa c * 256 ^ (compact_size_byte c - 3))"

definition compact_mant0 :: "nat \<Rightarrow> nat \<Rightarrow> nat" where
  "compact_mant0 v sz = (if sz \<le> 3 then v * 256 ^ (3 - sz) else v div 256 ^ (sz - 3))"

definition compact_negative :: "u32 \<Rightarrow> bool" where
  "compact_negative c \<longleftrightarrow> compact_word c \<noteq> 0 \<and> odd (unat c div 2 ^ 23)"

text \<open>The encodings the proof-of-work code accepts as targets.\<close>

definition compact_valid :: "u32 \<Rightarrow> bool" where
  "compact_valid c \<longleftrightarrow> \<not> compact_negative c \<and> 0 < compact_value c \<and> compact_value c < 2 ^ 256"

section \<open>Decoding\<close>

lemma length_set_u64 [simp]: "length (arith_uint256_set_u64 v) = 8"
  by (simp add: arith_uint256_set_u64_def)

lemma unat_ucast_u32: "unat (ucast (v::u64) :: u32) = unat v mod 2 ^ 32"
  by (simp add: unsigned_ucast_eq take_bit_eq_mod)

lemma words_val_set_u64 [simp]: "words_val (arith_uint256_set_u64 v) = unat v"
proof -
  have hi: "unat v div 2 ^ 32 mod 2 ^ 32 = unat v div 2 ^ 32"
    by (rule mod_less, rule less_mult_imp_div_less) (use unat_u64_less [of v] in simp)
  have "words_val (arith_uint256_set_u64 v) = unat (ucast v :: u32) + 2 ^ 32 * unat (ucast (drop_bit 32 v) :: u32)"
    by (simp add: arith_uint256_set_u64_def)
  also have "\<dots> = unat v mod 2 ^ 32 + 2 ^ 32 * (unat v div 2 ^ 32)"
    by (simp only: unat_ucast_u32 unat_high32 hi)
  finally show ?thesis by (simp only: mod_mult_div_eq)
qed

lemma get_low64_spec:
  assumes "length a = 8"
  shows "unat (arith_uint256_get_low64 a) = words_val a mod 2 ^ 64"
proof -
  have "unat (arith_uint256_get_low64 a) = take_bit 64 (words_val a)"
  proof (rule bit_eqI)
    fix p :: nat
    consider "p < 32" | q where "p = q + 32" "q < 32" | "64 \<le> p"
    proof (cases "32 \<le> p \<and> p < 64")
      case True
      then have "p = (p - 32) + 32" "p - 32 < 32" by arith+
      then show ?thesis using that(2) by blast
    qed (use that(1,3) in linarith)
    then show "bit (unat (arith_uint256_get_low64 a)) p \<longleftrightarrow> bit (take_bit 64 (words_val a)) p"
    proof cases
      case 1
      then show ?thesis using assms by (simp add: arith_uint256_get_low64_def bit_simps bit_words_val)
    next
      case 2
      have "(q + 32) div 32 = 1" using 2(2) by simp
      then show ?thesis using assms 2
        by (auto simp: arith_uint256_get_low64_def bit_simps bit_words_val dest: bit_imp_le_length)
    next
      case 3
      then show ?thesis by (auto simp: bit_simps dest: bit_imp_le_length)
    qed
  qed
  then show ?thesis by (simp add: take_bit_eq_mod)
qed

lemma u32_mantissa: "unat ((c::u32) AND 0x7fffff) = unat c mod 2 ^ 23"
proof -
  have "(0x7fffff :: u32) = mask 23" by (simp add: mask_eq_exp_minus_1)
  then have "c AND 0x7fffff = take_bit 23 c" by (simp only: take_bit_eq_mask)
  then have "unat (c AND 0x7fffff) = take_bit 23 (unat c)" by (simp only: unsigned_take_bit_eq)
  then show ?thesis by (simp only: take_bit_eq_mod)
qed

lemma u32_sign_bit: "(c::u32) AND 0x800000 \<noteq> 0 \<longleftrightarrow> odd (unat c div 2 ^ 23)"
proof -
  have "(0x800000 :: u32) = 2 ^ 23" by simp
  then have "c AND 0x800000 \<noteq> 0 \<longleftrightarrow> bit c 23" by (simp only: and_exp_eq_0_iff_not_bit not_not)
  also have "\<dots> \<longleftrightarrow> bit (unat c) 23" by (simp add: bit_simps)
  finally show ?thesis by (simp only: bit_iff_odd)
qed

lemma u32_above_mantissa: "(c::u32) AND NOT 0x7fffff \<noteq> 0 \<longleftrightarrow> 2 ^ 23 \<le> unat c"
proof -
  have m: "(0x7fffff :: u32) = mask 23" by (simp add: mask_eq_exp_minus_1)
  have "c AND NOT 0x7fffff = 0 \<longleftrightarrow> take_bit 23 c = c"
    unfolding m by (auto simp: bit_eq_iff bit_simps)
  also have "\<dots> \<longleftrightarrow> take_bit 23 (unat c) = unat c"
    by (metis unsigned_take_bit_eq unsigned_word_eqI)
  also have "\<dots> \<longleftrightarrow> unat c < 2 ^ 23" by (simp only: take_bit_nat_eq_self_iff)
  finally show ?thesis by linarith
qed

lemma u32_size_byte: "unat (drop_bit 24 (c::u32)) = unat c div 2 ^ 24"
  by (rule unat_drop_bit_eq [of 24 c, unfolded drop_bit_eq_div [where 'a = nat]])

lemma unat_drop_bit_u32: "unat (drop_bit k (c::u32)) = unat c div 2 ^ k"
  by (rule unat_drop_bit_eq [of k c, unfolded drop_bit_eq_div [where 'a = nat]])

lemma unat_ucast_u64: "unat (ucast (c::u32) :: u64) = unat c"
  using unat_u32_less [of c] by (simp add: unsigned_ucast_eq take_bit_eq_mod)

lemma pow256: "(256::nat) ^ n = 2 ^ (8 * n)" by (simp add: power_mult)

lemma set_compact_unfold:
  "arith_uint256_set_compact c =
    (let size = compact_size_byte c;
         word = (if size \<le> 3 then drop_bit (8 * (3 - size)) (c AND 0x7fffff) else c AND 0x7fffff)
     in (if size \<le> 3 then arith_uint256_set_u64 (ucast word) else arith_uint256_shl (arith_uint256_set_u64 (ucast word)) (8 * (size - 3)),
         word \<noteq> 0 \<and> c AND 0x00800000 \<noteq> 0,
         word \<noteq> 0 \<and> (34 < size \<or> (0xff < word \<and> 33 < size) \<or> (0xffff < word \<and> 32 < size))))"
  by (simp add: arith_uint256_set_compact_def Let_def u32_size_byte compact_size_byte_def)

lemma compact_word_unat:
  "unat (if compact_size_byte c \<le> 3 then drop_bit (8 * (3 - compact_size_byte c)) (c AND 0x7fffff) else c AND 0x7fffff) = compact_word c"
  by (cases "compact_size_byte c \<le> 3")
    (simp_all only: if_True if_False compact_word_def compact_mantissa_def unat_drop_bit_u32 u32_mantissa pow256)

lemma compact_overflow_iff:
  fixes m :: nat
  assumes "m < 2 ^ 23" and "\<not> s \<le> 3"
  shows "m \<noteq> 0 \<and> (34 < s \<or> (0xff < m \<and> 33 < s) \<or> (0xffff < m \<and> 32 < s)) \<longleftrightarrow> 2 ^ 256 \<le> m * 256 ^ (s - 3)"
proof -
  consider "s \<le> 32" | "s = 33" | "s = 34" | "34 < s" by linarith
  then show ?thesis
  proof cases
    case 1
    have "m * 256 ^ (s - 3) < 2 ^ 23 * 256 ^ (s - 3)" using assms by simp
    also have "\<dots> \<le> 2 ^ 23 * 256 ^ 29" using 1 by (intro mult_le_mono2 power_increasing) auto
    finally have "m * 256 ^ (s - 3) < 2 ^ 256" by simp
    with 1 show ?thesis by simp
  next
    case 4
    have "(2::nat) ^ 256 = 256 ^ 32" by simp
    also have "\<dots> \<le> 256 ^ (s - 3)" using 4 by (intro power_increasing) auto
    finally have "2 ^ 256 \<le> m * 256 ^ (s - 3)" if "m \<noteq> 0" using that by (metis le_trans mult_le_mono1 mult_1 One_nat_def Suc_leI neq0_conv)
    with 4 show ?thesis by (cases "m = 0") auto
  qed (use assms in auto)
qed

lemma set_compact_val:
  assumes "arith_uint256_set_compact c = (a, neg, ovf)"
  shows "length a = 8" and "words_val a = compact_value c mod 2 ^ 256"
    and "neg \<longleftrightarrow> compact_word c \<noteq> 0 \<and> odd (unat c div 2 ^ 23)"
    and "ovf \<longleftrightarrow> 2 ^ 256 \<le> compact_value c"
proof -
  let ?s = "compact_size_byte c"
  define word where "word = (if ?s \<le> 3 then drop_bit (8 * (3 - ?s)) (c AND 0x7fffff) else c AND 0x7fffff)"
  have uw: "unat word = compact_word c" unfolding word_def by (rule compact_word_unat)
  have w0: "word = 0 \<longleftrightarrow> compact_word c = 0" by (simp add: uw [symmetric] unat_eq_0)
  have a: "a = (if ?s \<le> 3 then arith_uint256_set_u64 (ucast word) else arith_uint256_shl (arith_uint256_set_u64 (ucast word)) (8 * (?s - 3)))"
    and neg: "neg = (word \<noteq> 0 \<and> c AND 0x00800000 \<noteq> 0)"
    and ovf: "ovf = (word \<noteq> 0 \<and> (34 < ?s \<or> (0xff < word \<and> 33 < ?s) \<or> (0xffff < word \<and> 32 < ?s)))"
    using assms unfolding set_compact_unfold Let_def word_def [symmetric] by simp_all
  show "length a = 8" by (simp add: a)
  have m: "compact_mantissa c < 2 ^ 23" by (simp add: compact_mantissa_def)
  have "compact_word c \<le> compact_mantissa c" by (simp add: compact_word_def)
  then have w: "compact_word c < 2 ^ 23" using m by linarith
  show "words_val a = compact_value c mod 2 ^ 256"
  proof (cases "?s \<le> 3")
    case True
    have "compact_word c < 2 ^ 256" using w by (rule order.strict_trans) simp
    with True show ?thesis by (simp add: a unat_ucast_u64 uw compact_value_def)
  next
    case False
    then show ?thesis
      by (simp add: a words_val_shl unat_ucast_u64 uw compact_value_def compact_word_def pow256 del: numeral_pow)
  qed
  show "neg \<longleftrightarrow> compact_word c \<noteq> 0 \<and> odd (unat c div 2 ^ 23)"
    by (simp only: neg w0 u32_sign_bit)
  have gt: "(0xff < word) = (0xff < compact_word c)" "(0xffff < word) = (0xffff < compact_word c)"
    by (simp_all add: word_less_nat_alt uw)
  show "ovf \<longleftrightarrow> 2 ^ 256 \<le> compact_value c"
  proof (cases "?s \<le> 3")
    case True
    have "compact_word c < 2 ^ 256" using w by (rule order.strict_trans) simp
    with True show ?thesis by (simp add: ovf compact_value_def)
  next
    case False
    then have "compact_value c = compact_word c * 256 ^ (?s - 3)" by (simp add: compact_value_def compact_word_def)
    then show ?thesis using compact_overflow_iff [OF w False] by (simp only: ovf w0 gt)
  qed
qed

lemma is_zero_iff: "length a = 8 \<Longrightarrow> arith_uint256_is_zero a \<longleftrightarrow> words_val a = 0"
  by (auto simp: arith_uint256_is_zero_def words_val_eq_0_iff list_all_iff set_conv_nth)

lemma set_compact_usable:
  assumes "arith_uint256_set_compact c = (a, neg, ovf)"
  shows "neg \<or> ovf \<or> arith_uint256_is_zero a \<longleftrightarrow> \<not> compact_valid c"
    and "compact_valid c \<Longrightarrow> words_val a = compact_value c"
proof -
  note S = set_compact_val [OF assms]
  have small: "words_val a = compact_value c" if "\<not> 2 ^ 256 \<le> compact_value c"
    using that by (simp only: S(2) mod_less not_le)
  show "neg \<or> ovf \<or> arith_uint256_is_zero a \<longleftrightarrow> \<not> compact_valid c"
  proof (cases ovf)
    case True
    then have "\<not> compact_value c < 2 ^ 256" using S(4) by (simp only: not_less)
    then show ?thesis using True by (simp only: compact_valid_def simp_thms)
  next
    case False
    then show ?thesis using S(3,4) small
      by (auto simp only: compact_valid_def compact_negative_def is_zero_iff [OF S(1)] not_less not_le)
  qed
  show "compact_valid c \<Longrightarrow> words_val a = compact_value c"
    using small by (simp only: compact_valid_def not_le)
qed

section \<open>Encoding\<close>

lemma u32_or_size:
  assumes "unat (c::u32) < 2 ^ 23" "s < 256"
  shows "unat (c OR push_bit 24 (of_nat s)) = unat c + s * 2 ^ 24"
proof -
  have us: "unat (push_bit 24 (of_nat s) :: u32) = s * 2 ^ 24"
    using assms(2) by (simp add: push_bit_eq_mult unat_word_ariths unat_of_nat)
  have "c AND push_bit 24 (of_nat s) = 0"
  proof (rule bit_word_eqI)
    fix p assume "p < LENGTH(32)"
    have "take_bit 23 (unat c) = unat c" using assms(1) by (simp only: take_bit_nat_eq_self_iff)
    then have "bit (unat c) p \<longrightarrow> p < 23" by (metis bit_take_bit_iff)
    then have "bit c p \<longrightarrow> p < 23" by (simp add: bit_simps)
    then show "bit (c AND push_bit 24 (of_nat s)) p \<longleftrightarrow> bit 0 p" by (auto simp: bit_simps)
  qed
  then have "c OR push_bit 24 (of_nat s) = c + push_bit 24 (of_nat s)" by (simp only: disjunctive_add_eq_or)
  moreover have "unat (c + push_bit 24 (of_nat s)) = unat c + s * 2 ^ 24"
    using assms by (simp add: unat_word_ariths us)
  ultimately show ?thesis by simp
qed

lemma compact_mant0_bounds:
  assumes "v < 2 ^ n" "v \<noteq> 0 \<Longrightarrow> 2 ^ (n - 1) \<le> v" "n = 0 \<longleftrightarrow> v = 0" "sz = (n + 7) div 8"
  shows "compact_mant0 v sz < 2 ^ 24" and "v \<noteq> 0 \<Longrightarrow> 2 ^ 16 \<le> compact_mant0 v sz"
proof -
  have n: "n \<le> 8 * sz" and n': "n \<noteq> 0 \<Longrightarrow> 8 * sz - 8 \<le> n - 1" using assms(4) by arith+
  have lt: "v < 2 ^ (8 * sz)" using assms(1) n by (meson one_le_numeral order_less_le_trans power_increasing)
  have ge: "2 ^ (8 * sz - 8) \<le> v" if "v \<noteq> 0"
  proof -
    have "n \<noteq> 0" using that assms(3) by simp
    then have "(2::nat) ^ (8 * sz - 8) \<le> 2 ^ (n - 1)" using n' by (intro power_increasing) auto
    also have "\<dots> \<le> v" using assms(2) that .
    finally show ?thesis .
  qed
  show "compact_mant0 v sz < 2 ^ 24"
  proof (cases "sz \<le> 3")
    case True
    have "v * 2 ^ (8 * (3 - sz)) < 2 ^ (8 * sz) * 2 ^ (8 * (3 - sz))" using lt by simp
    also have "\<dots> = 2 ^ 24" using True by (simp add: power_add [symmetric] algebra_simps)
    finally show ?thesis using True by (simp add: compact_mant0_def pow256)
  next
    case False
    have "8 * sz = 24 + 8 * (sz - 3)" using False by simp
    then have "v < 2 ^ 24 * 2 ^ (8 * (sz - 3))" using lt by (simp add: power_add)
    then have "v div 2 ^ (8 * (sz - 3)) < 2 ^ 24" by (rule less_mult_imp_div_less)
    then show ?thesis using False by (simp add: compact_mant0_def pow256)
  qed
  assume "v \<noteq> 0"
  then have sz: "1 \<le> sz" using assms(3,4) by arith
  show "2 ^ 16 \<le> compact_mant0 v sz"
  proof (cases "sz \<le> 3")
    case True
    have "(2::nat) ^ 16 = 2 ^ (8 * sz - 8) * 2 ^ (8 * (3 - sz))" using True sz by (subst power_add [symmetric]) (rule arg_cong [where f = "power 2"], arith)
    also have "\<dots> \<le> v * 2 ^ (8 * (3 - sz))" using ge [OF \<open>v \<noteq> 0\<close>] by simp
    finally show ?thesis using True by (simp add: compact_mant0_def pow256)
  next
    case False
    have "8 * sz - 8 = 16 + 8 * (sz - 3)" using False by simp
    then have "2 ^ 16 * 2 ^ (8 * (sz - 3)) \<le> v" using ge [OF \<open>v \<noteq> 0\<close>] by (simp add: power_add)
    then have "2 ^ 16 \<le> v div 2 ^ (8 * (sz - 3))" by (simp add: less_eq_div_iff_mult_less_eq)
    then show ?thesis using False by (simp add: compact_mant0_def pow256)
  qed
qed

lemma unat_push_bit_u64: "unat (push_bit k (w::u64)) = unat w * 2 ^ k mod 2 ^ 64"
  using unsigned_push_bit_eq [of k w, where 'a = nat] by (simp only: take_bit_eq_mod push_bit_eq_mult len_num0 len_bit0 len_num1 mult_1 semiring_norm)

lemma get_compact_raw:
  assumes "length a = 8" "sz = (arith_uint256_bits a + 7) div 8"
  shows "unat (if sz \<le> 3 then ucast (push_bit (8 * (3 - sz)) (arith_uint256_get_low64 a)) :: u32
       else ucast (arith_uint256_get_low64 (arith_uint256_shr a (8 * (sz - 3))))) = compact_mant0 (words_val a) sz"
proof -
  note B = bits_spec [OF assms(1)]
  have lt: "compact_mant0 (words_val a) sz < 2 ^ 24"
    by (rule compact_mant0_bounds(1)) (use B assms(2) in auto)
  show ?thesis
  proof (cases "sz \<le> 3")
    case True
    then have e: "compact_mant0 (words_val a) sz = words_val a * 2 ^ (8 * (3 - sz))"
      by (simp only: compact_mant0_def pow256 if_True)
    have l: "words_val a < 2 ^ 24"
    proof -
      have "words_val a * 1 \<le> words_val a * 2 ^ (8 * (3 - sz))" by (intro mult_le_mono2) simp
      then show ?thesis using lt e by linarith
    qed
    have "words_val a mod 2 ^ 64 = words_val a"
      using l by (intro mod_less) (erule order.strict_trans, simp)
    then have "unat (push_bit (8 * (3 - sz)) (arith_uint256_get_low64 a)) = words_val a * 2 ^ (8 * (3 - sz)) mod 2 ^ 64"
      by (simp only: unat_push_bit_u64 get_low64_spec [OF assms(1)])
    also have "\<dots> = words_val a * 2 ^ (8 * (3 - sz))"
      using lt [unfolded e] by (intro mod_less) (erule order.strict_trans, simp)
    finally show ?thesis using True lt e by (simp add: unat_ucast_u32)
  next
    case False
    then have e: "compact_mant0 (words_val a) sz = words_val a div 2 ^ (8 * (sz - 3))"
      by (simp only: compact_mant0_def pow256 if_False)
    have "unat (arith_uint256_get_low64 (arith_uint256_shr a (8 * (sz - 3)))) = compact_mant0 (words_val a) sz mod 2 ^ 64"
      using assms(1) by (simp only: get_low64_spec length_shr words_val_shr e)
    also have "\<dots> = compact_mant0 (words_val a) sz" using lt by (intro mod_less) (erule order.strict_trans, simp)
    finally show ?thesis using False lt by (simp add: unat_ucast_u32)
  qed
qed

lemma compact_mant0_Suc: "compact_mant0 v (Suc s) = compact_mant0 v s div 256"
proof -
  consider "Suc s \<le> 3" | "s = 3" | "3 < s" by linarith
  then show ?thesis
  proof cases
    case 1
    then have "3 - s = Suc (3 - Suc s)" by simp
    with 1 show ?thesis by (simp add: compact_mant0_def)
  next
    case 3
    then have "Suc s - 3 = Suc (s - 3)" by simp
    with 3 show ?thesis by (simp add: compact_mant0_def div_mult2_eq [symmetric] mult.commute)
  qed (simp add: compact_mant0_def)
qed

lemma odd_div_iff:
  assumes "(m::nat) < 2 ^ 24"
  shows "odd (m div 2 ^ 23) \<longleftrightarrow> 2 ^ 23 \<le> m"
proof -
  have "m div 2 ^ 23 = 0 \<or> m div 2 ^ 23 = 1" using assms by auto
  then show ?thesis by auto
qed

lemma get_compact_spec:
  assumes "length a = 8"
  obtains c s where "arith_uint256_get_compact a False = Some c" "s \<le> 33"
    "unat c = compact_mant0 (words_val a) s + s * 2 ^ 24" "compact_mant0 (words_val a) s < 2 ^ 23"
    "words_val a \<noteq> 0 \<Longrightarrow> 2 ^ 15 \<le> compact_mant0 (words_val a) s"
proof -
  let ?v = "words_val a"
  define sz where "sz = (arith_uint256_bits a + 7) div 8"
  define r :: u32 where "r = (if sz \<le> 3 then ucast (push_bit (8 * (3 - sz)) (arith_uint256_get_low64 a))
       else ucast (arith_uint256_get_low64 (arith_uint256_shr a (8 * (sz - 3)))))"
  have ur: "unat r = compact_mant0 ?v sz" unfolding r_def by (rule get_compact_raw [OF assms sz_def])
  note B = bits_spec [OF assms]
  have lt: "compact_mant0 ?v sz < 2 ^ 24" and ge: "?v \<noteq> 0 \<Longrightarrow> 2 ^ 16 \<le> compact_mant0 ?v sz"
    by (rule compact_mant0_bounds; use B sz_def in auto)+
  have sz: "sz \<le> 32" using B(4) by (simp add: sz_def)
  define r' :: u32 where "r' = (if r AND 0x00800000 \<noteq> 0 then drop_bit 8 r else r)"
  define s where "s = (if r AND 0x00800000 \<noteq> 0 then Suc sz else sz)"
  have odd: "r AND 0x00800000 \<noteq> 0 \<longleftrightarrow> 2 ^ 23 \<le> unat r"
    using lt unfolding u32_sign_bit ur by (rule odd_div_iff)
  have ur': "unat r' = compact_mant0 ?v s"
  proof (cases "r AND 0x00800000 = 0")
    case True
    then show ?thesis by (simp only: r'_def s_def ur if_False not_not simp_thms)
  next
    case False
    have "unat (drop_bit 8 r) = unat r div 256" by (subst unat_drop_bit_u32) simp
    with False show ?thesis by (simp only: r'_def s_def ur compact_mant0_Suc if_True not_False_eq_True)
  qed
  have b: "compact_mant0 ?v s < 2 ^ 23" "?v \<noteq> 0 \<Longrightarrow> 2 ^ 15 \<le> compact_mant0 ?v s"
    using lt ge unfolding s_def odd ur by (auto simp: compact_mant0_Suc)
  have s: "s \<le> 33" using sz by (simp add: s_def)
  have ok: "r' AND NOT 0x007fffff = 0" using b(1) ur' u32_above_mantissa [of r'] by (metis not_le)
  have "arith_uint256_get_compact a False = Some (r' OR push_bit 24 (of_nat s))"
  proof -
    have "(if r AND 0x00800000 \<noteq> 0 then (drop_bit 8 r, sz + 1) else (r, sz)) = (r', s)"
      unfolding r'_def s_def by (auto simp only: Suc_eq_plus1 split: if_split)
    moreover have "s < 256" using s by simp
    ultimately show ?thesis using ok
      unfolding arith_uint256_get_compact_def sz_def [symmetric] Let_def [of sz] r_def [symmetric] Let_def [of r]
      by (simp only: prod.case Let_def if_False simp_thms or.right_neutral)
  qed
  moreover have "unat (r' OR push_bit 24 (of_nat s)) = compact_mant0 ?v s + s * 2 ^ 24"
    using u32_or_size [of r' s] b(1) s unfolding ur' by linarith
  ultimately show ?thesis using that b s by blast
qed

lemma compact_parts:
  assumes "unat c = m + s * 2 ^ 24" "m < 2 ^ 23"
  shows "compact_size_byte c = s" "compact_mantissa c = m" "even (unat c div 2 ^ 23)"
proof -
  have "m < 2 ^ 24" using assms(2) by simp
  then show "compact_size_byte c = s" by (simp only: compact_size_byte_def assms(1) div_mult_self3 div_less) simp
  have c: "unat c = m + (2 * s) * 2 ^ 23" using assms(1) by simp
  show "compact_mantissa c = m" unfolding compact_mantissa_def c using assms(2) by (simp only: mod_mult_self3 mod_less mod_mult_self1)
  have "unat c div 2 ^ 23 = 2 * s" using div_mult_self1 [of "2 ^ 23" m "2 * s"] assms(2) by (simp add: c)
  then show "even (unat c div 2 ^ 23)" by simp
qed

lemma compact_value_mant0:
  assumes "unat c = compact_mant0 v s + s * 2 ^ 24" "compact_mant0 v s < 2 ^ 23"
  shows "compact_value c = (if s \<le> 3 then v else v div 256 ^ (s - 3) * 256 ^ (s - 3))"
  using compact_parts [OF assms] by (simp add: compact_value_def compact_word_def compact_mant0_def)

lemma get_set_compact:
  assumes "length a = 8" "arith_uint256_get_compact a False = Some c"
    "arith_uint256_set_compact c = (a', neg, ovf)"
  shows "\<not> neg" "\<not> ovf" "words_val a' \<le> words_val a"
    "(words_val a - words_val a') * 2 ^ 15 \<le> words_val a'"
proof -
  let ?v = "words_val a"
  obtain s where u: "unat c = compact_mant0 ?v s + s * 2 ^ 24" and lt: "compact_mant0 ?v s < 2 ^ 23"
    and ge: "?v \<noteq> 0 \<Longrightarrow> 2 ^ 15 \<le> compact_mant0 ?v s"
    by (rule get_compact_spec [OF assms(1)]) (use assms(2) in auto)
  note C = set_compact_val [OF assms(3)] and V = compact_value_mant0 [OF u lt]
  have le: "compact_value c \<le> ?v" by (simp add: V)
  have "?v < lim 8" using words_val_less [of a] assms(1) by simp
  then have "?v < 2 ^ 256" by simp
  with le have vlt: "compact_value c < 2 ^ 256" by (rule order_le_less_trans)
  then have a': "words_val a' = compact_value c" by (simp only: C(2) mod_less)
  show "\<not> neg" using compact_parts(3) [OF u lt] by (simp add: C(3))
  show "\<not> ovf" using vlt by (simp only: C(4) not_le)
  show "words_val a' \<le> ?v" using le by (simp only: a')
  show "(?v - words_val a') * 2 ^ 15 \<le> words_val a'"
  proof (cases "s \<le> 3 \<or> ?v = 0")
    case True
    then show ?thesis by (auto simp: a' V)
  next
    case False
    define P where "P = (256::nat) ^ (s - 3)"
    have m: "compact_mant0 ?v s = ?v div P" using False by (simp add: compact_mant0_def P_def)
    have v': "words_val a' = ?v div P * P" using False by (simp add: a' V P_def)
    have "?v - words_val a' = ?v mod P" by (simp only: v' minus_div_mult_eq_mod)
    also have "\<dots> \<le> P" by (simp add: P_def mod_le_divisor)
    finally have "(?v - words_val a') * 2 ^ 15 \<le> P * 2 ^ 15" by (rule mult_le_mono1)
    also have "\<dots> \<le> P * (?v div P)" using ge False m by (intro mult_le_mono2) simp
    finally show ?thesis by (simp only: v' mult.commute)
  qed
qed

lemma compact_mant0_antimono: "s \<le> s' \<Longrightarrow> compact_mant0 v s' \<le> compact_mant0 v s"
  by (induction s' rule: dec_induct) (auto simp: compact_mant0_Suc intro: order_trans [OF div_le_dividend])

lemma compact_mant0_unique:
  assumes "2 ^ 15 \<le> compact_mant0 v s" "compact_mant0 v s < 2 ^ 23" "2 ^ 15 \<le> compact_mant0 v s'" "compact_mant0 v s' < 2 ^ 23"
  shows "s = s'"
proof -
  have *: "\<not> i < j" if "compact_mant0 v i < 2 ^ 23" "2 ^ 15 \<le> compact_mant0 v j" for i j
  proof
    assume "i < j"
    then have "compact_mant0 v j \<le> compact_mant0 v i div 256"
      using compact_mant0_antimono [of "Suc i" j v] by (simp add: compact_mant0_Suc)
    with that show False by simp
  qed
  show ?thesis using * [of s s'] * [of s' s] assms by (meson linorder_neqE_nat)
qed

lemma get_set_compact_idem:
  assumes "length a = 8" "arith_uint256_get_compact a False = Some c"
    "arith_uint256_set_compact c = (a', neg, ovf)"
  shows "arith_uint256_get_compact a' False = Some c"
proof -
  let ?v = "words_val a" and ?v' = "words_val a'"
  have l': "length a' = 8" by (rule set_compact_val [OF assms(3)])
  note G = get_set_compact [OF assms]
  show ?thesis
  proof (cases "?v = 0")
    case True
    then have "a' = a" using G(3) l' assms(1) by (intro words_val_inject [THEN iffD1]) simp_all
    then show ?thesis using assms(2) by simp
  next
    case False
    obtain s where u: "unat c = compact_mant0 ?v s + s * 2 ^ 24" and lt: "compact_mant0 ?v s < 2 ^ 23"
      and ge: "2 ^ 15 \<le> compact_mant0 ?v s"
      by (rule get_compact_spec [OF assms(1)]) (use assms(2) False in auto)
    have "words_val a' = compact_value c mod 2 ^ 256" "\<not> 2 ^ 256 \<le> compact_value c"
      using set_compact_val(2,4) [OF assms(3)] G(2) by simp_all
    then have v': "?v' = compact_value c" by simp
    then have same: "compact_mant0 ?v' s = compact_mant0 ?v s"
      by (simp add: compact_value_mant0 [OF u lt] compact_mant0_def)
    have v0: "?v' \<noteq> 0"
    proof
      assume "?v' = 0"
      then have "compact_mant0 ?v s = 0" unfolding same [symmetric] by (simp add: compact_mant0_def)
      with ge show False by simp
    qed
    obtain c' s' where c': "arith_uint256_get_compact a' False = Some c'"
      and u': "unat c' = compact_mant0 ?v' s' + s' * 2 ^ 24" and lt': "compact_mant0 ?v' s' < 2 ^ 23"
      and ge': "2 ^ 15 \<le> compact_mant0 ?v' s'"
      by (rule get_compact_spec [OF l']) (use v0 in auto)
    have "s' = s" by (rule compact_mant0_unique [OF ge' lt']) (use ge lt same in simp_all)
    then have "unat c' = unat c" using u u' same by simp
    then have "c' = c" by (rule unsigned_word_eqI)
    then show ?thesis using c' by simp
  qed
qed

section \<open>The limb routines meet the contract\<close>

lemma length_add [simp]: "length a = 8 \<Longrightarrow> length b = 8 \<Longrightarrow> length (arith_uint256_add a b) = 8"
  by (simp add: arith_uint256_add_def)

interpretation limbs: uint256_arith "\<lambda>a. length a = 8" words_val arith_uint256_set_u64
  arith_uint256_add arith_uint256_sub arith_uint256_mul arith_uint256_div
  arith_uint256_complement arith_uint256_compare
proof (unfold_locales, goal_cases)
  case (1 a)
  then show ?case using words_val_less [of a] by simp
next
  case (12 a)
  then show ?case by (simp add: arith_uint256_complement_def)
next
  case (13 a)
  then show ?case using words_val_complement [of a] by (simp add: arith_uint256_complement_def)
qed (simp_all add: words_val_add words_val_sub words_val_mul div_correct compare_spec)

section \<open>Properties\<close>

text \<open>
  C22: decoding a compact target yields the number it denotes modulo \<open>2 ^ 256\<close>, raises the overflow
  flag exactly when that number does not fit in 256 bits and the negative flag exactly when the
  sign bit of a non-zero mantissa is set.
\<close>

theorem set_compact_correct:
  "case arith_uint256_set_compact c of (a, neg, ovf) \<Rightarrow>
     length a = 8 \<and> words_val a = compact_value c mod 2 ^ 256 \<and>
     (ovf \<longleftrightarrow> 2 ^ 256 \<le> compact_value c) \<and> (neg \<longleftrightarrow> compact_negative c)"
proof -
  obtain a neg ovf where s: "arith_uint256_set_compact c = (a, neg, ovf)" by (metis prod_cases3)
  note S = set_compact_val [OF s]
  then show ?thesis unfolding s prod.case compact_negative_def by (intro conjI S)
qed

text \<open>
  C23: encoding never fails one of its assertions; decoding the encoding raises no flag, never
  rounds up, loses at most one part in \<open>2 ^ 15\<close>, and encodes to the same bits again.
\<close>

theorem get_compact_roundtrip:
  assumes "length a = 8"
  shows "\<exists>c a'. arith_uint256_get_compact a False = Some c \<and> arith_uint256_set_compact c = (a', False, False) \<and>
           words_val a' \<le> words_val a \<and> (words_val a - words_val a') * 2 ^ 15 \<le> words_val a' \<and>
           arith_uint256_get_compact a' False = Some c"
proof -
  obtain c where c: "arith_uint256_get_compact a False = Some c" using get_compact_spec [OF assms] by metis
  obtain a' neg ovf where s: "arith_uint256_set_compact c = (a', neg, ovf)" by (metis prod_cases3)
  show ?thesis
    using c s get_set_compact [OF assms c s] get_set_compact_idem [OF assms c s] by (intro exI [of _ c] exI [of _ a']) simp
qed

theorem get_compact_roundtrip_witness:
  "\<exists>c a'. arith_uint256_get_compact (arith_uint256_set_u64 0x123456789abcdef0) False = Some c \<and>
      arith_uint256_set_compact c = (a', False, False) \<and>
      words_val a' \<le> words_val (arith_uint256_set_u64 0x123456789abcdef0) \<and>
      (words_val (arith_uint256_set_u64 0x123456789abcdef0) - words_val a') * 2 ^ 15 \<le> words_val a' \<and>
      arith_uint256_get_compact a' False = Some c"
  by (rule get_compact_roundtrip) simp

end
