(* ===== verification/Params.thy ===== *)
theory Params
  imports Zcl_Prelude
begin

text \<open>
  Consensus parameters and the network-upgrade schedule: \<^verbatim>\<open>lib/consensus/params.{h,c}\<close>,
  \<^verbatim>\<open>lib/consensus/upgrades.{h,c}\<close>, the mainnet values of \<^verbatim>\<open>lib/chain/src/chainparams.c\<close> and the
  schedule arithmetic of \<^verbatim>\<open>domain/consensus/src/upgrades.c\<close>.

  A pointer argument that the code tests for NULL is an option, an out-pointer is a flag telling
  whether it is non-NULL, and a \<^verbatim>\<open>zcl_result\<close> is a sum whose left part is the error code.
\<close>

section \<open>Model\<close>

record network_upgrade =
  nProtocolVersion :: int
  nActivationHeight :: int

record consensus_params =
  hashGenesisBlock :: bytes
  fCoinbaseMustBeProtected :: bool
  nSubsidySlowStartInterval :: int
  nPreButtercupSubsidyHalvingInterval :: int
  nPostButtercupSubsidyHalvingInterval :: int
  nMajorityEnforceBlockUpgrade :: int
  nMajorityRejectBlockOutdated :: int
  nMajorityWindow :: int
  vUpgrades :: "network_upgrade list"
  powLimit :: bytes
  nPowAllowMinDifficultyBlocksAfterHeight :: int
  nPowAllowMinDifficultyEnabled :: bool
  scaleDifficultyAtUpgradeFork :: bool
  nPowAveragingWindow :: int
  nPowMaxAdjustDown :: int
  nPowMaxAdjustUp :: int
  nPreButtercupPowTargetSpacing :: int
  nPostButtercupPowTargetSpacing :: int
  nMinimumChainWork :: bytes

abbreviation (input) BASE_SPROUT :: int where "BASE_SPROUT \<equiv> 0"
abbreviation (input) UPGRADE_TESTDUMMY :: int where "UPGRADE_TESTDUMMY \<equiv> 1"
abbreviation (input) UPGRADE_OVERWINTER :: int where "UPGRADE_OVERWINTER \<equiv> 2"
abbreviation (input) UPGRADE_SAPLING :: int where "UPGRADE_SAPLING \<equiv> 3"
abbreviation (input) UPGRADE_BUBBLES :: int where "UPGRADE_BUBBLES \<equiv> 4"
abbreviation (input) UPGRADE_DIFFADJ :: int where "UPGRADE_DIFFADJ \<equiv> 5"
abbreviation (input) UPGRADE_BUTTERCUP :: int where "UPGRADE_BUTTERCUP \<equiv> 6"
abbreviation (input) MAX_NETWORK_UPGRADES :: int where "MAX_NETWORK_UPGRADES \<equiv> 7"
abbreviation (input) NETWORK_UPGRADE_NO_ACTIVATION :: int where "NETWORK_UPGRADE_NO_ACTIVATION \<equiv> -1"

abbreviation (input) BUTTERCUP_POW_TARGET_SPACING_RATIO :: int where
  "BUTTERCUP_POW_TARGET_SPACING_RATIO \<equiv> 2"

datatype upgrade_state = UPGRADE_DISABLED | UPGRADE_PENDING | UPGRADE_ACTIVE

datatype upgrades_err = UPG_NULL_PARAMS | UPG_NULL_OUT | UPG_NEG_HEIGHT | UPG_BAD_IDX | UPG_NO_PENDING

text \<open>The branch ids of \<^verbatim>\<open>NetworkUpgradeInfo\<close> and the parameters of \<^verbatim>\<open>EquihashUpgradeInfo\<close>.\<close>

definition NetworkUpgradeInfo :: "u32 list" where
  "NetworkUpgradeInfo =
     [0, 0x74736554, 0x5ba81b19, 0x76b809bb, 0x821a451c, 0x930b540d, 0x930b540d]"

definition EquihashUpgradeInfo :: "(nat \<times> nat) list" where
  "EquihashUpgradeInfo = [(0, 0), (0, 0), (0, 0), (0, 0), (192, 7), (192, 7), (192, 7)]"

definition activation_height :: "consensus_params \<Rightarrow> int \<Rightarrow> int" where
  "activation_height p idx = nActivationHeight (vUpgrades p ! nat idx)"

text \<open>A \<^verbatim>\<open>consensus_params\<close> value always carries one row per upgrade.\<close>

definition params_wf :: "consensus_params \<Rightarrow> bool" where
  "params_wf p \<longleftrightarrow> length (vUpgrades p) = 7 \<and> length (powLimit p) = 32"

definition dcu_idx_valid :: "int \<Rightarrow> bool" where
  "dcu_idx_valid idx \<longleftrightarrow> BASE_SPROUT \<le> idx \<and> idx < MAX_NETWORK_UPGRADES"

definition dcu_is_active :: "int \<Rightarrow> consensus_params \<Rightarrow> int \<Rightarrow> bool" where
  "dcu_is_active n_height params idx =
     (let activation = activation_height params idx
      in if activation = NETWORK_UPGRADE_NO_ACTIVATION then False else activation \<le> n_height)"

definition domain_consensus_upgrade_state ::
  "int \<Rightarrow> consensus_params option \<Rightarrow> int \<Rightarrow> bool \<Rightarrow> upgrades_err + upgrade_state" where
  "domain_consensus_upgrade_state n_height params idx out =
     (case params of
        None \<Rightarrow> Inl UPG_NULL_PARAMS
      | Some p \<Rightarrow>
          if \<not> out then Inl UPG_NULL_OUT
          else if n_height < 0 then Inl UPG_NEG_HEIGHT
          else if \<not> dcu_idx_valid idx then Inl UPG_BAD_IDX
          else (let activation = activation_height p idx
                in if activation = NETWORK_UPGRADE_NO_ACTIVATION then Inr UPGRADE_DISABLED
                   else if activation \<le> n_height then Inr UPGRADE_ACTIVE
                   else Inr UPGRADE_PENDING))"

text \<open>The scan of \<^verbatim>\<open>current_epoch\<close> from the last upgrade down; the argument is the number of
  indices still to visit.\<close>

fun current_epoch_loop :: "int \<Rightarrow> consensus_params \<Rightarrow> nat \<Rightarrow> int" where
  "current_epoch_loop n_height p 0 = BASE_SPROUT"
| "current_epoch_loop n_height p (Suc i) =
     (if dcu_is_active n_height p (int i) then int i else current_epoch_loop n_height p i)"

definition domain_consensus_current_epoch ::
  "int \<Rightarrow> consensus_params option \<Rightarrow> bool \<Rightarrow> upgrades_err + int" where
  "domain_consensus_current_epoch n_height params out =
     (case params of
        None \<Rightarrow> Inl UPG_NULL_PARAMS
      | Some p \<Rightarrow>
          if \<not> out then Inl UPG_NULL_OUT
          else if n_height < 0 then Inl UPG_NEG_HEIGHT
          else Inr (current_epoch_loop n_height p (nat MAX_NETWORK_UPGRADES)))"

definition domain_consensus_current_epoch_branch_id ::
  "int \<Rightarrow> consensus_params option \<Rightarrow> bool \<Rightarrow> upgrades_err + u32" where
  "domain_consensus_current_epoch_branch_id n_height params out =
     (case params of
        None \<Rightarrow> Inl UPG_NULL_PARAMS
      | Some p \<Rightarrow>
          if \<not> out then Inl UPG_NULL_OUT
          else if n_height < 0 then Inl UPG_NEG_HEIGHT
          else (case domain_consensus_current_epoch n_height params True of
                  Inl e \<Rightarrow> Inl e
                | Inr epoch \<Rightarrow> Inr (NetworkUpgradeInfo ! nat epoch)))"

definition domain_consensus_is_branch_id :: "u32 \<Rightarrow> bool \<Rightarrow> upgrades_err + bool" where
  "domain_consensus_is_branch_id branch_id out =
     (if \<not> out then Inl UPG_NULL_OUT
      else Inr (list_ex (\<lambda>i. branch_id = NetworkUpgradeInfo ! i) [0..<7]))"

definition domain_consensus_is_activation_height ::
  "int \<Rightarrow> consensus_params option \<Rightarrow> int \<Rightarrow> bool \<Rightarrow> upgrades_err + bool" where
  "domain_consensus_is_activation_height n_height params idx out =
     (case params of
        None \<Rightarrow> Inl UPG_NULL_PARAMS
      | Some p \<Rightarrow>
          if \<not> out then Inl UPG_NULL_OUT
          else if \<not> dcu_idx_valid idx then Inl UPG_BAD_IDX
          else if idx = BASE_SPROUT then Inr False
          else Inr (0 \<le> n_height \<and> n_height = activation_height p idx))"

definition domain_consensus_is_activation_height_any ::
  "int \<Rightarrow> consensus_params option \<Rightarrow> bool \<Rightarrow> upgrades_err + bool" where
  "domain_consensus_is_activation_height_any n_height params out =
     (case params of
        None \<Rightarrow> Inl UPG_NULL_PARAMS
      | Some p \<Rightarrow>
          if \<not> out then Inl UPG_NULL_OUT
          else if n_height < 0 then Inl UPG_NEG_HEIGHT
          else Inr (list_ex (\<lambda>i. n_height = activation_height p (int i)) [1..<7]))"

text \<open>The scan of \<^verbatim>\<open>next_epoch\<close> over the indices that are left.\<close>

fun next_epoch_loop :: "int \<Rightarrow> consensus_params \<Rightarrow> int list \<Rightarrow> upgrades_err + int" where
  "next_epoch_loop n_height p [] = Inl UPG_NO_PENDING"
| "next_epoch_loop n_height p (i # is) =
     (let activation = activation_height p i
      in if activation \<noteq> NETWORK_UPGRADE_NO_ACTIVATION \<and> n_height < activation then Inr i
         else next_epoch_loop n_height p is)"

definition domain_consensus_next_epoch ::
  "int \<Rightarrow> consensus_params option \<Rightarrow> bool \<Rightarrow> upgrades_err + int" where
  "domain_consensus_next_epoch n_height params out =
     (case params of
        None \<Rightarrow> Inl UPG_NULL_PARAMS
      | Some p \<Rightarrow>
          if \<not> out then Inl UPG_NULL_OUT
          else if n_height < 0 then Inl UPG_NEG_HEIGHT
          else next_epoch_loop n_height p [1, 2, 3, 4, 5, 6])"

definition domain_consensus_next_activation_height ::
  "int \<Rightarrow> consensus_params option \<Rightarrow> bool \<Rightarrow> upgrades_err + int" where
  "domain_consensus_next_activation_height n_height params out =
     (case params of
        None \<Rightarrow> Inl UPG_NULL_PARAMS
      | Some p \<Rightarrow>
          if \<not> out then Inl UPG_NULL_OUT
          else if n_height < 0 then Inl UPG_NEG_HEIGHT
          else (case domain_consensus_next_epoch n_height params True of
                  Inl e \<Rightarrow> Inl e
                | Inr idx \<Rightarrow> Inr (activation_height p idx)))"

subsection \<open>The wrappers of \<^verbatim>\<open>lib/consensus\<close>\<close>

text \<open>\<open>None\<close> is a failed assertion.\<close>

definition consensus_upgrade_state :: "int \<Rightarrow> consensus_params \<Rightarrow> int \<Rightarrow> upgrade_state option" where
  "consensus_upgrade_state nHeight p idx =
     (if \<not> 0 \<le> nHeight then None
      else if \<not> (BASE_SPROUT \<le> idx \<and> idx < MAX_NETWORK_UPGRADES) then None
      else Some (case domain_consensus_upgrade_state nHeight (Some p) idx True of
                   Inl _ \<Rightarrow> UPGRADE_DISABLED | Inr st \<Rightarrow> st))"

definition consensus_current_epoch :: "int \<Rightarrow> consensus_params \<Rightarrow> int" where
  "consensus_current_epoch nHeight p =
     (case domain_consensus_current_epoch nHeight (Some p) True of
        Inl _ \<Rightarrow> BASE_SPROUT | Inr epoch \<Rightarrow> epoch)"

definition consensus_current_epoch_branch_id :: "int \<Rightarrow> consensus_params \<Rightarrow> u32" where
  "consensus_current_epoch_branch_id nHeight p =
     (case domain_consensus_current_epoch_branch_id nHeight (Some p) True of
        Inl _ \<Rightarrow> 0 | Inr branch \<Rightarrow> branch)"

text \<open>\<^verbatim>\<open>LOG_FAIL\<close> logs and returns false, \<^verbatim>\<open>LOG_ERR\<close> logs and returns \<^verbatim>\<open>-1\<close>.\<close>

definition consensus_is_branch_id :: "int \<Rightarrow> bool" where
  "consensus_is_branch_id branchId =
     (case domain_consensus_is_branch_id (word_of_int branchId) True of
        Inl _ \<Rightarrow> False
      | Inr known \<Rightarrow> if \<not> known then False else True)"

definition consensus_is_activation_height :: "int \<Rightarrow> consensus_params \<Rightarrow> int \<Rightarrow> bool option" where
  "consensus_is_activation_height nHeight p idx =
     (if \<not> (BASE_SPROUT \<le> idx \<and> idx < MAX_NETWORK_UPGRADES) then None
      else if idx = BASE_SPROUT then Some False
      else (case domain_consensus_is_activation_height nHeight (Some p) idx True of
              Inl _ \<Rightarrow> Some False | Inr m \<Rightarrow> Some m))"

definition consensus_is_activation_height_any :: "int \<Rightarrow> consensus_params \<Rightarrow> bool" where
  "consensus_is_activation_height_any nHeight p =
     (if nHeight < 0 then False
      else (case domain_consensus_is_activation_height_any nHeight (Some p) True of
              Inl _ \<Rightarrow> False
            | Inr m \<Rightarrow> if \<not> m then False else True))"

definition consensus_next_epoch :: "int \<Rightarrow> consensus_params \<Rightarrow> int" where
  "consensus_next_epoch nHeight p =
     (if nHeight < 0 then -1
      else (case domain_consensus_next_epoch nHeight (Some p) True of
              Inl _ \<Rightarrow> -1 | Inr epoch \<Rightarrow> epoch))"

definition consensus_next_activation_height :: "int \<Rightarrow> consensus_params \<Rightarrow> int" where
  "consensus_next_activation_height nHeight p =
     (case domain_consensus_next_activation_height nHeight (Some p) True of
        Inl _ \<Rightarrow> -1 | Inr act \<Rightarrow> act)"

subsection \<open>\<^verbatim>\<open>params.c\<close>\<close>

definition consensus_network_upgrade_active :: "consensus_params \<Rightarrow> int \<Rightarrow> int \<Rightarrow> bool option" where
  "consensus_network_upgrade_active p nHeight idx =
     do { st \<leftarrow> consensus_upgrade_state nHeight p idx; Some (st = UPGRADE_ACTIVE) }"

definition consensus_subsidy_slow_start_shift :: "consensus_params \<Rightarrow> int" where
  "consensus_subsidy_slow_start_shift p = c_div (nSubsidySlowStartInterval p) 2"

definition consensus_halving :: "consensus_params \<Rightarrow> int \<Rightarrow> int option" where
  "consensus_halving p nHeight =
     do { active \<leftarrow> consensus_network_upgrade_active p nHeight UPGRADE_BUTTERCUP;
          d \<leftarrow> ck32 (nHeight - consensus_subsidy_slow_start_shift p);
          if active then
            do { d' \<leftarrow> ck32 (d - activation_height p UPGRADE_BUTTERCUP);
                 q \<leftarrow> ck_div d' (nPostButtercupSubsidyHalvingInterval p);
                 halvings \<leftarrow> ck32 q;
                 ck32 (halvings + 3) }
          else
            do { q \<leftarrow> ck_div d (nPreButtercupSubsidyHalvingInterval p);
                 ck32 q } }"

definition consensus_pow_target_spacing :: "consensus_params \<Rightarrow> int \<Rightarrow> int option" where
  "consensus_pow_target_spacing p nHeight =
     do { active \<leftarrow> consensus_network_upgrade_active p nHeight UPGRADE_BUTTERCUP;
          Some (if active then nPostButtercupPowTargetSpacing p
                else nPreButtercupPowTargetSpacing p) }"

definition consensus_averaging_window_timespan :: "consensus_params \<Rightarrow> int \<Rightarrow> int option" where
  "consensus_averaging_window_timespan p nHeight =
     do { s \<leftarrow> consensus_pow_target_spacing p nHeight; ck64 (nPowAveragingWindow p * s) }"

definition consensus_min_actual_timespan :: "consensus_params \<Rightarrow> int \<Rightarrow> int option" where
  "consensus_min_actual_timespan p nHeight =
     do { w \<leftarrow> consensus_averaging_window_timespan p nHeight;
          k \<leftarrow> ck64 (100 - nPowMaxAdjustUp p);
          m \<leftarrow> ck64 (w * k);
          ck_div m 100 }"

definition consensus_max_actual_timespan :: "consensus_params \<Rightarrow> int \<Rightarrow> int option" where
  "consensus_max_actual_timespan p nHeight =
     do { w \<leftarrow> consensus_averaging_window_timespan p nHeight;
          k \<leftarrow> ck64 (100 + nPowMaxAdjustDown p);
          m \<leftarrow> ck64 (w * k);
          ck_div m 100 }"

definition consensus_last_founders_reward_height :: "consensus_params \<Rightarrow> int option" where
  "consensus_last_founders_reward_height p =
     do { s \<leftarrow> ck32 (nPreButtercupSubsidyHalvingInterval p + consensus_subsidy_slow_start_shift p);
          ck32 (s - 1) }"

subsection \<open>The parameter tables of \<^verbatim>\<open>chainparams.c\<close>\<close>

text \<open>A 32-byte blob given by the number its hexadecimal literal denotes.\<close>

definition uint256_of_nat :: "nat \<Rightarrow> bytes" where
  "uint256_of_nat n = map (\<lambda>i. word_of_nat (n div 256 ^ i)) [0..<32]"

definition upgrade_rows :: "(int \<times> int) list \<Rightarrow> network_upgrade list" where
  "upgrade_rows rows = map (\<lambda>(v, h). \<lparr>nProtocolVersion = v, nActivationHeight = h\<rparr>) rows"

text \<open>The consensus part of a \<^verbatim>\<open>chain_params\<close> with its default Equihash parameters.\<close>

record chain_params =
  consensus :: consensus_params
  nEquihashN :: nat
  nEquihashK :: nat

definition mainParams :: chain_params where
  "mainParams = \<lparr>consensus = \<lparr>
     hashGenesisBlock = uint256_of_nat 0x0007104ccda289427919efc39dc9e4d499804b7bebc22df55f8b834301260602,
     fCoinbaseMustBeProtected = True,
     nSubsidySlowStartInterval = 2,
     nPreButtercupSubsidyHalvingInterval = 840000,
     nPostButtercupSubsidyHalvingInterval = 1680000,
     nMajorityEnforceBlockUpgrade = 750,
     nMajorityRejectBlockOutdated = 950,
     nMajorityWindow = 4000,
     vUpgrades = upgrade_rows [(170002, 0), (170002, -1), (170005, 476969), (170007, 476969),
                               (170009, 585318), (170010, 585322), (170011, 707000)],
     powLimit = uint256_of_nat 0x0007ffffffffffffffffffffffffffffffffffffffffffffffffffffffffffff,
     nPowAllowMinDifficultyBlocksAfterHeight = -1,
     nPowAllowMinDifficultyEnabled = False,
     scaleDifficultyAtUpgradeFork = True,
     nPowAveragingWindow = 17,
     nPowMaxAdjustDown = 32,
     nPowMaxAdjustUp = 16,
     nPreButtercupPowTargetSpacing = 150,
     nPostButtercupPowTargetSpacing = 75,
     nMinimumChainWork = uint256_of_nat 0xaf996bfd8e482\<rparr>,
   nEquihashN = 200, nEquihashK = 9\<rparr>"

definition testNetParams :: chain_params where
  "testNetParams = \<lparr>consensus = \<lparr>
     hashGenesisBlock = uint256_of_nat 0x03e1c4bb705c871bf9bfda3e74b7f8f86bff267993c215a89d5795e3708e5e1f,
     fCoinbaseMustBeProtected = True,
     nSubsidySlowStartInterval = 2,
     nPreButtercupSubsidyHalvingInterval = 840000,
     nPostButtercupSubsidyHalvingInterval = 1680000,
     nMajorityEnforceBlockUpgrade = 51,
     nMajorityRejectBlockOutdated = 75,
     nMajorityWindow = 400,
     vUpgrades = upgrade_rows [(170002, 0), (170002, -1), (170003, 20), (170007, 20),
                               (170008, 6350), (170009, -1), (170010, 78856)],
     powLimit = uint256_of_nat 0x07ffffffffffffffffffffffffffffffffffffffffffffffffffffffffffffff,
     nPowAllowMinDifficultyBlocksAfterHeight = 299187,
     nPowAllowMinDifficultyEnabled = True,
     scaleDifficultyAtUpgradeFork = False,
     nPowAveragingWindow = 17,
     nPowMaxAdjustDown = 32,
     nPowMaxAdjustUp = 16,
     nPreButtercupPowTargetSpacing = 150,
     nPostButtercupPowTargetSpacing = 75,
     nMinimumChainWork = uint256_of_nat 0\<rparr>,
   nEquihashN = 200, nEquihashK = 9\<rparr>"

definition regTestParams :: chain_params where
  "regTestParams = \<lparr>consensus = \<lparr>
     hashGenesisBlock = uint256_of_nat 0x0575f78ee8dc057deee78ef691876e3be29833aaee5e189bb0459c087451305a,
     fCoinbaseMustBeProtected = False,
     nSubsidySlowStartInterval = 0,
     nPreButtercupSubsidyHalvingInterval = 150,
     nPostButtercupSubsidyHalvingInterval = 300,
     nMajorityEnforceBlockUpgrade = 750,
     nMajorityRejectBlockOutdated = 950,
     nMajorityWindow = 1000,
     vUpgrades = upgrade_rows [(170002, 0), (170002, -1), (170003, -1), (170006, -1),
                               (170008, -1), (170009, -1), (170010, -1)],
     powLimit = uint256_of_nat 0x0f0f0f0f0f0f0f0f0f0f0f0f0f0f0f0f0f0f0f0f0f0f0f0f0f0f0f0f0f0f0f0f,
     nPowAllowMinDifficultyBlocksAfterHeight = 0,
     nPowAllowMinDifficultyEnabled = True,
     scaleDifficultyAtUpgradeFork = False,
     nPowAveragingWindow = 17,
     nPowMaxAdjustDown = 0,
     nPowMaxAdjustUp = 0,
     nPreButtercupPowTargetSpacing = 150,
     nPostButtercupPowTargetSpacing = 75,
     nMinimumChainWork = uint256_of_nat 0\<rparr>,
   nEquihashN = 48, nEquihashK = 5\<rparr>"

definition chain_params_equihash_n :: "chain_params \<Rightarrow> int \<Rightarrow> nat" where
  "chain_params_equihash_n p height =
     (let n = fst (EquihashUpgradeInfo ! nat (consensus_current_epoch height (consensus p)))
      in if n = 0 then nEquihashN p else n)"

definition chain_params_equihash_k :: "chain_params \<Rightarrow> int \<Rightarrow> nat" where
  "chain_params_equihash_k p height =
     (let k = snd (EquihashUpgradeInfo ! nat (consensus_current_epoch height (consensus p)))
      in if k = 0 then nEquihashK p else k)"

section \<open>Blobs given by numbers\<close>

lemma length_uint256_of_nat [simp]: "length (uint256_of_nat n) = 32"
  by (simp add: uint256_of_nat_def)

lemma words_val_digits: "words_val (map (\<lambda>i. word_of_nat (n div 256 ^ i) :: u8) [0..<k]) = n mod 256 ^ k"
proof (induction k)
  case (Suc k)
  have "unat (word_of_nat (n div 256 ^ k) :: u8) = n div 256 ^ k mod 256" by (simp add: unat_of_nat)
  moreover have "(2::nat) ^ (8 * k) = 256 ^ k" by (simp add: power_mult)
  ultimately have "words_val (map (\<lambda>i. word_of_nat (n div 256 ^ i) :: u8) [0..<Suc k]) =
      n mod 256 ^ k + 256 ^ k * (n div 256 ^ k mod 256)"
    using Suc by (simp add: words_val_append)
  also have "\<dots> = n mod (256 ^ k * 256)" by (simp add: mod_mult2_eq)
  finally show ?case by (simp add: mult.commute)
qed simp

lemma words_val_uint256_of_nat: "n < 2 ^ 256 \<Longrightarrow> words_val (uint256_of_nat n) = n"
  by (simp add: uint256_of_nat_def words_val_digits)

section \<open>The schedule\<close>

lemma current_epoch_loop_range: "0 \<le> current_epoch_loop h p n" "current_epoch_loop h p (Suc n) \<le> int n"
  by (induction n) auto

lemma current_epoch_loop_active:
  "current_epoch_loop h p n = 0 \<or> dcu_is_active h p (current_epoch_loop h p n)"
  by (induction n) auto

lemma current_epoch_loop_greatest:
  "i < n \<Longrightarrow> dcu_is_active h p (int i) \<Longrightarrow> int i \<le> current_epoch_loop h p n"
  by (induction n) (auto simp: less_Suc_eq)

lemma dcu_is_active_mono: "h \<le> h' \<Longrightarrow> dcu_is_active h p i \<Longrightarrow> dcu_is_active h' p i"
  by (auto simp: dcu_is_active_def Let_def split: if_splits)

lemma current_epoch_loop_mono:
  assumes "h \<le> h'"
  shows "current_epoch_loop h p n \<le> current_epoch_loop h' p n"
proof (cases "current_epoch_loop h p n = 0 \<or> n = 0")
  case True
  then show ?thesis using current_epoch_loop_range(1) [of h' p n] by auto
next
  case False
  then obtain m where n: "n = Suc m" by (cases n) auto
  let ?e = "current_epoch_loop h p n"
  have e: "?e = int (nat ?e)" "nat ?e < n"
    using current_epoch_loop_range(1) [of h p n] current_epoch_loop_range(2) [of h p m] n
    by (simp_all only: nat_0_le nat_less_iff of_nat_Suc)
  have "dcu_is_active h p ?e" using current_epoch_loop_active [of h p n] False by blast
  then have "dcu_is_active h' p (int (nat ?e))" using assms e(1) dcu_is_active_mono by metis
  then show ?thesis using current_epoch_loop_greatest [OF e(2)] e(1) by metis
qed

lemma upgrade_active_iff:
  "0 \<le> h \<Longrightarrow> 0 \<le> i \<Longrightarrow> i < 7 \<Longrightarrow> consensus_network_upgrade_active p h i = Some (dcu_is_active h p i)"
  by (simp add: consensus_network_upgrade_active_def consensus_upgrade_state_def
      domain_consensus_upgrade_state_def dcu_idx_valid_def dcu_is_active_def Let_def)

lemma next_epoch_loop_Inr:
  "next_epoch_loop h p is = Inr i \<Longrightarrow>
   i \<in> set is \<and> h < activation_height p i \<and> activation_height p i \<noteq> -1"
  by (induction "is") (auto simp: Let_def split: if_splits)

lemma next_epoch_loop_first:
  "next_epoch_loop h p is = Inr i \<Longrightarrow> sorted_wrt (<) is \<Longrightarrow> j \<in> set is \<Longrightarrow> j < i \<Longrightarrow>
   activation_height p j = -1 \<or> activation_height p j \<le> h"
  by (induction "is") (auto simp: Let_def split: if_splits dest: next_epoch_loop_Inr)

lemma next_epoch_loop_Inl:
  "next_epoch_loop h p is = Inl e \<longleftrightarrow>
   e = UPG_NO_PENDING \<and> (\<forall>i \<in> set is. activation_height p i = -1 \<or> activation_height p i \<le> h)"
  by (induction "is") (auto simp: Let_def)

section \<open>Properties of the schedule\<close>

text \<open>
  The current epoch is the highest-numbered upgrade active at the height (or the base epoch),
  and it never decreases as the height grows.
\<close>

lemma current_epoch_correct:
  assumes "0 \<le> h" "h \<le> h'"
  shows "\<exists>e e'. domain_consensus_current_epoch h (Some p) True = Inr e \<and>
           domain_consensus_current_epoch h' (Some p) True = Inr e' \<and> e \<le> e' \<and> 0 \<le> e \<and> e < 7 \<and>
           (e = 0 \<or> dcu_is_active h p e) \<and> (\<forall>i. e < i \<and> i < 7 \<longrightarrow> \<not> dcu_is_active h p i)"
proof -
  let ?e = "current_epoch_loop h p 7"
  have "?e < 7" using current_epoch_loop_range(2) [of h p 6] by simp
  moreover have "\<not> dcu_is_active h p i" if "?e < i" "i < 7" for i
  proof
    have i: "int (nat i) = i" "nat i < 7" using current_epoch_loop_range(1) [of h p 7] that by auto
    assume "dcu_is_active h p i"
    then show False using current_epoch_loop_greatest [OF i(2), of h p] i(1) that(1) by simp
  qed
  ultimately show ?thesis
    using assms current_epoch_loop_mono [of h h' p 7] current_epoch_loop_range(1) [of h p 7] current_epoch_loop_active [of h p 7]
    by (auto simp: domain_consensus_current_epoch_def)
qed

text \<open>
  The next epoch is the lowest-numbered upgrade still pending at the height, its activation
  height is the one reported, and the error \<^verbatim>\<open>NO_PENDING\<close> is returned exactly when every later
  upgrade is disabled or already active.
\<close>

lemma next_epoch_correct:
  assumes "0 \<le> h"
  shows "case domain_consensus_next_epoch h (Some p) True of
           Inr i \<Rightarrow> 0 < i \<and> i < 7 \<and> h < activation_height p i \<and>
             domain_consensus_next_activation_height h (Some p) True = Inr (activation_height p i) \<and>
             (\<forall>j. 0 < j \<and> j < i \<longrightarrow> activation_height p j = -1 \<or> activation_height p j \<le> h)
         | Inl e \<Rightarrow> e = UPG_NO_PENDING \<and>
             domain_consensus_next_activation_height h (Some p) True = Inl UPG_NO_PENDING \<and>
             (\<forall>j. 0 < j \<and> j < 7 \<longrightarrow> activation_height p j = -1 \<or> activation_height p j \<le> h)"
proof -
  have idx: "0 < j \<and> j < 7 \<longleftrightarrow> j \<in> set [1, 2, 3, 4, 5, 6]" for j :: int by auto
  have eq: "domain_consensus_next_epoch h (Some p) True = next_epoch_loop h p [1, 2, 3, 4, 5, 6]"
    using assms by (simp add: domain_consensus_next_epoch_def)
  show ?thesis
  proof (cases "next_epoch_loop h p [1, 2, 3, 4, 5, 6]")
    case (Inl e)
    then show ?thesis using assms next_epoch_loop_Inl [of h p "[1, 2, 3, 4, 5, 6]" e] unfolding idx eq
      by (simp add: domain_consensus_next_activation_height_def eq del: next_epoch_loop.simps)
  next
    case (Inr i)
    have "sorted_wrt (<) [1, 2, 3, 4, 5, 6 :: int]" by simp
    note F = next_epoch_loop_first [OF Inr this] and I = next_epoch_loop_Inr [OF Inr]
    have "0 < i \<and> i < 7" using I unfolding idx by blast
    moreover have "activation_height p j = -1 \<or> activation_height p j \<le> h" if "0 < j" "j < i" for j
      using F [of j] that calculation idx [of j] by auto
    ultimately show ?thesis using assms Inr I
      by (simp add: domain_consensus_next_activation_height_def eq del: next_epoch_loop.simps)
  qed
qed

end
