(* ===== verification/Block_Index.thy ===== *)
theory Block_Index
  imports Arith_Uint256 "HOL-Library.Multiset"
begin

text \<open>
  The in-memory block index, \<^verbatim>\<open>lib/chain/include/chain/chain.h\<close> and \<^verbatim>\<open>lib/chain/src/chain.c\<close>:
  entries in a store indexed by addresses and linked by the pointers \<^verbatim>\<open>pprev\<close> and \<^verbatim>\<open>pskip\<close>, the
  skip-list ancestor search, the median time past and the failure predicates on \<^verbatim>\<open>nStatus\<close>.
  The lemmas show that the skip-list search finds the block the plain walk along \<^verbatim>\<open>pprev\<close> finds,
  that building a skip pointer keeps the store well-formed, and that the insertion sort sorts.
\<close>

section \<open>Model\<close>

text \<open>An address of an index entry; a NULL pointer is \<open>None\<close>.\<close>

type_synonym addr = nat

record block_index =
  pprev :: "addr option"
  pskip :: "addr option"
  bi_hashBlock :: uint256
  bi_nChainWork :: arith_uint256
  bi_hashMerkleRoot :: uint256
  bi_hashFinalSaplingRoot :: uint256
  bi_nHeight :: int
  bi_nStatus :: u32
  bi_nVersion :: int
  bi_nTime :: u32
  bi_nBits :: u32

type_synonym store = "addr \<Rightarrow> block_index option"

definition invert_lowest_one :: "int \<Rightarrow> int" where
  "invert_lowest_one n = n AND (n - 1)"

definition get_skip_height :: "int \<Rightarrow> int" where
  "get_skip_height height =
     (if height < 2 then 0
      else if height AND 1 \<noteq> 0
           then invert_lowest_one (invert_lowest_one (height - 1)) + 1
           else invert_lowest_one height)"

lemma invert_lowest_one_bounds: "0 < n \<Longrightarrow> 0 \<le> invert_lowest_one n \<and> invert_lowest_one n < n"
  using AND_upper2 [of "n - 1" n] by (simp add: invert_lowest_one_def)

lemma get_skip_height_bounds: "0 < h \<Longrightarrow> 0 \<le> get_skip_height h \<and> get_skip_height h < h"
proof (cases "h < 2 \<or> h AND 1 = 0")
  case True
  assume "0 < h"
  then show ?thesis using True invert_lowest_one_bounds [of h] by (auto simp: get_skip_height_def)
next
  case False
  assume "0 < h"
  let ?m = "invert_lowest_one (h - 1)"
  have m: "0 \<le> ?m" "?m < h - 1" using invert_lowest_one_bounds [of "h - 1"] False by auto
  have "0 \<le> invert_lowest_one ?m" "invert_lowest_one ?m \<le> ?m"
    using m invert_lowest_one_bounds [of ?m] by (cases "?m = 0"; simp add: invert_lowest_one_def)+
  then show ?thesis using False m by (simp add: get_skip_height_def)
qed

lemma skip_height_less: "\<not> h \<le> height \<Longrightarrow> nat (get_skip_height (int h)) < h"
  using get_skip_height_bounds [of "int h"] by (simp add: nat_less_iff)

text \<open>
  The loop of \<^verbatim>\<open>block_index_get_ancestor\<close> at the entry \<open>walk\<close> of height \<open>h\<close>. The outer option is
  \<open>None\<close> for a dangling pointer, the inner one is the pointer returned.
\<close>

function ancestor_loop :: "store \<Rightarrow> addr \<Rightarrow> nat \<Rightarrow> nat \<Rightarrow> addr option option" where
  "ancestor_loop st walk h height =
     (if h \<le> height then Some (Some walk)
      else
        (case st walk of
           None \<Rightarrow> None
         | Some b \<Rightarrow>
             (let skip_h = get_skip_height (int h);
                  skip_h_prev = get_skip_height (int h - 1)
              in case pskip b of
                   Some s \<Rightarrow>
                     if skip_h = int height \<or>
                        (skip_h > int height \<and>
                         \<not> (skip_h_prev < skip_h - 2 \<and> skip_h_prev \<ge> int height))
                     then ancestor_loop st s (nat skip_h) height
                     else (case pprev b of
                             None \<Rightarrow> Some None
                           | Some p \<Rightarrow> ancestor_loop st p (h - 1) height)
                 | None \<Rightarrow>
                     (case pprev b of
                        None \<Rightarrow> Some None
                      | Some p \<Rightarrow> ancestor_loop st p (h - 1) height))))"
  by pat_completeness auto
termination
  by (relation "measure (\<lambda>(st, walk, h, height). h)") (auto intro: skip_height_less)

declare ancestor_loop.simps [simp del]

definition block_index_get_ancestor :: "store \<Rightarrow> addr \<Rightarrow> int \<Rightarrow> addr option option" where
  "block_index_get_ancestor st bi height =
     (case st bi of
        None \<Rightarrow> None
      | Some b \<Rightarrow>
          if height > bi_nHeight b \<or> height < 0 then Some None
          else ancestor_loop st bi (nat (bi_nHeight b)) (nat height))"

definition block_index_build_skip :: "store \<Rightarrow> addr \<Rightarrow> store option" where
  "block_index_build_skip st bi =
     (case st bi of
        None \<Rightarrow> None
      | Some b \<Rightarrow>
          (case pprev b of
             None \<Rightarrow> Some st
           | Some p \<Rightarrow>
               (case block_index_get_ancestor st p (get_skip_height (bi_nHeight b)) of
                  None \<Rightarrow> None
                | Some s \<Rightarrow> Some (st(bi \<mapsto> b\<lparr>pskip := s\<rparr>)))))"

definition block_index_get_time :: "block_index \<Rightarrow> int" where
  "block_index_get_time b = uint (bi_nTime b)"

text \<open>The times of up to \<open>n\<close> entries from \<open>p\<close> back, in the order the loop stores them.\<close>

fun mtp_collect :: "store \<Rightarrow> nat \<Rightarrow> addr option \<Rightarrow> int list option" where
  "mtp_collect st 0 p = Some []"
| "mtp_collect st (Suc n) None = Some []"
| "mtp_collect st (Suc n) (Some p) =
     (case st p of
        None \<Rightarrow> None
      | Some b \<Rightarrow>
          (case mtp_collect st n (pprev b) of
             None \<Rightarrow> None
           | Some ts \<Rightarrow> Some (block_index_get_time b # ts)))"

text \<open>The inner loop of the insertion sort: \<open>k\<close> is \<^verbatim>\<open>j + 1\<close>.\<close>

fun shift_loop :: "int list \<Rightarrow> int \<Rightarrow> nat \<Rightarrow> int list" where
  "shift_loop a key 0 = a[0 := key]"
| "shift_loop a key (Suc j) =
     (if a ! j > key then shift_loop (a[Suc j := a ! j]) key j else a[Suc j := key])"

definition insertion_sort :: "int list \<Rightarrow> int list" where
  "insertion_sort a = foldl (\<lambda>a i. shift_loop a (a ! i) i) a [1..<length a]"

definition block_index_get_median_time_past :: "store \<Rightarrow> addr \<Rightarrow> int option" where
  "block_index_get_median_time_past st bi =
     (case mtp_collect st 11 (Some bi) of
        None \<Rightarrow> None
      | Some ts \<Rightarrow> Some (insertion_sort ts ! (length ts div 2)))"

abbreviation (input) BLOCK_VALID_MASK :: u32 where "BLOCK_VALID_MASK \<equiv> 7"
abbreviation (input) BLOCK_FAILED_VALID :: u32 where "BLOCK_FAILED_VALID \<equiv> 32"
abbreviation (input) BLOCK_FAILED_CHILD :: u32 where "BLOCK_FAILED_CHILD \<equiv> 64"
abbreviation (input) BLOCK_FAILED_TRANSIENT :: u32 where "BLOCK_FAILED_TRANSIENT \<equiv> 1024"
abbreviation (input) BLOCK_FAILED_ANY_MASK :: u32 where "BLOCK_FAILED_ANY_MASK \<equiv> 1120"

definition block_is_permanently_failed :: "block_index option \<Rightarrow> bool" where
  "block_is_permanently_failed bi =
     (case bi of None \<Rightarrow> False | Some b \<Rightarrow> bi_nStatus b AND BLOCK_FAILED_VALID \<noteq> 0)"

definition block_is_dependency_failed :: "block_index option \<Rightarrow> bool" where
  "block_is_dependency_failed bi =
     (case bi of None \<Rightarrow> False | Some b \<Rightarrow> bi_nStatus b AND BLOCK_FAILED_CHILD \<noteq> 0)"

definition block_is_transiently_failed :: "block_index option \<Rightarrow> bool" where
  "block_is_transiently_failed bi =
     (case bi of None \<Rightarrow> False | Some b \<Rightarrow> bi_nStatus b AND BLOCK_FAILED_TRANSIENT \<noteq> 0)"

definition block_has_any_failure :: "block_index option \<Rightarrow> bool" where
  "block_has_any_failure bi =
     (case bi of None \<Rightarrow> False | Some b \<Rightarrow> bi_nStatus b AND BLOCK_FAILED_ANY_MASK \<noteq> 0)"

definition block_index_is_valid :: "block_index \<Rightarrow> u32 \<Rightarrow> bool" where
  "block_index_is_valid b up_to =
     (if block_has_any_failure (Some b) then False
      else up_to \<le> bi_nStatus b AND BLOCK_VALID_MASK)"

definition block_index_cmp_height :: "block_index \<Rightarrow> block_index \<Rightarrow> int" where
  "block_index_cmp_height a b = of_bool (bi_nHeight a > bi_nHeight b) - of_bool (bi_nHeight a < bi_nHeight b)"

text \<open>
  The reference walk along \<^verbatim>\<open>pprev\<close>, and the invariant of the store: a parent is present and one
  lower, and a skip pointer leads to the ancestor at \<^verbatim>\<open>get_skip_height\<close>.
\<close>

fun walk_prev :: "store \<Rightarrow> addr \<Rightarrow> nat \<Rightarrow> addr option" where
  "walk_prev st a 0 = Some a"
| "walk_prev st a (Suc n) =
     (case st a of
        None \<Rightarrow> None
      | Some b \<Rightarrow> (case pprev b of None \<Rightarrow> None | Some p \<Rightarrow> walk_prev st p n))"

definition index_wf :: "store \<Rightarrow> bool" where
  "index_wf st \<longleftrightarrow> (\<forall>a b. st a = Some b \<longrightarrow>
     0 \<le> bi_nHeight b \<and>
     (\<forall>p. pprev b = Some p \<longrightarrow> (\<exists>b'. st p = Some b' \<and> bi_nHeight b' = bi_nHeight b - 1)) \<and>
     (\<forall>s. pskip b = Some s \<longrightarrow> walk_prev st a (nat (bi_nHeight b - get_skip_height (bi_nHeight b))) = Some s))"

section \<open>Ancestor search\<close>

lemma index_wf_parent:
  "index_wf st \<Longrightarrow> st a = Some b \<Longrightarrow> pprev b = Some p \<Longrightarrow> \<exists>b'. st p = Some b' \<and> bi_nHeight b' = bi_nHeight b - 1"
  unfolding index_wf_def by blast

lemma walk_prev_add:
  "walk_prev st a (m + n) = (case walk_prev st a m of None \<Rightarrow> None | Some c \<Rightarrow> walk_prev st c n)"
  by (induction m arbitrary: a) (auto split: option.splits)

lemma walk_prev_height:
  assumes "index_wf st"
  shows "walk_prev st a n = Some c \<Longrightarrow> st a = Some b \<Longrightarrow> \<exists>b'. st c = Some b' \<and> bi_nHeight b' = bi_nHeight b - int n"
proof (induction n arbitrary: a b)
  case (Suc n)
  then obtain p where p: "pprev b = Some p" "walk_prev st p n = Some c" by (auto split: option.splits)
  then obtain b1 where "st p = Some b1" "bi_nHeight b1 = bi_nHeight b - 1"
    using index_wf_parent [OF assms Suc.prems(2)] by blast
  then show ?case using Suc.IH [OF p(2)] by (auto simp: algebra_simps)
qed simp

lemma ancestor_loop_walk:
  assumes "index_wf st"
  shows "st walk = Some b \<Longrightarrow> bi_nHeight b = int h \<Longrightarrow> height \<le> h \<Longrightarrow>
         ancestor_loop st walk h height = Some (walk_prev st walk (h - height))"
proof (induction h arbitrary: walk b rule: less_induct)
  case (less h)
  show ?case
  proof (cases "h \<le> height")
    case True
    then show ?thesis using less.prems by (simp add: ancestor_loop.simps)
  next
    case False
    let ?s = "get_skip_height (int h)"
    have sb: "0 \<le> ?s" "?s < int h" using get_skip_height_bounds [of "int h"] False by auto
    have prev: "(case pprev b of None \<Rightarrow> Some None | Some p \<Rightarrow> ancestor_loop st p (h - 1) height) =
        Some (walk_prev st walk (h - height))"
    proof (cases "pprev b")
      case None
      then show ?thesis using False less.prems by (cases "h - height") simp_all
    next
      case (Some p)
      then obtain b' where "st p = Some b'" "bi_nHeight b' = int (h - 1)"
        using index_wf_parent [OF assms less.prems(1)] less.prems(2) False by (auto simp: of_nat_diff)
      moreover have "h - height = Suc (h - 1 - height)" using False by simp
      ultimately show ?thesis using less.IH [of "h - 1" p b'] less.prems False Some by simp
    qed
    have skip: "ancestor_loop st s (nat ?s) height = Some (walk_prev st walk (h - height))"
      if "pskip b = Some s" "int height \<le> ?s" for s
    proof -
      have w: "walk_prev st walk (h - nat ?s) = Some s"
      proof -
        have "h - nat ?s = nat (bi_nHeight b - get_skip_height (bi_nHeight b))" using sb less.prems(2) by simp
        then show ?thesis using assms less.prems that(1) unfolding index_wf_def by metis
      qed
      obtain b' where "st s = Some b'" "bi_nHeight b' = int (nat ?s)"
        using walk_prev_height [OF assms w less.prems(1)] less.prems(2) sb by (auto simp: of_nat_diff)
      moreover have "nat ?s < h" "height \<le> nat ?s" using sb that(2) by auto
      ultimately have "ancestor_loop st s (nat ?s) height = Some (walk_prev st s (nat ?s - height))"
        using less.IH by blast
      moreover have "h - height = (h - nat ?s) + (nat ?s - height)" using \<open>nat ?s < h\<close> \<open>height \<le> nat ?s\<close> by simp
      ultimately show ?thesis using w by (simp add: walk_prev_add)
    qed
    show ?thesis
      using False less.prems(1) prev skip
      by (subst ancestor_loop.simps) (auto simp: Let_def split: option.splits)
  qed
qed

lemma get_ancestor_walk:
  assumes "index_wf st" "st a = Some b" "0 \<le> height" "height \<le> bi_nHeight b"
  shows "block_index_get_ancestor st a height = Some (walk_prev st a (nat (bi_nHeight b - height)))"
proof -
  have "ancestor_loop st a (nat (bi_nHeight b)) (nat height) = Some (walk_prev st a (nat (bi_nHeight b) - nat height))"
    using assms by (intro ancestor_loop_walk) auto
  then show ?thesis using assms by (simp add: block_index_get_ancestor_def nat_diff_distrib')
qed

lemma walk_prev_cong_pskip:
  assumes "st a = Some b"
  shows "walk_prev (st(a \<mapsto> b\<lparr>pskip := s\<rparr>)) c n = walk_prev st c n"
  by (induction n arbitrary: c) (auto simp: assms split: option.splits)

lemma build_skip_wf:
  assumes "index_wf st" "block_index_build_skip st a = Some st'"
  shows "index_wf st'"
proof -
  obtain b where b: "st a = Some b" using assms(2) by (auto simp: block_index_build_skip_def split: option.splits)
  show ?thesis
  proof (cases "pprev b")
    case None
    then show ?thesis using assms b by (auto simp: block_index_build_skip_def)
  next
    case (Some p)
    obtain b' where b': "st p = Some b'" "bi_nHeight b' = bi_nHeight b - 1"
      using index_wf_parent [OF assms(1) b Some] by blast
    have h: "0 < bi_nHeight b" "0 \<le> get_skip_height (bi_nHeight b)" "get_skip_height (bi_nHeight b) < bi_nHeight b"
      using assms(1) b' get_skip_height_bounds [of "bi_nHeight b"] unfolding index_wf_def by fastforce+
    let ?n = "nat (bi_nHeight b' - get_skip_height (bi_nHeight b))"
    have "block_index_get_ancestor st p (get_skip_height (bi_nHeight b)) = Some (walk_prev st p ?n)"
      using assms(1) b' h by (intro get_ancestor_walk) auto
    then have st': "st' = st(a \<mapsto> b\<lparr>pskip := walk_prev st p ?n\<rparr>)"
      using assms(2) b Some by (simp add: block_index_build_skip_def)
    have "nat (bi_nHeight b - get_skip_height (bi_nHeight b)) = Suc ?n" using h b'(2) by (simp add: nat_diff_distrib)
    then have w: "walk_prev st a (nat (bi_nHeight b - get_skip_height (bi_nHeight b))) = walk_prev st p ?n"
      using b Some by simp
    show ?thesis unfolding index_wf_def
    proof (intro allI impI)
      fix c e assume e: "st' c = Some e"
      obtain e' where e': "st c = Some e'" "bi_nHeight e' = bi_nHeight e" "pprev e' = pprev e"
        using e b by (cases "c = a") (auto simp: st')
      have par: "\<exists>f. st' q = Some f \<and> bi_nHeight f = bi_nHeight e - 1" if "pprev e = Some q" for q
        using index_wf_parent [OF assms(1) e'(1), of q] e' that b by (cases "q = a") (auto simp: st')
      have "walk_prev st c (nat (bi_nHeight e - get_skip_height (bi_nHeight e))) = Some s" if "pskip e = Some s" for s
      proof (cases "c = a")
        case True
        then show ?thesis using e that w by (auto simp: st')
      next
        case False
        then show ?thesis using e e' that assms(1) unfolding index_wf_def by (simp add: st')
      qed
      moreover have "0 \<le> bi_nHeight e" using assms(1) e' unfolding index_wf_def by metis
      ultimately show "0 \<le> bi_nHeight e \<and> (\<forall>q. pprev e = Some q \<longrightarrow> (\<exists>f. st' q = Some f \<and> bi_nHeight f = bi_nHeight e - 1)) \<and>
        (\<forall>s. pskip e = Some s \<longrightarrow> walk_prev st' c (nat (bi_nHeight e - get_skip_height (bi_nHeight e))) = Some s)"
        using par unfolding st' walk_prev_cong_pskip [of st, OF b] by simp
    qed
  qed
qed

section \<open>Median time past\<close>

lemma length_shift_loop [simp]: "length (shift_loop a key j) = length a"
  by (induction j arbitrary: a) auto

lemma shift_loop_insert:
  "j < length a \<Longrightarrow> sorted (take j a) \<Longrightarrow>
   shift_loop a key j =
     filter (\<lambda>x. x \<le> key) (take j a) @ key # filter (\<lambda>x. key < x) (take j a) @ drop (Suc j) a"
proof (induction j arbitrary: a)
  case 0
  then show ?case by (cases a) auto
next
  case (Suc j)
  have t: "take (Suc j) a = take j a @ [a ! j]" using Suc.prems(1) by (simp add: take_Suc_conv_app_nth)
  show ?case
  proof (cases "a ! j > key")
    case True
    let ?a = "a[Suc j := a ! j]"
    have "take j ?a = take j a" "drop (Suc j) ?a = a ! j # drop (Suc (Suc j)) a"
      using Suc.prems(1) by (simp_all add: Cons_nth_drop_Suc [symmetric] drop_update_swap)
    moreover have "sorted (take j ?a)" using Suc.prems(2) t by (simp add: sorted_append)
    ultimately show ?thesis using Suc.IH [of ?a] Suc.prems(1) True t by simp
  next
    case False
    then have le: "\<forall>x \<in> set (take (Suc j) a). x \<le> key"
      using Suc.prems(2) t by (auto simp: sorted_append)
    then have "filter (\<lambda>x. x \<le> key) (take (Suc j) a) = take (Suc j) a"
      "filter (\<lambda>x. key < x) (take (Suc j) a) = []" by (auto simp: filter_id_conv filter_empty_conv)
    then show ?thesis using False Suc.prems(1) by (simp add: upd_conv_take_nth_drop)
  qed
qed

lemma insertion_sort_step:
  assumes "i < length a" "sorted (take i a)"
  shows "sorted (take (Suc i) (shift_loop a (a ! i) i))" and "mset (shift_loop a (a ! i) i) = mset a"
proof -
  let ?k = "a ! i" and ?p = "take i a"
  note S = shift_loop_insert [OF assms, of ?k]
  have len: "length (filter (\<lambda>x. x \<le> ?k) ?p) + length (filter (\<lambda>x. ?k < x) ?p) = i"
    using sum_length_filter_compl [of "\<lambda>x. x \<le> ?k" ?p] assms(1) by (simp add: not_le)
  have "take (Suc i) (shift_loop a ?k i) = filter (\<lambda>x. x \<le> ?k) ?p @ ?k # filter (\<lambda>x. ?k < x) ?p"
  proof -
    have "Suc i - length (filter (\<lambda>x. x \<le> ?k) ?p) = Suc (length (filter (\<lambda>x. ?k < x) ?p))" using len by linarith
    then show ?thesis by (simp add: S)
  qed
  then show "sorted (take (Suc i) (shift_loop a ?k i))"
    using assms(2) by (auto simp: sorted_append sorted_wrt_filter intro: less_imp_le)
  have "mset (shift_loop a ?k i) = mset ?p + {#?k#} + mset (drop (Suc i) a)"
    using multiset_partition [of "mset ?p" "\<lambda>x. x \<le> ?k"] by (simp add: S not_le)
  also have "\<dots> = mset a"
    using arg_cong [where f = mset, OF id_take_nth_drop [OF assms(1)]] by simp
  finally show "mset (shift_loop a ?k i) = mset a" .
qed

lemma insertion_sort_correct: "insertion_sort a = sort a"
proof -
  have "sorted (take (Suc k) r) \<and> mset r = mset a \<and> length r = length a"
    if "r = foldl (\<lambda>a i. shift_loop a (a ! i) i) a [1..<Suc k]" "k < length a" for r k
    using that
  proof (induction k arbitrary: r)
    case 0
    then show ?case by (cases a) auto
  next
    case (Suc k)
    let ?r = "foldl (\<lambda>a i. shift_loop a (a ! i) i) a [1..<Suc k]"
    have IH: "sorted (take (Suc k) ?r)" "mset ?r = mset a" "length ?r = length a" using Suc by auto
    have "r = shift_loop ?r (?r ! Suc k) (Suc k)" using Suc.prems by simp
    then show ?case using insertion_sort_step [of "Suc k" ?r] IH Suc.prems(2) by simp
  qed
  from this [OF refl, of "length a - 1"] show ?thesis
    by (cases "a = []") (auto simp: insertion_sort_def intro!: properties_for_sort [symmetric])
qed

lemma median_time_past_sort:
  "block_index_get_median_time_past st bi =
     map_option (\<lambda>ts. sort ts ! (length ts div 2)) (mtp_collect st 11 (Some bi))"
  by (simp add: block_index_get_median_time_past_def insertion_sort_correct split: option.split)

subsection \<open>The median does not go back\<close>

lemma sorted_filter_less:
  fixes m :: int
  assumes "sorted xs" "k < length xs"
  shows "m \<le> xs ! k \<longleftrightarrow> length (filter (\<lambda>x. x < m) xs) \<le> k"
proof -
  have s: "filter (\<lambda>x. x < m) xs = filter (\<lambda>x. x < m) (take k xs) @ filter (\<lambda>x. x < m) (drop k xs)"
    by (metis append_take_drop_id filter_append)
  have le: "xs ! i \<le> xs ! k" if "i \<le> k" for i using sorted_nth_mono [OF assms(1) that assms(2)] .
  show ?thesis
  proof
    assume m: "m \<le> xs ! k"
    have "\<not> x < m" if x: "x \<in> set (drop k xs)" for x
    proof -
      obtain i where "i < length (drop k xs)" "x = xs ! (k + i)" using x assms(2) by (auto simp: in_set_conv_nth)
      then show ?thesis using m sorted_nth_mono [OF assms(1), of k "k + i"] by fastforce
    qed
    then have "filter (\<lambda>x. x < m) (drop k xs) = []" by (simp add: filter_empty_conv)
    then show "length (filter (\<lambda>x. x < m) xs) \<le> k" using s length_filter_le [of "\<lambda>x. x < m" "take k xs"] by simp
  next
    assume l: "length (filter (\<lambda>x. x < m) xs) \<le> k"
    show "m \<le> xs ! k"
    proof (rule ccontr)
      assume "\<not> m \<le> xs ! k"
      then have "xs ! i < m" if "i \<le> k" for i using le [OF that] by simp
      then have "\<forall>x \<in> set (take (Suc k) xs). x < m" by (auto simp: in_set_conv_nth less_Suc_eq_le)
      then have "filter (\<lambda>x. x < m) (take (Suc k) xs) = take (Suc k) xs" by simp
      then have "Suc k \<le> length (filter (\<lambda>x. x < m) xs)"
        using assms(2) by (metis Suc_leI append_take_drop_id filter_append length_append length_take le_add1 min.absorb2)
      then show False using l by simp
    qed
  qed
qed

lemma nth_sort_ge: "k < length xs \<Longrightarrow> m \<le> sort xs ! k \<longleftrightarrow> length (filter (\<lambda>x. x < m) xs) \<le> k" for m :: int
  using sorted_filter_less [of "sort xs" k m] by (metis filter_sort length_sort sorted_sort)

lemma mtp_collect_take:
  "mtp_collect st n p = Some ts \<Longrightarrow> m \<le> n \<Longrightarrow> mtp_collect st m p = Some (take m ts)"
proof (induction st n p arbitrary: m ts rule: mtp_collect.induct)
  case (3 st n p)
  then show ?case by (cases m) (auto split: option.splits)
next
  case (2 st n)
  then show ?case by (cases m) auto
qed auto

lemma mtp_collect_add:
  "mtp_collect st n p = Some ts \<Longrightarrow> st a = None \<Longrightarrow> mtp_collect (st(a \<mapsto> e)) n p = Some ts"
  by (induction st n p arbitrary: ts rule: mtp_collect.induct) (auto split: option.splits if_splits)

lemma mtp_collect_bounds: "mtp_collect st n p = Some ts \<Longrightarrow> length ts \<le> n"
  by (induction st n p arbitrary: ts rule: mtp_collect.induct) (auto split: option.splits)

lemma mtp_collect_None: "mtp_collect st n None = Some []"
  by (cases n) simp_all

lemma mtp_collect_step:
  "st p = Some b \<Longrightarrow> mtp_collect st (Suc n) (Some p) = map_option ((#) (block_index_get_time b)) (mtp_collect st n (pprev b))"
  by (simp split: option.splits)

text \<open>A block with a time past the median does not move the median back.\<close>

lemma median_time_past_grows:
  assumes "block_index_get_median_time_past st a = Some m" "st n = None" "pprev e = Some a" "m \<le> block_index_get_time e"
  shows "\<exists>m'. block_index_get_median_time_past (st(n \<mapsto> e)) n = Some m' \<and> m \<le> m'"
proof -
  obtain ts where ts: "mtp_collect st 11 (Some a) = Some ts" "m = sort ts ! (length ts div 2)"
    using assms(1) by (auto simp: median_time_past_sort)
  have "ts \<noteq> []" using ts(1) by (auto simp: numeral_eq_Suc split: option.splits)
  then have l: "length ts div 2 < length ts" "length ts \<le> 11" using mtp_collect_bounds [OF ts(1)] by (auto simp: div_less_dividend)
  let ?ts = "block_index_get_time e # take 10 ts"
  have "mtp_collect (st(n \<mapsto> e)) 10 (Some a) = Some (take 10 ts)"
    using mtp_collect_take [OF mtp_collect_add [OF ts(1) assms(2)], of 10] by simp
  then have "mtp_collect (st(n \<mapsto> e)) 11 (Some n) = Some ?ts"
    using mtp_collect_step [of "st(n \<mapsto> e)" n e 10] assms(3) by simp
  moreover have "m \<le> sort ?ts ! (length ?ts div 2)"
  proof -
    have "length (filter (\<lambda>x. x < m) ts) \<le> length ts div 2" using nth_sort_ge [OF l(1), of m] ts(2) by simp
    moreover have "length (filter (\<lambda>x. x < m) (take 10 ts)) \<le> length (filter (\<lambda>x. x < m) ts)"
      by (metis append_take_drop_id filter_append le_add1 length_append)
    moreover have "length ts div 2 \<le> length ?ts div 2" using l(2) by (cases "length ts \<le> 10") auto
    ultimately show ?thesis using assms(4) by (subst nth_sort_ge) auto
  qed
  ultimately show ?thesis by (simp add: median_time_past_sort)
qed

section \<open>Properties\<close>

text \<open>
  C17: on a well-formed index the skip-list search returns exactly the ancestor that walking
  \<^verbatim>\<open>pprev\<close> the right number of times reaches, and NULL exactly when that walk runs off the chain.
\<close>

theorem get_ancestor_equivalent:
  assumes "index_wf st" "st a = Some b" "0 \<le> height" "height \<le> bi_nHeight b"
  shows "block_index_get_ancestor st a height = Some (walk_prev st a (nat (bi_nHeight b - height)))"
  using assms by (rule get_ancestor_walk)

text \<open>C26: building the skip pointer of an entry keeps the index well-formed.\<close>

theorem build_skip_preserves_index:
  assumes "index_wf st" "block_index_build_skip st a = Some st'"
  shows "index_wf st'"
  using assms by (rule build_skip_wf)

definition sample_entry :: "addr option \<Rightarrow> int \<Rightarrow> block_index" where
  "sample_entry prev h = \<lparr>pprev = prev, pskip = None, bi_hashBlock = [], bi_nChainWork = [],
     bi_hashMerkleRoot = [], bi_hashFinalSaplingRoot = [], bi_nHeight = h, bi_nStatus = 0,
     bi_nVersion = 4, bi_nTime = 0, bi_nBits = 0\<rparr>"

definition sample_store :: store where
  "sample_store = [0 \<mapsto> sample_entry None 0, 1 \<mapsto> sample_entry (Some 0) 1, 2 \<mapsto> sample_entry (Some 1) 2]"

lemma sample_store_wf: "index_wf sample_store"
  by (auto simp: index_wf_def sample_store_def sample_entry_def split: if_splits)

theorem get_ancestor_equivalent_witness:
  "block_index_get_ancestor sample_store 2 0 = Some (walk_prev sample_store 2 (nat (bi_nHeight (sample_entry (Some 1) 2) - 0)))"
  by (rule get_ancestor_equivalent)
    (simp_all add: sample_store_wf, simp_all add: sample_store_def sample_entry_def)

theorem build_skip_preserves_index_witness:
  "index_wf (sample_store(2 \<mapsto> (sample_entry (Some 1) 2)\<lparr>pskip := Some 0\<rparr>))"
proof (rule build_skip_preserves_index [OF sample_store_wf, of 2])
  have skip: "get_skip_height 2 = 0" by (simp add: get_skip_height_def invert_lowest_one_def)
  show "block_index_build_skip sample_store 2 = Some (sample_store(2 \<mapsto> (sample_entry (Some 1) 2)\<lparr>pskip := Some 0\<rparr>))"
    using get_ancestor_walk [OF sample_store_wf, of 1 "sample_entry (Some 0) 1" 0]
    by (simp add: block_index_build_skip_def sample_store_def sample_entry_def skip)
qed

text \<open>
  C27: the median time past is the middle element of the sorted times of the entry and its up to
  ten predecessors; the in-place insertion sort is correct.
\<close>

theorem median_time_past_correct:
  "block_index_get_median_time_past st bi =
     (case mtp_collect st 11 (Some bi) of
        None \<Rightarrow> None
      | Some ts \<Rightarrow> Some (sort ts ! (length ts div 2)))"
  by (simp add: median_time_past_sort split: option.split)

end
