(* ===== verification/Pow.thy ===== *)
theory Pow
  imports Compact_Target Params Block_Index
begin

text \<open>
  Proof of work: \<^verbatim>\<open>domain/consensus/src/pow.c\<close> and \<^verbatim>\<open>verify.c\<close>, and the callers in
  \<^verbatim>\<open>lib/chain/src/pow.c\<close> that walk the block index. The outer option of a result is \<open>None\<close> when
  the C code would run into undefined behaviour or a failed assertion; NULL arguments, errors and
  out-pointers are as in \<^verbatim>\<open>Params\<close>.
\<close>

section \<open>Model\<close>

datatype pow_err = POW_NULL_PARAMS | POW_NULL_OUT | POW_BAD_DIVISOR

definition domain_consensus_block_proof :: "u32 \<Rightarrow> bool \<Rightarrow> pow_err + arith_uint256" where
  "domain_consensus_block_proof n_bits out =
     (if \<not> out then Inl POW_NULL_OUT
      else
        (let (bnTarget, fNegative, fOverflow) = arith_uint256_set_compact n_bits
         in if fNegative \<or> fOverflow \<or> arith_uint256_is_zero bnTarget
            then Inr arith_uint256_set_zero
            else
              (let notTarget = arith_uint256_complement bnTarget;
                   one = arith_uint256_set_u64 1;
                   targetPlusOne = arith_uint256_add bnTarget one;
                   result = arith_uint256_div notTarget targetPlusOne
               in Inr (arith_uint256_add result one))))"

definition domain_consensus_increase_difficulty_by ::
  "u32 \<Rightarrow> int \<Rightarrow> consensus_params option \<Rightarrow> bool \<Rightarrow> (pow_err + u32) option" where
  "domain_consensus_increase_difficulty_by n_bits multiplier params out =
     (case params of
        None \<Rightarrow> Some (Inl POW_NULL_PARAMS)
      | Some p \<Rightarrow>
          if \<not> out then Some (Inl POW_NULL_OUT)
          else if multiplier = 0 then Some (Inl POW_BAD_DIVISOR)
          else
            (let (target, _, _) = arith_uint256_set_compact n_bits;
                 target = arith_uint256_div target (arith_uint256_set_u64 (u64_of_int multiplier));
                 pow_limit = uint256_to_arith (powLimit p);
                 target = (if arith_uint256_compare target pow_limit > 0 then pow_limit else target)
             in do { bits \<leftarrow> arith_uint256_get_compact target False; Some (Inr bits) }))"

definition domain_consensus_calculate_next_work_required ::
  "arith_uint256 \<Rightarrow> int \<Rightarrow> int \<Rightarrow> consensus_params option \<Rightarrow> int \<Rightarrow> bool \<Rightarrow> (pow_err + u32) option" where
  "domain_consensus_calculate_next_work_required bn_avg last_block_time first_block_time params next_height out =
     (case params of
        None \<Rightarrow> Some (Inl POW_NULL_PARAMS)
      | Some p \<Rightarrow>
          if \<not> out then Some (Inl POW_NULL_OUT)
          else
            do { avgTimespan \<leftarrow> consensus_averaging_window_timespan p next_height;
                 minTimespan \<leftarrow> consensus_min_actual_timespan p next_height;
                 maxTimespan \<leftarrow> consensus_max_actual_timespan p next_height;
                 actual \<leftarrow> ck64 (last_block_time - first_block_time);
                 d \<leftarrow> ck64 (actual - avgTimespan);
                 actual \<leftarrow> ck64 (avgTimespan + c_div d 4);
                 let actual = (if actual < minTimespan then minTimespan else actual);
                     actual = (if actual > maxTimespan then maxTimespan else actual);
                     bnPowLimit = uint256_to_arith (powLimit p);
                     bnNew = arith_uint256_div bn_avg (arith_uint256_set_u64 (u64_of_int avgTimespan));
                     bnNew = arith_uint256_mul bnNew (arith_uint256_set_u64 (u64_of_int actual));
                     bnNew = (if arith_uint256_compare bnNew bnPowLimit > 0 then bnPowLimit else bnNew)
                 in do { bits \<leftarrow> arith_uint256_get_compact bnNew False; Some (Inr bits) } })"

datatype verify_err = VERIFY_NULL_ARG | POW_TARGET_INVALID | POW_TARGET_BELOW_MIN | POW_HASH_ABOVE_TARGET

definition domain_consensus_verify_pow_solution ::
  "uint256 option \<Rightarrow> u32 \<Rightarrow> consensus_params option \<Rightarrow> verify_err + unit" where
  "domain_consensus_verify_pow_solution block_hash n_bits params =
     (case (block_hash, params) of
        (Some h, Some p) \<Rightarrow>
          (let (target, fNegative, fOverflow) = arith_uint256_set_compact n_bits
           in if fNegative \<or> fOverflow \<or> arith_uint256_is_zero target then Inl POW_TARGET_INVALID
              else if arith_uint256_compare target (uint256_to_arith (powLimit p)) > 0
                   then Inl POW_TARGET_BELOW_MIN
              else if arith_uint256_compare (uint256_to_arith h) target > 0
                   then Inl POW_HASH_ABOVE_TARGET
              else Inr ())
      | _ \<Rightarrow> Inl VERIFY_NULL_ARG)"

subsection \<open>\<^verbatim>\<open>lib/chain/src/pow.c\<close>\<close>

definition IncreaseDifficultyBy :: "u32 \<Rightarrow> int \<Rightarrow> consensus_params option \<Rightarrow> u32 option" where
  "IncreaseDifficultyBy nBits multiplier params =
     do { r \<leftarrow> domain_consensus_increase_difficulty_by nBits multiplier params True;
          Some (case r of Inl _ \<Rightarrow> nBits | Inr b \<Rightarrow> b) }"

definition CalculateNextWorkRequired ::
  "arith_uint256 \<Rightarrow> int \<Rightarrow> int \<Rightarrow> consensus_params option \<Rightarrow> int \<Rightarrow> u32 option" where
  "CalculateNextWorkRequired bnAvg nLastBlockTime nFirstBlockTime params nextHeight =
     do { r \<leftarrow> domain_consensus_calculate_next_work_required bnAvg nLastBlockTime nFirstBlockTime
                 params nextHeight True;
          case r of
            Inr b \<Rightarrow> Some b
          | Inl _ \<Rightarrow>
              (case params of
                 Some p \<Rightarrow> arith_uint256_get_compact (uint256_to_arith (powLimit p)) False
               | None \<Rightarrow> Some 0) }"

text \<open>The summing loop of \<^verbatim>\<open>GetNextWorkRequired\<close>: the accumulated targets and where it stopped.\<close>

fun window_loop :: "store \<Rightarrow> nat \<Rightarrow> addr option \<Rightarrow> arith_uint256 \<Rightarrow> (arith_uint256 \<times> addr option) option" where
  "window_loop st 0 p bnTot = Some (bnTot, p)"
| "window_loop st (Suc n) None bnTot = Some (bnTot, None)"
| "window_loop st (Suc n) (Some a) bnTot =
     (case st a of
        None \<Rightarrow> None
      | Some b \<Rightarrow>
          window_loop st n (pprev b)
            (arith_uint256_add bnTot (fst (arith_uint256_set_compact (bi_nBits b)))))"

text \<open>The test \<^verbatim>\<open>pblock && pblock.time > last.time + spacing * k\<close>; only the time of the header is read.\<close>

definition header_late :: "u32 option \<Rightarrow> block_index \<Rightarrow> int \<Rightarrow> int \<Rightarrow> bool option" where
  "header_late pblock prev spacing k =
     (case pblock of
        None \<Rightarrow> Some False
      | Some t \<Rightarrow>
          do { m \<leftarrow> ck64 (spacing * k);
               bound \<leftarrow> ck64 (block_index_get_time prev + m);
               Some (uint t > bound) })"

definition scaled_at_fork :: "consensus_params \<Rightarrow> int \<Rightarrow> bool" where
  "scaled_at_fork p nHeight \<longleftrightarrow> scaleDifficultyAtUpgradeFork p \<and>
     ((activation_height p UPGRADE_DIFFADJ \<le> nHeight \<and>
       nHeight < activation_height p UPGRADE_DIFFADJ + nPowAveragingWindow p) \<or>
      (activation_height p UPGRADE_BUTTERCUP \<le> nHeight \<and>
       nHeight < activation_height p UPGRADE_BUTTERCUP + nPowAveragingWindow p))"

text \<open>The two early exits of \<^verbatim>\<open>GetNextWorkRequired\<close> that depend on the header's time; \<open>Some None\<close>
  means that neither fires.\<close>

definition fork_scaling :: "u32 option \<Rightarrow> block_index \<Rightarrow> consensus_params \<Rightarrow> u32 \<Rightarrow> int \<Rightarrow> u32 option option" where
  "fork_scaling pblock prev p limit nHeight =
     (if scaled_at_fork p nHeight then
        do { spacing \<leftarrow> consensus_pow_target_spacing p nHeight;
             late12 \<leftarrow> header_late pblock prev spacing 12;
             if late12 then Some (Some limit)
             else do { late6 \<leftarrow> header_late pblock prev spacing 6;
                       if late6 then map_option Some (IncreaseDifficultyBy limit 128 (Some p))
                       else do { late2 \<leftarrow> header_late pblock prev spacing 2;
                                 if late2 then map_option Some (IncreaseDifficultyBy limit 256 (Some p))
                                 else Some None } } }
      else Some None)"

definition min_difficulty :: "u32 option \<Rightarrow> block_index \<Rightarrow> consensus_params \<Rightarrow> u32 \<Rightarrow> int \<Rightarrow> u32 option option" where
  "min_difficulty pblock prev p limit nHeight =
     (if nPowAllowMinDifficultyEnabled p \<and>
         nPowAllowMinDifficultyBlocksAfterHeight p \<le> bi_nHeight prev then
        do { spacing \<leftarrow> consensus_pow_target_spacing p nHeight;
             late6 \<leftarrow> header_late pblock prev spacing 6;
             Some (if late6 then Some limit else None) }
      else Some None)"

definition averaged_work :: "store \<Rightarrow> addr \<Rightarrow> consensus_params \<Rightarrow> u32 \<Rightarrow> int \<Rightarrow> u32 option" where
  "averaged_work st pindexLast p limit nextHeight =
     (if nPowAveragingWindow p \<le> 0 then Some limit
      else
        do { (bnTot, pindexFirst) \<leftarrow>
               window_loop st (nat (nPowAveragingWindow p)) (Some pindexLast) arith_uint256_set_zero;
             case pindexFirst of
               None \<Rightarrow> Some limit
             | Some first \<Rightarrow>
                 do { let bnAvg = arith_uint256_div bnTot
                                    (arith_uint256_set_u64 (u64_of_int (nPowAveragingWindow p)))
                      in do { tl \<leftarrow> block_index_get_median_time_past st pindexLast;
                              tf \<leftarrow> block_index_get_median_time_past st first;
                              CalculateNextWorkRequired bnAvg tl tf (Some p) nextHeight } } })"

definition GetNextWorkRequired ::
  "store \<Rightarrow> addr option \<Rightarrow> u32 option \<Rightarrow> consensus_params \<Rightarrow> u32 option" where
  "GetNextWorkRequired st pindexLast pblock p =
     do { limit \<leftarrow> arith_uint256_get_compact (uint256_to_arith (powLimit p)) False;
          case pindexLast of
            None \<Rightarrow> Some limit
          | Some a \<Rightarrow>
              (case st a of
                 None \<Rightarrow> None
               | Some prev \<Rightarrow>
                   do { nHeight \<leftarrow> ck32 (bi_nHeight prev + 1);
                        e1 \<leftarrow> fork_scaling pblock prev p limit nHeight;
                        case e1 of
                          Some b \<Rightarrow> Some b
                        | None \<Rightarrow>
                            do { e2 \<leftarrow> min_difficulty pblock prev p limit nHeight;
                                 case e2 of
                                   Some b \<Rightarrow> Some b
                                 | None \<Rightarrow> averaged_work st a p limit nHeight } }) }"

definition CheckProofOfWork :: "uint256 \<Rightarrow> u32 \<Rightarrow> consensus_params option \<Rightarrow> bool" where
  "CheckProofOfWork hash nBits params =
     (case domain_consensus_verify_pow_solution (Some hash) nBits params of
        Inl _ \<Rightarrow> False | Inr _ \<Rightarrow> True)"

definition GetBlockProof :: "block_index option \<Rightarrow> arith_uint256" where
  "GetBlockProof block =
     (case block of
        None \<Rightarrow> arith_uint256_set_zero
      | Some b \<Rightarrow>
          (case domain_consensus_block_proof (bi_nBits b) True of
             Inl _ \<Rightarrow> arith_uint256_set_zero | Inr w \<Rightarrow> w))"

definition GetBlockProofEquivalentTime ::
  "block_index \<Rightarrow> block_index \<Rightarrow> block_index \<Rightarrow> consensus_params \<Rightarrow> int option" where
  "GetBlockProofEquivalentTime to from tip p =
     (let (r, sign) = (if arith_uint256_compare (bi_nChainWork to) (bi_nChainWork from) > 0
                       then (arith_uint256_sub (bi_nChainWork to) (bi_nChainWork from), 1)
                       else (arith_uint256_sub (bi_nChainWork from) (bi_nChainWork to), -1))
      in do { spacing \<leftarrow> consensus_pow_target_spacing p (bi_nHeight tip);
              let tmp = arith_uint256_mul r (arith_uint256_set_u64 (u64_of_int spacing));
                  r = arith_uint256_div tmp (GetBlockProof (Some tip))
              in Some (if arith_uint256_bits r > 63 then sign * INT64_MAX
                       else sign * uint (arith_uint256_get_low64 r)) })"

text \<open>The ranges of the retargeting parameters, which all three networks respect.\<close>

definition retarget_wf :: "consensus_params \<Rightarrow> bool" where
  "retarget_wf p \<longleftrightarrow> params_wf p \<and> 0 < nPowAveragingWindow p \<and> nPowAveragingWindow p \<le> 1000 \<and>
     0 < nPreButtercupPowTargetSpacing p \<and> nPreButtercupPowTargetSpacing p \<le> 10000 \<and>
     0 < nPostButtercupPowTargetSpacing p \<and> nPostButtercupPowTargetSpacing p \<le> 10000 \<and>
     0 \<le> nPowMaxAdjustUp p \<and> nPowMaxAdjustUp p \<le> 100 \<and>
     0 \<le> nPowMaxAdjustDown p \<and> nPowMaxAdjustDown p \<le> 100"

text \<open>The timespan a window of measured length \<open>actual\<close> is credited with.\<close>

definition credited_timespan :: "consensus_params \<Rightarrow> int \<Rightarrow> int \<Rightarrow> int" where
  "credited_timespan p T actual =
     min (T * (100 + nPowMaxAdjustDown p) div 100)
         (max (T * (100 - nPowMaxAdjustUp p) div 100) (T + c_div (actual - T) 4))"

text \<open>
  The sum over a window fits in 256 bits. On regtest it does so with nothing to spare: 17 times its
  limit is \<open>2 ^ 256 - 1\<close>.
\<close>

definition limit_wf :: "consensus_params \<Rightarrow> bool" where
  "limit_wf p \<longleftrightarrow> nat (nPowAveragingWindow p) * words_val (powLimit p) < 2 ^ 256 \<and> words_val (powLimit p) < 2 ^ 255"

definition within_limit :: "consensus_params \<Rightarrow> u32 \<Rightarrow> bool" where
  "within_limit p bits \<longleftrightarrow> \<not> compact_negative bits \<and> compact_value bits \<le> words_val (powLimit p)"

definition targets_wf :: "consensus_params \<Rightarrow> store \<Rightarrow> bool" where
  "targets_wf p st \<longleftrightarrow> (\<forall>a b. st a = Some b \<longrightarrow> within_limit p (bi_nBits b))"

section \<open>Work of a block\<close>

lemma length_set_zero [simp]: "length arith_uint256_set_zero = 8"
  by (simp add: arith_uint256_set_zero_def)

lemma words_val_set_zero [simp]: "words_val arith_uint256_set_zero = 0"
  by (simp add: arith_uint256_set_zero_def)

text \<open>
  C19: the work credited to a block whose \<^verbatim>\<open>nBits\<close> encodes a usable target \<open>T\<close> is exactly
  \<open>2 ^ 256 div (T + 1)\<close>, computed without a 257-bit intermediate, and zero when the encoding is
  negative, overflows or denotes zero.
\<close>

theorem block_proof_exact:
  "\<exists>w. domain_consensus_block_proof n_bits True = Inr w \<and> length w = 8 \<and>
       words_val w = (if compact_valid n_bits then 2 ^ 256 div (compact_value n_bits + 1) else 0)"
proof -
  obtain a neg ovf where s: "arith_uint256_set_compact n_bits = (a, neg, ovf)" by (metis prod_cases3)
  note U = set_compact_usable [OF s] and L = set_compact_val(1) [OF s]
  show ?thesis
  proof (cases "compact_valid n_bits")
    case True
    then have "0 < words_val a" using U(2) by (simp add: compact_valid_def)
    note W = limbs.work_of_target [OF L this]
    have ok: "\<not> (neg \<or> ovf \<or> arith_uint256_is_zero a)" using U(1) True by blast
    let ?w = "arith_uint256_add (arith_uint256_div (arith_uint256_complement a)
                (arith_uint256_add a (arith_uint256_set_u64 1))) (arith_uint256_set_u64 1)"
    have "domain_consensus_block_proof n_bits True = Inr ?w"
      using ok by (simp only: domain_consensus_block_proof_def s Let_def prod.case if_False not_True_eq_False)
    moreover have "length ?w = 8" using L by (intro limbs.wf_ops)
    ultimately show ?thesis using W True by (metis U(2))
  next
    case False
    then have "neg \<or> ovf \<or> arith_uint256_is_zero a" using U(1) by blast
    then have "domain_consensus_block_proof n_bits True = Inr arith_uint256_set_zero"
      by (simp only: domain_consensus_block_proof_def s Let_def prod.case if_False if_True not_True_eq_False)
    then show ?thesis using False by simp
  qed
qed

section \<open>Acceptance of a solution\<close>

lemma verify_pow_iff:
  assumes "length h = 32" "length (powLimit p) = 32"
  shows "domain_consensus_verify_pow_solution (Some h) n_bits (Some p) = Inr () \<longleftrightarrow>
         compact_valid n_bits \<and> compact_value n_bits \<le> words_val (powLimit p) \<and>
         words_val h \<le> compact_value n_bits"
proof -
  obtain a neg ovf where s: "arith_uint256_set_compact n_bits = (a, neg, ovf)" by (metis prod_cases3)
  note U = set_compact_usable [OF s] and L = set_compact_val(1) [OF s]
  have c1: "arith_uint256_compare a (uint256_to_arith (powLimit p)) > 0 \<longleftrightarrow> words_val (powLimit p) < words_val a"
    using assms L by (simp add: compare_spec words_val_uint256_to_arith)
  have c2: "arith_uint256_compare (uint256_to_arith h) a > 0 \<longleftrightarrow> words_val a < words_val h"
    using assms L by (simp add: compare_spec words_val_uint256_to_arith)
  show ?thesis
  proof (cases "compact_valid n_bits")
    case True
    then have ok: "\<not> (neg \<or> ovf \<or> arith_uint256_is_zero a)" "words_val a = compact_value n_bits" using U by blast+
    then show ?thesis using True c1 c2
      by (auto simp only: domain_consensus_verify_pow_solution_def s Let_def prod.case option.case not_less split: if_splits)
  next
    case False
    then have "neg \<or> ovf \<or> arith_uint256_is_zero a" using U(1) by blast
    then show ?thesis using False
      by (simp add: domain_consensus_verify_pow_solution_def s Let_def)
  qed
qed

text \<open>
  C20: a header hash is accepted exactly when \<^verbatim>\<open>nBits\<close> encodes a usable target that is not easier
  than the chain's limit and the hash, read as a little-endian number, does not exceed it.
\<close>

theorem verify_pow_accepts_iff:
  assumes "length h = 32" "length (powLimit p) = 32"
  shows "domain_consensus_verify_pow_solution (Some h) n_bits (Some p) = Inr () \<longleftrightarrow>
         compact_valid n_bits \<and> compact_value n_bits \<le> words_val (powLimit p) \<and>
         words_val h \<le> compact_value n_bits"
  using assms by (rule verify_pow_iff)

theorem verify_pow_accepts_iff_witness:
  "domain_consensus_verify_pow_solution (Some (replicate 32 0)) 0x2003ffff (Some (consensus mainParams)) = Inr () \<longleftrightarrow>
     compact_valid 0x2003ffff \<and> compact_value 0x2003ffff \<le> words_val (powLimit (consensus mainParams)) \<and>
     words_val (replicate 32 (0::u8)) \<le> compact_value 0x2003ffff"
  by (rule verify_pow_accepts_iff) (simp_all add: mainParams_def)

section \<open>Retargeting\<close>

text \<open>Clamping to the limit and encoding never asserts and never exceeds the limit.\<close>

lemma clamp_encode:
  assumes "length a = 8" "length l = 8"
  shows "\<exists>c. arith_uint256_get_compact (if arith_uint256_compare a l > 0 then l else a) False = Some c \<and>
             \<not> compact_negative c \<and> compact_value c \<le> min (words_val a) (words_val l) \<and>
             (min (words_val a) (words_val l) - compact_value c) * 2 ^ 15 \<le> compact_value c"
proof -
  let ?m = "if arith_uint256_compare a l > 0 then l else a"
  note C = limbs.clamp [OF assms]
  obtain c where c: "arith_uint256_get_compact ?m False = Some c" using get_compact_spec [OF C(1)] by metis
  obtain a' neg ovf where s: "arith_uint256_set_compact c = (a', neg, ovf)" by (metis prod_cases3)
  note G = get_set_compact [OF C(1) c s] and S = set_compact_val [OF s]
  have "compact_value c < 2 ^ 256" using S(4) G(2) by (metis not_le)
  then have "words_val a' = compact_value c" by (simp only: S(2) mod_less)
  moreover have "\<not> compact_negative c" using S(3) G(1) unfolding compact_negative_def by blast
  ultimately show ?thesis using c G(3,4) C(2) by metis
qed

lemma timespans:
  assumes "retarget_wf p" "0 \<le> h"
  shows "\<exists>T. consensus_averaging_window_timespan p h = Some T \<and> 0 < T \<and> T \<le> 10000000 \<and>
    consensus_min_actual_timespan p h = Some (T * (100 - nPowMaxAdjustUp p) div 100) \<and>
    consensus_max_actual_timespan p h = Some (T * (100 + nPowMaxAdjustDown p) div 100)"
proof -
  define s where "s = (if dcu_is_active h p UPGRADE_BUTTERCUP then nPostButtercupPowTargetSpacing p
                       else nPreButtercupPowTargetSpacing p)"
  define T where "T = nPowAveragingWindow p * s"
  have r: "0 < nPowAveragingWindow p" "nPowAveragingWindow p \<le> 1000" "0 < s" "s \<le> 10000"
    "0 \<le> nPowMaxAdjustUp p" "nPowMaxAdjustUp p \<le> 100" "0 \<le> nPowMaxAdjustDown p" "nPowMaxAdjustDown p \<le> 100"
    using assms(1) by (auto simp: retarget_wf_def s_def)
  have T: "0 < T" "T \<le> 10000000"
    using r mult_mono [of "nPowAveragingWindow p" 1000 s 10000] by (simp_all add: T_def)
  have avg: "consensus_averaging_window_timespan p h = Some T"
    using assms(2) T by (simp add: consensus_averaging_window_timespan_def consensus_pow_target_spacing_def
        upgrade_active_iff s_def [symmetric] T_def [symmetric] ck64_def is_int64_def)
  have lo: "0 \<le> T * (100 - nPowMaxAdjustUp p)" "T * (100 - nPowMaxAdjustUp p) \<le> 1000000000"
    using T r mult_mono [of T 10000000 "100 - nPowMaxAdjustUp p" 100] by auto
  have hi: "0 \<le> T * (100 + nPowMaxAdjustDown p)" "T * (100 + nPowMaxAdjustDown p) \<le> 2000000000"
    using T r mult_mono [of T 10000000 "100 + nPowMaxAdjustDown p" 200] by auto
  have "is_int64 (T * (100 - nPowMaxAdjustUp p))" "is_int64 (T * (100 + nPowMaxAdjustDown p))"
    "is_int64 (100 - nPowMaxAdjustUp p)" "is_int64 (100 + nPowMaxAdjustDown p)"
    using lo hi r unfolding is_int64_def by linarith+
  then show ?thesis using avg T lo hi
    by (simp add: consensus_min_actual_timespan_def consensus_max_actual_timespan_def ck64_def ck_div_def c_div_nonneg del: mult_nonneg_nonneg)
qed

lemma credited_timespan_bounds:
  assumes "retarget_wf p" "0 < T"
  shows "0 \<le> credited_timespan p T d" "credited_timespan p T d \<le> T * (100 + nPowMaxAdjustDown p) div 100"
proof -
  have "0 \<le> T * (100 - nPowMaxAdjustUp p) div 100" "0 \<le> T * (100 + nPowMaxAdjustDown p) div 100"
    using assms by (simp_all add: retarget_wf_def pos_imp_zdiv_nonneg_iff)
  then show "0 \<le> credited_timespan p T d" "credited_timespan p T d \<le> T * (100 + nPowMaxAdjustDown p) div 100"
    unfolding credited_timespan_def by linarith+
qed

text \<open>Multiplying by the credited timespan cannot leave 256 bits when the average is at most half.\<close>

lemma scaled_average_bound:
  fixes v T m d :: nat
  assumes "m \<le> T * (100 + d) div 100" "d \<le> 100"
  shows "v div T * m \<le> 2 * v"
proof -
  have "T * (100 + d) div 100 \<le> T * 200 div 100" using assms(2) by (intro div_le_mono mult_le_mono2) simp
  then have "m \<le> 2 * T" using assms(1) by simp
  then have "v div T * m \<le> v div T * (2 * T)" by (rule mult_le_mono2)
  also have "\<dots> \<le> 2 * v" using div_times_less_eq_dividend [of v T] by (simp add: mult.left_commute)
  finally show ?thesis .
qed

lemma u64_of_int_unat: "0 \<le> x \<Longrightarrow> x < 2 ^ 64 \<Longrightarrow> unat (u64_of_int x) = nat x"
  by (simp add: u64_of_int_def unat_eq_nat_uint uint_word_of_int)

lemma retarget_core:
  assumes "retarget_wf p" "0 \<le> h" "length avg = 8" "words_val avg < 2 ^ 255"
    "0 \<le> first" "first < 2 ^ 32" "0 \<le> prev" "prev < 2 ^ 32"
  shows "\<exists>T bits new. consensus_averaging_window_timespan p h = Some T \<and> 0 < T \<and>
      domain_consensus_calculate_next_work_required avg prev first (Some p) h True = Some (Inr bits) \<and>
      new = min (words_val avg div nat T * nat (credited_timespan p T (prev - first))) (words_val (powLimit p)) \<and>
      \<not> compact_negative bits \<and> compact_value bits \<le> new \<and>
      (new - compact_value bits) * 2 ^ 15 \<le> compact_value bits"
proof -
  obtain T where T: "consensus_averaging_window_timespan p h = Some T" "0 < T" "T \<le> 10000000"
    "consensus_min_actual_timespan p h = Some (T * (100 - nPowMaxAdjustUp p) div 100)"
    "consensus_max_actual_timespan p h = Some (T * (100 + nPowMaxAdjustDown p) div 100)"
    using timespans [OF assms(1,2)] by blast
  let ?t = "credited_timespan p T (prev - first)"
  note tb = credited_timespan_bounds [OF assms(1) T(2), of "prev - first"]
  have down: "nPowMaxAdjustDown p \<le> 100" "0 \<le> nPowMaxAdjustDown p" using assms(1) by (auto simp: retarget_wf_def)
  have tmax: "?t \<le> 20000000"
  proof -
    have "T * (100 + nPowMaxAdjustDown p) \<le> 10000000 * 200" using T down by (intro mult_mono) auto
    then show ?thesis using tb(2) by linarith
  qed
  have uT: "unat (u64_of_int T) = nat T" by (rule u64_of_int_unat) (use T in simp_all)
  have ut: "unat (u64_of_int ?t) = nat ?t" by (rule u64_of_int_unat) (use tb tmax in simp_all)
  let ?new = "arith_uint256_mul (arith_uint256_div avg (arith_uint256_set_u64 (u64_of_int T))) (arith_uint256_set_u64 (u64_of_int ?t))"
  have "words_val avg div nat T * nat ?t \<le> 2 * words_val avg"
  proof (rule scaled_average_bound)
    show "nat ?t \<le> nat T * (100 + nat (nPowMaxAdjustDown p)) div 100"
      using tb down T by (simp add: nat_le_iff zdiv_int)
  qed (use down in simp)
  also have "\<dots> < 2 ^ 256" using assms(4) by simp
  finally have bound: "words_val avg div unat (u64_of_int T) * unat (u64_of_int ?t) < 2 ^ 256" by (simp only: uT ut)
  have new: "words_val ?new = words_val avg div nat T * nat ?t"
    using limbs.scale [OF assms(3) bound] by (simp only: uT ut)
  have len: "length ?new = 8" using assms(3) by (intro limbs.wf_ops)
  have lim32: "length (powLimit p) = 32" using assms(1) by (simp add: retarget_wf_def params_wf_def)
  obtain c where c: "arith_uint256_get_compact (if arith_uint256_compare ?new (uint256_to_arith (powLimit p)) > 0
        then uint256_to_arith (powLimit p) else ?new) False = Some c" "\<not> compact_negative c"
    "compact_value c \<le> min (words_val ?new) (words_val (powLimit p))"
    "(min (words_val ?new) (words_val (powLimit p)) - compact_value c) * 2 ^ 15 \<le> compact_value c"
    using clamp_encode [OF len length_uint256_to_arith, of "powLimit p"]
    unfolding words_val_uint256_to_arith [OF lim32] by blast
  have d: "\<bar>c_div (prev - first - T) 4\<bar> \<le> \<bar>prev - first - T\<bar>" by (rule c_div_abs_le)
  have i64: "is_int64 (prev - first)" "is_int64 (prev - first - T)" "is_int64 (T + c_div (prev - first - T) 4)"
    using assms(5-8) T d by (auto simp: is_int64_def)
  let ?x = "T + c_div (prev - first - T) 4"
  let ?lo = "T * (100 - nPowMaxAdjustUp p) div 100" and ?hi = "T * (100 + nPowMaxAdjustDown p) div 100"
  define t' where "t' = (if (if ?x < ?lo then ?lo else ?x) > ?hi then ?hi else (if ?x < ?lo then ?lo else ?x))"
  let ?N = "arith_uint256_mul (arith_uint256_div avg (arith_uint256_set_u64 (u64_of_int T))) (arith_uint256_set_u64 (u64_of_int t'))"
  have t': "t' = ?t" unfolding t'_def credited_timespan_def min_def max_def by auto
  have "domain_consensus_calculate_next_work_required avg prev first (Some p) h True =
      arith_uint256_get_compact (if arith_uint256_compare ?N (uint256_to_arith (powLimit p)) > 0
        then uint256_to_arith (powLimit p) else ?N) False \<bind> (\<lambda>b. Some (Inr b))"
    unfolding domain_consensus_calculate_next_work_required_def t'_def
    by (simp only: T ck64_def i64 Let_def option.case bind.bind_lunit if_True if_False not_True_eq_False)
  then have "domain_consensus_calculate_next_work_required avg prev first (Some p) h True = Some (Inr c)"
    unfolding t' c(1) by simp
  then show ?thesis using c T new by metis
qed

text \<open>
  C21: the retarget of an averaged target \<open>A\<close> (at most half the range) over a window of measured
  length \<open>last - first\<close> returns an encoding, without overflow, failed assertion or division by
  zero. The number it denotes is \<open>A div T * t\<close>, capped by the proof-of-work limit and truncated
  by the encoding to within one part in \<open>2 ^ 15\<close>, where \<open>T\<close> is the ideal timespan and \<open>t\<close> the
  damped measured timespan clamped to the permitted adjustment.
\<close>

theorem next_work_formula:
  assumes "retarget_wf p" "0 \<le> h" "length avg = 8" "words_val avg < 2 ^ 255"
    "0 \<le> first" "first < 2 ^ 32" "0 \<le> prev" "prev < 2 ^ 32"
  shows "\<exists>T bits new. consensus_averaging_window_timespan p h = Some T \<and> 0 < T \<and>
      domain_consensus_calculate_next_work_required avg prev first (Some p) h True = Some (Inr bits) \<and>
      new = min (words_val avg div nat T * nat (credited_timespan p T (prev - first))) (words_val (powLimit p)) \<and>
      \<not> compact_negative bits \<and> compact_value bits \<le> new \<and>
      (new - compact_value bits) * 2 ^ 15 \<le> compact_value bits"
  using assms by (rule retarget_core)

lemma main_retarget_wf: "retarget_wf (consensus mainParams)"
  by (simp add: retarget_wf_def params_wf_def mainParams_def uint256_of_nat_def upgrade_rows_def)

theorem next_work_formula_witness:
  "\<exists>T bits new. consensus_averaging_window_timespan (consensus mainParams) 800000 = Some T \<and> 0 < T \<and>
      domain_consensus_calculate_next_work_required (arith_uint256_set_u64 1000000000) 1600001275 1600000000
        (Some (consensus mainParams)) 800000 True = Some (Inr bits) \<and>
      new = min (words_val (arith_uint256_set_u64 1000000000) div nat T *
                 nat (credited_timespan (consensus mainParams) T (1600001275 - 1600000000)))
                (words_val (powLimit (consensus mainParams))) \<and>
      \<not> compact_negative bits \<and> compact_value bits \<le> new \<and>
      (new - compact_value bits) * 2 ^ 15 \<le> compact_value bits"
  by (rule next_work_formula) (simp_all add: main_retarget_wf)

section \<open>The next target of a chain\<close>

abbreviation present :: "store \<Rightarrow> addr option \<Rightarrow> bool" where
  "present st p \<equiv> (case p of None \<Rightarrow> True | Some a \<Rightarrow> st a \<noteq> None)"

lemma present_parent: "index_wf st \<Longrightarrow> st a = Some b \<Longrightarrow> present st (pprev b)"
  using index_wf_parent [of st a b] by (auto split: option.splits)

lemma block_time_range: "0 \<le> block_index_get_time b" "block_index_get_time b < 2 ^ 32"
  using uint_range_size [of "bi_nTime b"] by (auto simp: block_index_get_time_def word_size)

lemma mtp_collect_defined:
  assumes "index_wf st" "present st p"
  shows "\<exists>ts. mtp_collect st n p = Some ts \<and> (\<forall>t \<in> set ts. 0 \<le> t \<and> t < 2 ^ 32)"
  using assms(2)
proof (induction n arbitrary: p)
  case (Suc n)
  show ?case
  proof (cases p)
    case (Some a)
    with Suc.prems obtain b where b: "st a = Some b" by auto
    from Suc.IH [OF present_parent [OF assms(1) b]] show ?thesis using Some b block_time_range [of b] by auto
  qed simp
qed simp

lemma median_time_defined:
  assumes "index_wf st" "st a = Some b"
  shows "\<exists>t. block_index_get_median_time_past st a = Some t \<and> 0 \<le> t \<and> t < 2 ^ 32"
proof -
  obtain ts where ts: "mtp_collect st 11 (Some a) = Some ts" "\<forall>t \<in> set ts. 0 \<le> t \<and> t < 2 ^ 32"
    using mtp_collect_defined [OF assms(1), of "Some a" 11] assms(2) by auto
  have "ts \<noteq> []" using ts(1) assms(2) by (auto simp: numeral_eq_Suc split: option.splits)
  then have "sort ts ! (length ts div 2) \<in> set ts"
    using nth_mem [of "length ts div 2" "sort ts"] by simp
  then show ?thesis using ts by (simp add: median_time_past_sort)
qed

lemma target_within_limit:
  assumes "within_limit p bits" "limit_wf p"
  shows "words_val (fst (arith_uint256_set_compact bits)) \<le> words_val (powLimit p)"
proof -
  obtain a neg ovf where s: "arith_uint256_set_compact bits = (a, neg, ovf)" by (metis prod_cases3)
  have "words_val a \<le> compact_value bits" unfolding set_compact_val(2) [OF s] by (rule mod_less_eq_dividend)
  then show ?thesis using assms(1) s by (simp add: within_limit_def)
qed

lemma window_loop_sum:
  assumes "index_wf st" "targets_wf p st" "limit_wf p"
  shows "present st q \<Longrightarrow> length tot = 8 \<Longrightarrow> words_val tot + n * words_val (powLimit p) < 2 ^ 256 \<Longrightarrow>
    \<exists>tot' q'. window_loop st n q tot = Some (tot', q') \<and> present st q' \<and> length tot' = 8 \<and>
      words_val tot' \<le> words_val tot + n * words_val (powLimit p)"
proof (induction n arbitrary: q tot)
  case (Suc n)
  show ?case
  proof (cases q)
    case None
    then show ?thesis using Suc.prems by simp
  next
    case (Some a)
    with Suc.prems obtain b where b: "st a = Some b" by auto
    let ?t = "fst (arith_uint256_set_compact (bi_nBits b))"
    have t: "words_val ?t \<le> words_val (powLimit p)"
      using target_within_limit [OF _ assms(3)] assms(2) b by (auto simp: targets_wf_def)
    have lt: "length ?t = 8" using set_compact_val(1) by (metis prod.collapse)
    have sum: "words_val (arith_uint256_add tot ?t) = words_val tot + words_val ?t"
      by (rule limbs.val_add_exact) (use Suc.prems lt t in simp_all)
    have "\<exists>tot' q'. window_loop st n (pprev b) (arith_uint256_add tot ?t) = Some (tot', q') \<and> present st q' \<and>
        length tot' = 8 \<and> words_val tot' \<le> words_val (arith_uint256_add tot ?t) + n * words_val (powLimit p)"
      by (rule Suc.IH) (use Suc.prems present_parent [OF assms(1) b] sum t lt in simp_all)
    then show ?thesis using Some b sum t by fastforce
  qed
qed simp

lemma limit_encoded:
  assumes "params_wf p"
  shows "\<exists>c. arith_uint256_get_compact (uint256_to_arith (powLimit p)) False = Some c \<and> within_limit p c"
  using clamp_encode [of "uint256_to_arith (powLimit p)" "uint256_to_arith (powLimit p)"] assms
  by (auto simp: within_limit_def params_wf_def words_val_uint256_to_arith)

lemma IncreaseDifficultyBy_within:
  assumes "params_wf p" "m \<noteq> 0"
  shows "\<exists>c. IncreaseDifficultyBy bits m (Some p) = Some c \<and> within_limit p c"
proof -
  obtain a neg ovf where s: "arith_uint256_set_compact bits = (a, neg, ovf)" by (metis prod_cases3)
  let ?d = "arith_uint256_div a (arith_uint256_set_u64 (u64_of_int m))"
  have "length ?d = 8" by (rule limbs.wf_div) (simp_all add: set_compact_val(1) [OF s])
  from clamp_encode [OF this length_uint256_to_arith, of "powLimit p"] assms show ?thesis
    by (auto simp: IncreaseDifficultyBy_def domain_consensus_increase_difficulty_by_def s Let_def within_limit_def
        params_wf_def words_val_uint256_to_arith split del: if_split)
qed

lemma header_late_defined:
  assumes "0 \<le> s" "s \<le> 10000" "0 \<le> k" "k \<le> 12"
  shows "\<exists>r. header_late pblock b s k = Some r"
proof -
  have "0 \<le> s * k" "s * k \<le> 120000" using assms mult_mono [of s 10000 k 12] by auto
  then have "is_int64 (s * k)" "is_int64 (block_index_get_time b + s * k)"
    using block_time_range [of b] by (auto simp: is_int64_def)
  then show ?thesis by (auto simp: header_late_def ck64_def split: option.split)
qed

lemma spacing_defined:
  assumes "retarget_wf p" "0 \<le> h"
  shows "\<exists>s. consensus_pow_target_spacing p h = Some s \<and> 0 \<le> s \<and> s \<le> 10000"
  using assms by (auto simp: consensus_pow_target_spacing_def upgrade_active_iff retarget_wf_def)

lemma fork_scaling_within:
  assumes "retarget_wf p" "0 \<le> h" "within_limit p limit"
  shows "\<exists>r. fork_scaling pblock b p limit h = Some r \<and> (\<forall>c. r = Some c \<longrightarrow> within_limit p c)"
proof -
  obtain s where s: "consensus_pow_target_spacing p h = Some s" "0 \<le> s" "s \<le> 10000"
    using spacing_defined [OF assms(1,2)] by blast
  have wf: "params_wf p" using assms(1) by (simp add: retarget_wf_def)
  obtain l12 l6 l2 where l: "header_late pblock b s 12 = Some l12" "header_late pblock b s 6 = Some l6"
    "header_late pblock b s 2 = Some l2"
    using header_late_defined [OF s(2,3), of 12 pblock b] header_late_defined [OF s(2,3), of 6 pblock b]
      header_late_defined [OF s(2,3), of 2 pblock b] by auto
  obtain c1 c2 where c: "IncreaseDifficultyBy limit 128 (Some p) = Some c1" "within_limit p c1"
     "IncreaseDifficultyBy limit 256 (Some p) = Some c2" "within_limit p c2"
    using IncreaseDifficultyBy_within [OF wf, of 128 limit] IncreaseDifficultyBy_within [OF wf, of 256 limit] by auto
  show ?thesis using assms(3) by (simp add: fork_scaling_def s(1) l c)
qed

lemma min_difficulty_within:
  assumes "retarget_wf p" "0 \<le> h" "within_limit p limit"
  shows "\<exists>r. min_difficulty pblock b p limit h = Some r \<and> (\<forall>c. r = Some c \<longrightarrow> within_limit p c)"
proof -
  obtain s where s: "consensus_pow_target_spacing p h = Some s" "0 \<le> s" "s \<le> 10000"
    using spacing_defined [OF assms(1,2)] by blast
  then obtain l6 where "header_late pblock b s 6 = Some l6" using header_late_defined [OF s(2,3), of 6 pblock b] by auto
  then show ?thesis using assms(3) by (auto simp: min_difficulty_def s(1))
qed

lemma averaged_work_within:
  assumes "retarget_wf p" "limit_wf p" "index_wf st" "targets_wf p st" "st a = Some b" "0 \<le> h" "within_limit p limit"
  shows "\<exists>c. averaged_work st a p limit h = Some c \<and> within_limit p c"
proof -
  let ?w = "nPowAveragingWindow p"
  have w: "0 < ?w" "?w \<le> 1000" using assms(1) by (simp_all add: retarget_wf_def)
  have "words_val arith_uint256_set_zero + nat ?w * words_val (powLimit p) < 2 ^ 256"
    using assms(2) by (simp add: limit_wf_def)
  then obtain tot q where loop: "window_loop st (nat ?w) (Some a) arith_uint256_set_zero = Some (tot, q)"
    and q: "present st q" and len: "length tot = 8" and le: "words_val tot \<le> nat ?w * words_val (powLimit p)"
    using window_loop_sum [OF assms(3,4,2), of "Some a" arith_uint256_set_zero "nat ?w"] assms(5) by auto
  show ?thesis
  proof (cases q)
    case None
    then show ?thesis using loop w assms(7) by (simp add: averaged_work_def)
  next
    case (Some first)
    then obtain f where f: "st first = Some f" using q by auto
    let ?avg = "arith_uint256_div tot (arith_uint256_set_u64 (u64_of_int ?w))"
    have uw: "unat (u64_of_int ?w) = nat ?w" by (rule u64_of_int_unat) (use w in simp_all)
    have avg: "length ?avg = 8" "words_val ?avg = words_val tot div nat ?w"
      using limbs.wf_div [OF len limbs.wf_of_u64, of "u64_of_int ?w"] limbs.val_div [OF len limbs.wf_of_u64, of "u64_of_int ?w"]
      by (simp_all only: limbs.val_of_u64 uw)
    have "words_val tot div nat ?w \<le> words_val (powLimit p)"
      using div_le_mono [OF le, of "nat ?w"] w by simp
    then have small: "words_val ?avg < 2 ^ 255" using avg assms(2) by (simp add: limit_wf_def)
    obtain tl tf where m: "block_index_get_median_time_past st a = Some tl" "0 \<le> tl" "tl < 2 ^ 32"
      "block_index_get_median_time_past st first = Some tf" "0 \<le> tf" "tf < 2 ^ 32"
      using median_time_defined [OF assms(3,5)] median_time_defined [OF assms(3) f] by blast
    obtain bits where "domain_consensus_calculate_next_work_required ?avg tl tf (Some p) h True = Some (Inr bits)"
      "\<not> compact_negative bits" "compact_value bits \<le> words_val (powLimit p)"
      using retarget_core [OF assms(1,6) avg(1) small m(5,6,2,3)] by (metis min.bounded_iff)
    then show ?thesis using loop Some w m
      by (simp add: averaged_work_def CalculateNextWorkRequired_def within_limit_def)
  qed
qed

lemma next_work_defined:
  assumes "retarget_wf p" "limit_wf p" "index_wf st" "targets_wf p st"
    "\<forall>a. pindexLast = Some a \<longrightarrow> (\<exists>b. st a = Some b \<and> bi_nHeight b < INT32_MAX)"
  shows "\<exists>bits. GetNextWorkRequired st pindexLast pblock p = Some bits \<and> within_limit p bits"
proof -
  obtain limit where limit: "arith_uint256_get_compact (uint256_to_arith (powLimit p)) False = Some limit" "within_limit p limit"
    using limit_encoded assms(1) by (auto simp: retarget_wf_def)
  show ?thesis
  proof (cases pindexLast)
    case None
    then show ?thesis using limit by (simp add: GetNextWorkRequired_def)
  next
    case (Some a)
    then obtain b where b: "st a = Some b" "bi_nHeight b < INT32_MAX" using assms(5) by auto
    have h: "0 \<le> bi_nHeight b" using assms(3) b unfolding index_wf_def by blast
    then have ck: "ck32 (bi_nHeight b + 1) = Some (bi_nHeight b + 1)" using b(2) by (simp add: ck32_def is_int32_def)
    have h1: "0 \<le> bi_nHeight b + 1" using h by simp
    obtain r1 where r1: "fork_scaling pblock b p limit (bi_nHeight b + 1) = Some r1" "\<forall>c. r1 = Some c \<longrightarrow> within_limit p c"
      using fork_scaling_within [OF assms(1) h1 limit(2)] by blast
    obtain r2 where r2: "min_difficulty pblock b p limit (bi_nHeight b + 1) = Some r2" "\<forall>c. r2 = Some c \<longrightarrow> within_limit p c"
      using min_difficulty_within [OF assms(1) h1 limit(2)] by blast
    obtain c where c: "averaged_work st a p limit (bi_nHeight b + 1) = Some c" "within_limit p c"
      using averaged_work_within [OF assms(1-4) b(1) h1 limit(2)] by blast
    show ?thesis using Some b limit(1) ck r1 r2 c
      by (auto simp: GetNextWorkRequired_def split: option.splits)
  qed
qed

text \<open>
  C11: on a well-formed block index whose entries carry targets within the limit, the required
  target of the next block is computed on every branch (fork scaling, minimum difficulty, short
  chain, averaging) without undefined behaviour, and it is again a non-negative target within the
  limit, so that the invariant survives appending a block with that target.
\<close>

theorem next_work_within_limit:
  assumes "retarget_wf p" "limit_wf p" "index_wf st" "targets_wf p st"
    "\<forall>a. pindexLast = Some a \<longrightarrow> (\<exists>b. st a = Some b \<and> bi_nHeight b < INT32_MAX)"
  shows "\<exists>bits. GetNextWorkRequired st pindexLast pblock p = Some bits \<and> within_limit p bits"
  using assms by (rule next_work_defined)

lemma main_powLimit: "words_val (powLimit (consensus mainParams)) = 0x0007ffffffffffffffffffffffffffffffffffffffffffffffffffffffffffff"
  by (simp add: mainParams_def words_val_uint256_of_nat)

definition demo_block :: "addr option \<Rightarrow> int \<Rightarrow> u32 \<Rightarrow> block_index" where
  "demo_block prev h t = \<lparr>pprev = prev, pskip = None, bi_hashBlock = replicate 32 0,
     bi_nChainWork = arith_uint256_set_zero, bi_hashMerkleRoot = replicate 32 0,
     bi_hashFinalSaplingRoot = replicate 32 0, bi_nHeight = h, bi_nStatus = 5, bi_nVersion = 4,
     bi_nTime = t, bi_nBits = 0x1f07ffff\<rparr>"

theorem next_work_within_limit_witness:
  "\<exists>bits. GetNextWorkRequired [0 \<mapsto> demo_block None 0 1478403829, 1 \<mapsto> demo_block (Some 0) 1 1478404000]
      (Some 1) (Some 1478405000) (consensus mainParams) = Some bits \<and> within_limit (consensus mainParams) bits"
proof (rule next_work_within_limit)
  show "retarget_wf (consensus mainParams)" by (rule main_retarget_wf)
  show "limit_wf (consensus mainParams)"
    by (simp add: limit_wf_def main_powLimit) (simp add: mainParams_def)
  show "index_wf [0 \<mapsto> demo_block None 0 1478403829, 1 \<mapsto> demo_block (Some 0) 1 1478404000]"
    by (auto simp: index_wf_def demo_block_def split: if_splits)
  show "targets_wf (consensus mainParams) [0 \<mapsto> demo_block None 0 1478403829, 1 \<mapsto> demo_block (Some 0) 1 1478404000]"
    by (auto simp: targets_wf_def demo_block_def within_limit_def main_powLimit
        compact_negative_def compact_value_def compact_mantissa_def compact_size_byte_def split: if_splits)
qed (simp add: demo_block_def)

end
