(* ===== verification/Serialize.thy ===== *)
theory Serialize
  imports Zcl_Prelude
begin

text \<open>
  The byte-stream layer, \<^verbatim>\<open>lib/core/src/serialize.c\<close>: a growable buffer with a sticky error flag and
  a read position, the little-endian integers, CompactSize and VarInt.

  A writer takes a stream and returns it with the C return value; a reader returns the stream with
  the value read, or \<open>None\<close> where the C function returns false. The allocator is the parameter
  \<open>alloc\<close>: whether a request for that many bytes succeeds. \<open>seqw\<close> and \<open>bindr\<close> are the C idioms
  \<^verbatim>\<open>a && b\<close> and \<^verbatim>\<open>if (!read(s, &x)) return false;\<close>.

  The predicates \<open>writes\<close> and \<open>reads\<close> say which bytes a writer appends and a reader consumes; they
  compose over \<open>seqw\<close> and \<open>bindr\<close>. The locale \<open>stream_codec\<close> is the contract every wire type of
  the development meets.
\<close>

section \<open>Model\<close>

record byte_stream =
  sdata :: bytes
  scapacity :: nat
  sread_pos :: nat
  serror :: bool
  sowns_data :: bool

abbreviation (input) SIZE_MAX :: nat where "SIZE_MAX \<equiv> 18446744073709551615"

type_synonym alloc = "nat \<Rightarrow> bool"
type_synonym writer = "byte_stream \<Rightarrow> byte_stream \<times> bool"
type_synonym 'a reader = "byte_stream \<Rightarrow> byte_stream \<times> 'a option"

definition seqw :: "writer \<Rightarrow> writer \<Rightarrow> writer" where
  "seqw w1 w2 s = (case w1 s of (s', ok) \<Rightarrow> if ok then w2 s' else (s', False))"

definition bindr :: "'a reader \<Rightarrow> ('a \<Rightarrow> 'b reader) \<Rightarrow> 'b reader" where
  "bindr r f s = (case r s of (s', None) \<Rightarrow> (s', None) | (s', Some x) \<Rightarrow> f x s')"

definition returnr :: "'a \<Rightarrow> 'a reader" where
  "returnr x s = (s, Some x)"

definition failr :: "'a reader" where
  "failr s = (s, None)"

definition stream_init :: "alloc \<Rightarrow> nat \<Rightarrow> byte_stream" where
  "stream_init alloc initial_capacity =
     (let s = \<lparr>sdata = [], scapacity = 0, sread_pos = 0, serror = False, sowns_data = True\<rparr>
      in if initial_capacity > 0 then
           if alloc initial_capacity then s\<lparr>scapacity := initial_capacity\<rparr> else s\<lparr>serror := True\<rparr>
         else s)"

definition stream_init_from_data :: "bytes \<Rightarrow> byte_stream" where
  "stream_init_from_data data =
     \<lparr>sdata = data, scapacity = length data, sread_pos = 0, serror = False, sowns_data = False\<rparr>"

definition stream_free :: "byte_stream \<Rightarrow> byte_stream" where
  "stream_free s = s\<lparr>sdata := [], scapacity := 0, sread_pos := 0\<rparr>"

text \<open>The doubling loop; it starts from a positive capacity.\<close>

function grow_loop :: "nat \<Rightarrow> nat \<Rightarrow> nat" where
  "grow_loop new_cap target =
     (if 0 < new_cap \<and> new_cap < target then
        if new_cap > SIZE_MAX div 2 then target else grow_loop (new_cap * 2) target
      else new_cap)"
  by pat_completeness auto
termination
  by (relation "measure (\<lambda>(new_cap, target). target - new_cap)") auto

declare grow_loop.simps [simp del]

definition stream_grow :: "alloc \<Rightarrow> nat \<Rightarrow> writer" where
  "stream_grow alloc needed s =
     (if \<not> sowns_data s then (s\<lparr>serror := True\<rparr>, False)
      else if needed > SIZE_MAX - length (sdata s) then (s\<lparr>serror := True\<rparr>, False)
      else
        (let target = length (sdata s) + needed;
             new_cap = grow_loop (if scapacity s \<noteq> 0 then scapacity s else 64) target
         in if \<not> alloc new_cap then (s\<lparr>serror := True\<rparr>, False)
            else (s\<lparr>scapacity := new_cap\<rparr>, True)))"

definition stream_write :: "alloc \<Rightarrow> bytes \<Rightarrow> writer" where
  "stream_write alloc buf s =
     (if serror s then (s, False)
      else if (length (sdata s) + length buf) mod 2 ^ 64 > scapacity s then
        (case stream_grow alloc (length buf) s of
           (s', ok) \<Rightarrow> if ok then (s'\<lparr>sdata := sdata s' @ buf\<rparr>, True) else (s', False))
      else (s\<lparr>sdata := sdata s @ buf\<rparr>, True))"

definition stream_read :: "nat \<Rightarrow> bytes reader" where
  "stream_read len s =
     (if serror s \<or> sread_pos s > length (sdata s) \<or> len > length (sdata s) - sread_pos s
      then (s\<lparr>serror := True\<rparr>, None)
      else (s\<lparr>sread_pos := sread_pos s + len\<rparr>, Some (take len (drop (sread_pos s) (sdata s)))))"

definition stream_remaining :: "byte_stream \<Rightarrow> nat" where
  "stream_remaining s =
     (if sread_pos s \<ge> length (sdata s) then 0 else length (sdata s) - sread_pos s)"

definition stream_write_u8 :: "alloc \<Rightarrow> u8 \<Rightarrow> writer" where
  "stream_write_u8 alloc v = stream_write alloc [v]"

definition stream_write_u16_le :: "alloc \<Rightarrow> u16 \<Rightarrow> writer" where
  "stream_write_u16_le alloc v = stream_write alloc [ucast (v AND 0xff), ucast (drop_bit 8 v)]"

definition stream_write_u32_le :: "alloc \<Rightarrow> u32 \<Rightarrow> writer" where
  "stream_write_u32_le alloc v =
     stream_write alloc [ucast v, ucast (drop_bit 8 v), ucast (drop_bit 16 v), ucast (drop_bit 24 v)]"

definition stream_write_u64_le :: "alloc \<Rightarrow> u64 \<Rightarrow> writer" where
  "stream_write_u64_le alloc v = stream_write alloc (map (\<lambda>i. ucast (drop_bit (8 * i) v)) [0..<8])"

definition stream_write_i32_le :: "alloc \<Rightarrow> int \<Rightarrow> writer" where
  "stream_write_i32_le alloc v = stream_write_u32_le alloc (word_of_int v)"

definition stream_write_i64_le :: "alloc \<Rightarrow> int \<Rightarrow> writer" where
  "stream_write_i64_le alloc v = stream_write_u64_le alloc (word_of_int v)"

definition stream_read_u8 :: "u8 reader" where
  "stream_read_u8 = bindr (stream_read 1) (\<lambda>buf. returnr (buf ! 0))"

definition stream_read_u16_le :: "u16 reader" where
  "stream_read_u16_le =
     bindr (stream_read 2) (\<lambda>buf. returnr (ucast (buf ! 0) OR push_bit 8 (ucast (buf ! 1))))"

definition stream_read_u32_le :: "u32 reader" where
  "stream_read_u32_le =
     bindr (stream_read 4) (\<lambda>buf. returnr (ucast (buf ! 0) OR push_bit 8 (ucast (buf ! 1)) OR
                                           push_bit 16 (ucast (buf ! 2)) OR push_bit 24 (ucast (buf ! 3))))"

definition stream_read_u64_le :: "u64 reader" where
  "stream_read_u64_le =
     bindr (stream_read 8)
       (\<lambda>buf. returnr (foldl (\<lambda>v i. v OR push_bit (8 * i) (ucast (buf ! i))) 0 [0..<8]))"

definition stream_read_i32_le :: "int reader" where
  "stream_read_i32_le = bindr stream_read_u32_le (\<lambda>v. returnr (sint v))"

definition stream_read_i64_le :: "int reader" where
  "stream_read_i64_le = bindr stream_read_u64_le (\<lambda>v. returnr (sint v))"

definition stream_write_compact_size :: "alloc \<Rightarrow> u64 \<Rightarrow> writer" where
  "stream_write_compact_size alloc sz =
     (if sz < 253 then stream_write_u8 alloc (ucast sz)
      else if sz \<le> 0xffff then
        seqw (stream_write_u8 alloc 253) (stream_write_u16_le alloc (ucast sz))
      else if sz \<le> 0xffffffff then
        seqw (stream_write_u8 alloc 254) (stream_write_u32_le alloc (ucast sz))
      else seqw (stream_write_u8 alloc 255) (stream_write_u64_le alloc sz))"

definition stream_read_compact_size :: "u64 reader" where
  "stream_read_compact_size =
     bindr stream_read_u8 (\<lambda>marker.
       if marker < 253 then returnr (ucast marker)
       else if marker = 253 then bindr stream_read_u16_le (\<lambda>v. returnr (ucast v))
       else if marker = 254 then bindr stream_read_u32_le (\<lambda>v. returnr (ucast v))
       else stream_read_u64_le)"

definition compact_size_sizeof :: "u64 \<Rightarrow> nat" where
  "compact_size_sizeof n =
     (if n < 253 then 1 else if n \<le> 0xffff then 3 else if n \<le> 0xffffffff then 5 else 9)"

lemma unat_drop_bit_7: "unat (drop_bit 7 (n::u64)) = unat n div 128"
  using unat_drop_bit_eq [of 7 n] by (simp add: drop_bit_eq_div)

lemma varint_decr: "\<not> n \<le> (0x7f::u64) \<Longrightarrow> unat (drop_bit 7 n - 1) < unat n"
proof -
  assume "\<not> n \<le> 0x7f"
  then have n: "128 \<le> unat n" by (simp add: word_le_nat_alt)
  have d: "unat (drop_bit 7 n) = unat n div 128" by (rule unat_drop_bit_7)
  then have "1 \<le> unat (drop_bit 7 n)" using n by arith
  then have "unat (drop_bit 7 n - 1) = unat n div 128 - 1"
    using d by (subst unat_sub) (simp_all add: word_le_nat_alt)
  also have "\<dots> < unat n" using n by simp
  finally show ?thesis .
qed

text \<open>The bytes \<^verbatim>\<open>tmp[0..len]\<close> of \<^verbatim>\<open>stream_write_varint\<close>, least significant group first.\<close>

function varint_tmp :: "u64 \<Rightarrow> nat \<Rightarrow> bytes" where
  "varint_tmp n len =
     (let b = ucast (n AND 0x7f) OR (if len \<noteq> 0 then 0x80 else 0x00)
      in if n \<le> 0x7f then [b] else b # varint_tmp (drop_bit 7 n - 1) (len + 1))"
  by pat_completeness auto
termination
  by (relation "measure (\<lambda>(n, len). unat n)") (use varint_decr in auto)

declare varint_tmp.simps [simp del]

fun write_u8s :: "alloc \<Rightarrow> bytes \<Rightarrow> writer" where
  "write_u8s alloc [] s = (s, True)"
| "write_u8s alloc (b # bs) s = seqw (stream_write_u8 alloc b) (write_u8s alloc bs) s"

definition stream_write_varint :: "alloc \<Rightarrow> u64 \<Rightarrow> writer" where
  "stream_write_varint alloc n = write_u8s alloc (rev (varint_tmp n 0))"

text \<open>Each round of \<^verbatim>\<open>stream_read_varint\<close> consumes a byte.\<close>

function varint_loop :: "u64 \<Rightarrow> u64 reader" where
  "varint_loop n s =
     (case stream_read_u8 s of
        (s', None) \<Rightarrow> (s', None)
      | (s', Some ch) \<Rightarrow>
          (let n' = push_bit 7 n OR ucast (ch AND 0x7f)
           in if ch AND 0x80 \<noteq> 0 then varint_loop (n' + 1) s' else (s', Some n')))"
  by pat_completeness auto
termination
  by (relation "measure (\<lambda>(n, s). length (sdata s) - sread_pos s)")
    (auto simp: stream_read_u8_def bindr_def stream_read_def returnr_def split: if_splits)

declare varint_loop.simps [simp del]

definition stream_read_varint :: "u64 reader" where
  "stream_read_varint = varint_loop 0"

definition stream_write_bytes :: "alloc \<Rightarrow> bytes \<Rightarrow> writer" where
  "stream_write_bytes alloc data = stream_write alloc data"

definition stream_read_bytes :: "nat \<Rightarrow> bytes reader" where
  "stream_read_bytes len = stream_read len"

section \<open>What writers append and readers consume\<close>

text \<open>\<open>extends s s' bs\<close>: the stream \<open>s'\<close> is \<open>s\<close> with \<open>bs\<close> appended.\<close>

definition extends :: "byte_stream \<Rightarrow> byte_stream \<Rightarrow> bytes \<Rightarrow> bool" where
  "extends s s' bs \<longleftrightarrow> sdata s' = sdata s @ bs \<and> sread_pos s' = sread_pos s \<and>
     serror s' = serror s \<and> sowns_data s' = sowns_data s"

text \<open>A stream into which \<open>n\<close> more bytes can be written when the allocator does not fail.\<close>

definition writable :: "alloc \<Rightarrow> byte_stream \<Rightarrow> nat \<Rightarrow> bool" where
  "writable alloc s n \<longleftrightarrow> (\<forall>c. alloc c) \<and> \<not> serror s \<and> sowns_data s \<and> length (sdata s) + n < 2 ^ 64"

definition writes :: "alloc \<Rightarrow> writer \<Rightarrow> bytes \<Rightarrow> bool" where
  "writes alloc w bs \<longleftrightarrow>
     (\<forall>s s'. w s = (s', True) \<longrightarrow> extends s s' bs) \<and>
     (\<forall>s. writable alloc s (length bs) \<longrightarrow> snd (w s))"

definition pending :: "byte_stream \<Rightarrow> bytes" where
  "pending s = drop (sread_pos s) (sdata s)"

definition advance :: "nat \<Rightarrow> byte_stream \<Rightarrow> byte_stream" where
  "advance n s = s\<lparr>sread_pos := sread_pos s + n\<rparr>"

definition readable :: "byte_stream \<Rightarrow> bool" where
  "readable s \<longleftrightarrow> \<not> serror s \<and> sread_pos s \<le> length (sdata s)"

definition reads :: "'a reader \<Rightarrow> bytes \<Rightarrow> 'a \<Rightarrow> bool" where
  "reads r bs x \<longleftrightarrow>
     (\<forall>s rest. readable s \<and> pending s = bs @ rest \<longrightarrow> r s = (advance (length bs) s, Some x))"

lemma pending_advance: "pending s = bs @ rest \<Longrightarrow> pending (advance (length bs) s) = rest"
  by (simp add: pending_def advance_def add.commute [of _ "length bs"] flip: drop_drop)

lemma readable_advance: "readable s \<Longrightarrow> pending s = bs @ rest \<Longrightarrow> readable (advance (length bs) s)"
  unfolding readable_def pending_def advance_def
  by (auto dest: arg_cong [where f = length])

lemma advance_advance: "advance n (advance m s) = advance (m + n) s"
  by (simp add: advance_def add.assoc)

lemma advance_0 [simp]: "advance 0 s = s"
  by (simp add: advance_def)

lemma extends_trans: "extends s s' a \<Longrightarrow> extends s' s'' b \<Longrightarrow> extends s s'' (a @ b)"
  by (simp add: extends_def)

lemma writable_extends: "extends s s' a \<Longrightarrow> writable alloc s (length a + n) \<Longrightarrow> writable alloc s' n"
  by (simp add: extends_def writable_def add.assoc)

lemma writes_seqw:
  assumes "writes alloc w1 a" "writes alloc w2 b"
  shows "writes alloc (seqw w1 w2) (a @ b)"
proof -
  have "extends s s'' (a @ b)" if w: "seqw w1 w2 s = (s'', True)" for s s''
  proof -
    obtain s' where "w1 s = (s', True)" "w2 s' = (s'', True)"
      using w by (auto simp: seqw_def split: prod.splits if_splits)
    then show ?thesis using assms unfolding writes_def by (blast intro: extends_trans)
  qed
  moreover have "snd (seqw w1 w2 s)" if w: "writable alloc s (length (a @ b))" for s
  proof -
    have "writable alloc s (length a)" using w by (simp add: writable_def)
    then obtain s' where s': "w1 s = (s', True)" using assms(1) unfolding writes_def by (metis prod.collapse)
    then have "extends s s' a" using assms(1) unfolding writes_def by blast
    then have "writable alloc s' (length b)" using writable_extends w by simp
    then show ?thesis using s' assms(2) by (simp add: seqw_def writes_def)
  qed
  ultimately show ?thesis unfolding writes_def by blast
qed

lemma reads_bindr: "reads r a x \<Longrightarrow> reads (f x) b y \<Longrightarrow> reads (bindr r f) (a @ b) y"
  unfolding reads_def bindr_def
  by (simp add: pending_advance readable_advance advance_advance)

lemma reads_return: "reads (returnr x) [] x"
  by (simp add: reads_def returnr_def)

lemma reads_bindr_return: "reads r a x \<Longrightarrow> g x = y \<Longrightarrow> reads (bindr r (\<lambda>x. returnr (g x))) a y"
  using reads_bindr [of r a x "\<lambda>x. returnr (g x)" "[]" y] by (simp add: reads_return)

lemma reads_stream_read: "length bs = n \<Longrightarrow> reads (stream_read n) bs bs"
  unfolding reads_def readable_def pending_def stream_read_def advance_def
  by (auto dest: arg_cong [where f = length])

lemma writes_stream_write: "writes alloc (stream_write alloc bs) bs"
proof -
  have "extends s s' bs" if "stream_write alloc bs s = (s', True)" for s s'
    using that by (auto simp: stream_write_def stream_grow_def extends_def Let_def split: if_splits)
  moreover have "snd (stream_write alloc bs s)" if "writable alloc s (length bs)" for s
  proof -
    have "\<not> length bs > SIZE_MAX - length (sdata s)" using that by (simp add: writable_def) linarith
    then show ?thesis using that by (simp add: stream_write_def stream_grow_def writable_def Let_def)
  qed
  ultimately show ?thesis unfolding writes_def by blast
qed

section \<open>The contract of a wire type\<close>

text \<open>
  A wire type has a writer, a reader and the encoding \<open>enc\<close> both agree on, for the values that
  satisfy \<open>wf\<close>. What follows from it is proved once: the round trip through a fresh stream, and the
  loops that write and read a counted sequence.
\<close>

locale stream_codec =
  fixes put :: "alloc \<Rightarrow> 'a \<Rightarrow> writer" and get :: "'a reader"
    and enc :: "'a \<Rightarrow> bytes" and wf :: "'a \<Rightarrow> bool"
  assumes writes_put: "wf x \<Longrightarrow> writes alloc (put alloc x) (enc x)"
    and reads_get: "wf x \<Longrightarrow> reads get (enc x) x"
begin

lemma roundtrip:
  assumes "wf x" "put alloc x (stream_init alloc n) = (s, True)"
  shows "get (stream_init_from_data (sdata s @ rest)) =
           (advance (length (enc x)) (stream_init_from_data (sdata s @ rest)), Some x)"
proof -
  have "extends (stream_init alloc n) s (enc x)" using writes_put [OF assms(1)] assms(2) unfolding writes_def by blast
  then have "sdata s = enc x" by (auto simp: extends_def stream_init_def Let_def split: if_splits)
  then show ?thesis using reads_get [OF assms(1)]
    by (simp add: reads_def readable_def pending_def stream_init_from_data_def)
qed

lemma enc_inj:
  assumes "wf x" "wf y" "enc x = enc y"
  shows "x = y"
proof -
  let ?s = "stream_init_from_data (enc y)"
  have "readable ?s \<and> pending ?s = enc y @ []" by (simp add: readable_def pending_def stream_init_from_data_def)
  then have "get ?s = (advance (length (enc y)) ?s, Some x)" "get ?s = (advance (length (enc y)) ?s, Some y)"
    using reads_get [OF assms(1)] reads_get [OF assms(2)] unfolding assms(3) reads_def by blast+
  then show ?thesis by simp
qed

lemma put_total: "wf x \<Longrightarrow> writable alloc s (length (enc x)) \<Longrightarrow> \<exists>s'. put alloc x s = (s', True) \<and> extends s s' (enc x)"
  using writes_put [of x alloc] unfolding writes_def by (metis prod.collapse)

end

fun put_all :: "('a \<Rightarrow> writer) \<Rightarrow> 'a list \<Rightarrow> writer" where
  "put_all put [] s = (s, True)"
| "put_all put (x # xs) s = seqw (put x) (put_all put xs) s"

fun get_all :: "'a reader \<Rightarrow> nat \<Rightarrow> 'a list reader" where
  "get_all get 0 = returnr []"
| "get_all get (Suc n) = bindr get (\<lambda>x. bindr (get_all get n) (\<lambda>xs. returnr (x # xs)))"

lemma writes_Nil: "writes alloc (\<lambda>s. (s, True)) []"
  by (simp add: writes_def extends_def)

lemma writes_put_all:
  "(\<And>x. x \<in> set xs \<Longrightarrow> writes alloc (put x) (enc x)) \<Longrightarrow> writes alloc (put_all put xs) (concat (map enc xs))"
proof (induction xs)
  case Nil
  have "put_all put [] = (\<lambda>s. (s, True))" by (rule ext) simp
  then show ?case by (simp add: writes_Nil)
next
  case (Cons x xs)
  have "put_all put (x # xs) = seqw (put x) (put_all put xs)" by (rule ext) simp
  then show ?case using Cons by (simp add: writes_seqw)
qed

lemma reads_get_all:
  "(\<And>x. x \<in> set xs \<Longrightarrow> reads get (enc x) x) \<Longrightarrow> length xs = n \<Longrightarrow> reads (get_all get n) (concat (map enc xs)) xs"
proof (induction xs arbitrary: n)
  case Nil
  then show ?case by (simp add: reads_return)
next
  case (Cons x xs)
  then have "reads (bindr (get_all get (length xs)) (\<lambda>ys. returnr (x # ys))) (concat (map enc xs)) (x # xs)"
    by (intro reads_bindr_return) auto
  then show ?case using Cons.prems reads_bindr [of get "enc x" x] by auto
qed

section \<open>Integers\<close>

lemma bit_fold_or:
  "bit (foldl (\<lambda>v i. v OR f i) (a :: 'a::len word) xs) q \<longleftrightarrow> bit a q \<or> (\<exists>i \<in> set xs. bit (f i) q)"
  by (induction xs arbitrary: a) (auto simp: bit_simps)

lemma u8_split: "8 * i \<le> q \<Longrightarrow> q - 8 * i < 8 \<Longrightarrow> i = q div 8" for i q :: nat
  by (rule sym, rule div_nat_eqI) auto

lemma u64_le_roundtrip:
  fixes v :: u64
  shows "foldl (\<lambda>w i. w OR push_bit (8 * i) (ucast (map (\<lambda>i. ucast (drop_bit (8 * i) v) :: u8) [0..<8] ! i))) 0 [0..<8] = v"
proof (rule bit_word_eqI)
  fix q assume "q < LENGTH(64)"
  then have q: "q < 64" by simp
  let ?b = "\<lambda>i. push_bit (8 * i) (ucast (map (\<lambda>i. ucast (drop_bit (8 * i) v) :: u8) [0..<8] ! i)) :: u64"
  have "bit (?b i) q \<longleftrightarrow> i = q div 8 \<and> bit v q" if "i < 8" for i
  proof -
    have "bit (?b i) q \<longleftrightarrow> 8 * i \<le> q \<and> q - 8 * i < 8 \<and> bit v (8 * i + (q - 8 * i))"
      using that q by (auto simp: bit_simps)
    also have "\<dots> \<longleftrightarrow> i = q div 8 \<and> bit v q"
      using that by (auto simp: le_add_diff_inverse intro: u8_split)
    finally show ?thesis .
  qed
  moreover have "q div 8 < 8" using q by (simp add: less_mult_imp_div_less)
  ultimately show "bit (foldl (\<lambda>w i. w OR ?b i) 0 [0..<8]) q \<longleftrightarrow> bit v q" by (auto simp: bit_fold_or)
qed

lemma u32_le_roundtrip:
  fixes v :: u32
  shows "ucast (ucast v :: u8) OR push_bit 8 (ucast (ucast (drop_bit 8 v) :: u8)) OR
    push_bit 16 (ucast (ucast (drop_bit 16 v) :: u8)) OR push_bit 24 (ucast (ucast (drop_bit 24 v) :: u8)) = v"
proof (rule bit_word_eqI)
  fix q assume "q < LENGTH(32)"
  then have l: "q < 32" by simp
  obtain k r where q: "q = 8 * k + r" "r < 8" by (rule byte_split)
  then have "k < 4" using l by linarith
  then consider "k = 0" | "k = 1" | "k = 2" | "k = 3" by linarith
  then show "bit (ucast (ucast v :: u8) OR push_bit 8 (ucast (ucast (drop_bit 8 v) :: u8)) OR
    push_bit 16 (ucast (ucast (drop_bit 16 v) :: u8)) OR push_bit 24 (ucast (ucast (drop_bit 24 v) :: u8)) :: u32) q = bit v q"
    by cases (use q in \<open>simp_all add: bit_simps add.commute\<close>)
qed

lemma u16_le_roundtrip:
  fixes v :: u16
  shows "ucast (ucast (v AND 0xff) :: u8) OR push_bit 8 (ucast (ucast (drop_bit 8 v) :: u8)) = v"
proof (rule bit_word_eqI)
  have ff: "(0xff :: u16) = mask 8" by (simp add: mask_eq_exp_minus_1)
  fix q assume "q < LENGTH(16)"
  then have l: "q < 16" by simp
  obtain k r where q: "q = 8 * k + r" "r < 8" by (rule byte_split)
  then have "k < 2" using l by linarith
  then consider "k = 0" | "k = 1" by linarith
  then show "bit (ucast (ucast (v AND 0xff) :: u8) OR push_bit 8 (ucast (ucast (drop_bit 8 v) :: u8)) :: u16) q = bit v q"
    unfolding ff by cases (use q in \<open>simp_all add: bit_simps add.commute\<close>)
qed

definition enc_u8 :: "u8 \<Rightarrow> bytes" where "enc_u8 v = [v]"
definition enc_u16 :: "u16 \<Rightarrow> bytes" where "enc_u16 v = [ucast (v AND 0xff), ucast (drop_bit 8 v)]"
definition enc_u32 :: "u32 \<Rightarrow> bytes" where
  "enc_u32 v = [ucast v, ucast (drop_bit 8 v), ucast (drop_bit 16 v), ucast (drop_bit 24 v)]"
definition enc_u64 :: "u64 \<Rightarrow> bytes" where "enc_u64 v = map (\<lambda>i. ucast (drop_bit (8 * i) v)) [0..<8]"

interpretation u8_codec: stream_codec stream_write_u8 stream_read_u8 enc_u8 "\<lambda>_. True"
  by unfold_locales
    (simp_all add: stream_write_u8_def stream_read_u8_def enc_u8_def writes_stream_write
      reads_bindr_return [OF reads_stream_read])

interpretation u16_codec: stream_codec stream_write_u16_le stream_read_u16_le enc_u16 "\<lambda>_. True"
  by unfold_locales
    (simp_all add: stream_write_u16_le_def stream_read_u16_le_def enc_u16_def writes_stream_write
      reads_bindr_return [OF reads_stream_read] u16_le_roundtrip)

interpretation u32_codec: stream_codec stream_write_u32_le stream_read_u32_le enc_u32 "\<lambda>_. True"
proof unfold_locales
  fix x :: u32
  show "reads stream_read_u32_le (enc_u32 x) x"
    unfolding stream_read_u32_le_def
    by (rule reads_bindr_return [OF reads_stream_read]) (simp_all add: enc_u32_def u32_le_roundtrip)
qed (simp add: stream_write_u32_le_def enc_u32_def writes_stream_write)

interpretation u64_codec: stream_codec stream_write_u64_le stream_read_u64_le enc_u64 "\<lambda>_. True"
proof unfold_locales
  fix x :: u64
  show "reads stream_read_u64_le (enc_u64 x) x"
    unfolding stream_read_u64_le_def enc_u64_def
    by (rule reads_bindr_return [OF reads_stream_read]) (simp, rule u64_le_roundtrip)
qed (simp add: stream_write_u64_le_def enc_u64_def writes_stream_write)

lemma sint_of_int32: "is_int32 v \<Longrightarrow> sint (word_of_int v :: u32) = v"
  by (simp add: signed_of_int is_int32_def signed_take_bit_int_eq_self_iff)

lemma sint_of_int64: "is_int64 v \<Longrightarrow> sint (word_of_int v :: u64) = v"
  by (simp add: signed_of_int is_int64_def signed_take_bit_int_eq_self_iff)

definition enc_i32 :: "int \<Rightarrow> bytes" where "enc_i32 v = enc_u32 (word_of_int v)"
definition enc_i64 :: "int \<Rightarrow> bytes" where "enc_i64 v = enc_u64 (word_of_int v)"

interpretation i32_codec: stream_codec stream_write_i32_le stream_read_i32_le enc_i32 is_int32
  by unfold_locales
    (simp_all add: stream_write_i32_le_def stream_read_i32_le_def enc_i32_def u32_codec.writes_put
      reads_bindr_return [OF u32_codec.reads_get] sint_of_int32)

interpretation i64_codec: stream_codec stream_write_i64_le stream_read_i64_le enc_i64 is_int64
  by unfold_locales
    (simp_all add: stream_write_i64_le_def stream_read_i64_le_def enc_i64_def u64_codec.writes_put
      reads_bindr_return [OF u64_codec.reads_get] sint_of_int64)

section \<open>CompactSize\<close>

definition enc_compact_size :: "u64 \<Rightarrow> bytes" where
  "enc_compact_size n =
     (if n < 253 then enc_u8 (ucast n)
      else if n \<le> 0xffff then enc_u8 253 @ enc_u16 (ucast n)
      else if n \<le> 0xffffffff then enc_u8 254 @ enc_u32 (ucast n)
      else enc_u8 255 @ enc_u64 n)"

lemma unat_ucast_u8: "n < (253::u64) \<Longrightarrow> unat (ucast n :: u8) = unat n"
  by (simp add: unsigned_ucast_eq take_bit_nat_eq_self word_less_nat_alt)

lemma ucast_ucast_small:
  "n < (253::u64) \<Longrightarrow> ucast (ucast n :: u8) = n"
  "n \<le> (0xffff::u64) \<Longrightarrow> ucast (ucast n :: u16) = n"
  "n \<le> (0xffffffff::u64) \<Longrightarrow> ucast (ucast n :: u32) = n"
  by (simp_all add: word_unat_eq_iff unsigned_ucast_eq unsigned_take_bit_eq take_bit_nat_eq_self word_less_nat_alt word_le_nat_alt)

interpretation compact_size_codec: stream_codec stream_write_compact_size stream_read_compact_size
  enc_compact_size "\<lambda>_. True"
proof unfold_locales
  fix x :: u64 and alloc
  show "writes alloc (stream_write_compact_size alloc x) (enc_compact_size x)"
    by (simp add: stream_write_compact_size_def enc_compact_size_def u8_codec.writes_put u16_codec.writes_put
        u32_codec.writes_put u64_codec.writes_put writes_seqw)
  consider "x < 253" | "\<not> x < 253" "x \<le> 0xffff" | "\<not> x < 253" "\<not> x \<le> 0xffff" "x \<le> 0xffffffff"
    | "\<not> x < 253" "\<not> x \<le> 0xffff" "\<not> x \<le> 0xffffffff" by blast
  then show "reads stream_read_compact_size (enc_compact_size x) x"
  proof cases
    case 1
    then have "ucast x < (253::u8)" by (simp add: word_less_nat_alt unat_ucast_u8)
    then have "reads (bindr stream_read_u8 (\<lambda>marker.
       if marker < 253 then returnr (ucast marker)
       else if marker = 253 then bindr stream_read_u16_le (\<lambda>v. returnr (ucast v))
       else if marker = 254 then bindr stream_read_u32_le (\<lambda>v. returnr (ucast v))
       else stream_read_u64_le)) (enc_u8 (ucast x) @ []) x"
      by (intro reads_bindr [OF u8_codec.reads_get]) (simp_all add: reads_return [of x] ucast_ucast_small 1)
    then show ?thesis using 1 by (simp add: stream_read_compact_size_def enc_compact_size_def)
  next
    case 2
    then show ?thesis unfolding stream_read_compact_size_def enc_compact_size_def
      by (simp only: if_True if_False)
        (rule reads_bindr [OF u8_codec.reads_get], simp_all add: reads_bindr_return [OF u16_codec.reads_get] ucast_ucast_small)
  next
    case 3
    then show ?thesis unfolding stream_read_compact_size_def enc_compact_size_def
      by (simp only: if_True if_False)
        (rule reads_bindr [OF u8_codec.reads_get], simp_all add: reads_bindr_return [OF u32_codec.reads_get] ucast_ucast_small)
  next
    case 4
    then show ?thesis unfolding stream_read_compact_size_def enc_compact_size_def
      by (simp only: if_True if_False)
        (rule reads_bindr [OF u8_codec.reads_get], simp_all add: u64_codec.reads_get)
  qed
qed

lemma length_enc_compact_size: "length (enc_compact_size n) = compact_size_sizeof n"
  by (simp add: enc_compact_size_def compact_size_sizeof_def enc_u8_def enc_u16_def enc_u32_def enc_u64_def)

section \<open>VarInt\<close>

lemma writes_u8s: "writes alloc (write_u8s alloc bs) bs"
proof (induction bs)
  case Nil
  have "write_u8s alloc [] = (\<lambda>s. (s, True))" by (rule ext) simp
  then show ?case by (simp add: writes_Nil)
next
  case (Cons b bs)
  have "write_u8s alloc (b # bs) = seqw (stream_write_u8 alloc b) (write_u8s alloc bs)" by (rule ext) simp
  moreover have "writes alloc (stream_write_u8 alloc b) [b]" using u8_codec.writes_put [of alloc b] by (simp add: enc_u8_def)
  ultimately show ?case using writes_seqw [OF _ Cons.IH, of _ "[b]"] by simp
qed

lemma varint_tmp_len: "0 < l \<Longrightarrow> varint_tmp n l = varint_tmp n 1"
proof (induction n arbitrary: l rule: measure_induct_rule [where f = unat])
  case (less n)
  show ?case
  proof (cases "n \<le> 0x7f")
    case True
    then show ?thesis using less.prems by (simp add: varint_tmp.simps [of n] Let_def)
  next
    case False
    have "varint_tmp (drop_bit 7 n - 1) (l + 1) = varint_tmp (drop_bit 7 n - 1) (1 + 1)"
      using less.IH [OF varint_decr [OF False], of "l + 1"] less.IH [OF varint_decr [OF False], of "1 + 1"] by simp
    then show ?thesis using False less.prems by (simp add: varint_tmp.simps [of n] Let_def)
  qed
qed

lemma length_varint_tmp: "unat n < 2 ^ (7 * k) \<Longrightarrow> 0 < k \<Longrightarrow> length (varint_tmp n l) \<le> k"
proof (induction k arbitrary: n l)
  case (Suc k)
  show ?case
  proof (cases "n \<le> 0x7f")
    case True
    then show ?thesis by (subst varint_tmp.simps) (simp add: Let_def)
  next
    case False
    then have n: "128 \<le> unat n" by (simp add: word_le_nat_alt)
    have d: "unat (drop_bit 7 n) = unat n div 128" by (rule unat_drop_bit_7)
    then have one: "1 \<le> unat (drop_bit 7 n)" using n by arith
    then have e: "unat (drop_bit 7 n - 1) = unat n div 128 - 1"
      using d by (subst unat_sub) (simp_all add: word_le_nat_alt)
    have "unat n < 128 * 2 ^ (7 * k)" using Suc.prems(1) by (simp add: power_add)
    then have "unat n div 128 < 2 ^ (7 * k)" by (simp add: less_mult_imp_div_less mult.commute)
    moreover from this have "0 < k" using one d by (cases k) simp_all
    ultimately have "length (varint_tmp (drop_bit 7 n - 1) (l + 1)) \<le> k"
      using e by (intro Suc.IH) simp_all
    then show ?thesis using False by (simp add: varint_tmp.simps [of n] Let_def)
  qed
qed simp

lemma group_masks:
  "(0x7f :: u8) = mask 7" "(0x7f :: u64) = mask 7" "(0x80 :: u8) = 2 ^ 7"
  by (simp_all add: mask_eq_exp_minus_1)

lemma bit_0x80: "bit (0x80 :: u8) n \<longleftrightarrow> n = 7" "bit (0x80 :: int) n \<longleftrightarrow> n = 7"
proof -
  have "(0x80 :: int) = 2 ^ 7" by simp
  then show "bit (0x80 :: int) n \<longleftrightarrow> n = 7" by (simp only: bit_exp_iff) auto
qed (auto simp only: group_masks(3) bit_exp_iff, simp)

lemma group_byte:
  fixes m :: u64
  shows "ucast ((ucast (m AND 0x7f) OR 0x80 :: u8) AND 0x7f) = m AND 0x7f"
    and "ucast (ucast (m AND 0x7f) AND 0x7f :: u8) = m AND 0x7f"
    and "(ucast (m AND 0x7f) OR 0x80 :: u8) AND 0x80 \<noteq> 0"
    and "ucast (m AND 0x7f) AND 0x80 = (0 :: u8)"
    and "push_bit 7 (drop_bit 7 m) OR (m AND 0x7f) = m"
proof -
  show "ucast ((ucast (m AND 0x7f) OR 0x80 :: u8) AND 0x7f) = m AND 0x7f"
    unfolding group_masks(1,2) by (rule bit_word_eqI) (auto simp: bit_simps bit_0x80)
  show "ucast (ucast (m AND 0x7f) AND 0x7f :: u8) = m AND 0x7f"
    unfolding group_masks by (rule bit_word_eqI) (auto simp: bit_simps)
  show "(ucast (m AND 0x7f) OR 0x80 :: u8) AND 0x80 \<noteq> 0"
    unfolding group_masks(2) by (subst group_masks(3), subst and_exp_eq_0_iff_not_bit) (simp add: bit_simps bit_0x80)
  show "ucast (m AND 0x7f) AND 0x80 = (0 :: u8)"
    unfolding group_masks and_exp_eq_0_iff_not_bit by (simp add: bit_simps)
  show "push_bit 7 (drop_bit 7 m) OR (m AND 0x7f) = m"
    unfolding group_masks by (rule bit_word_eqI) (auto simp: bit_simps)
qed

lemma varint_loop_byte:
  assumes "readable s" "pending s = b # rest"
  shows "varint_loop n s =
    (let n' = push_bit 7 n OR ucast (b AND 0x7f)
     in if b AND 0x80 \<noteq> 0 then varint_loop (n' + 1) (advance 1 s) else (advance 1 s, Some n'))"
proof -
  have "stream_read_u8 s = (advance 1 s, Some b)"
    using u8_codec.reads_get [of b] assms by (simp add: reads_def enc_u8_def)
  then show ?thesis by (subst varint_loop.simps) (simp only: prod.case option.case)
qed

lemma drop_bit_7_small: "m \<le> (0x7f::u64) \<Longrightarrow> drop_bit 7 m = 0"
  unfolding word_unat_eq_iff unat_drop_bit_7 by (simp add: word_le_nat_alt)

lemma varint_loop_prefix:
  "readable s \<Longrightarrow> pending s = rev (varint_tmp m 1) @ rest \<Longrightarrow>
   varint_loop 0 s = varint_loop (m + 1) (advance (length (varint_tmp m 1)) s)"
proof (induction m arbitrary: rest rule: measure_induct_rule [where f = unat])
  case (less m)
  let ?b = "ucast (m AND 0x7f) OR 0x80 :: u8" and ?m = "drop_bit 7 m - 1"
  have last: "varint_loop (drop_bit 7 m) t = varint_loop (m + 1) (advance 1 t)"
    if "readable t" "pending t = ?b # rest" for t
    using varint_loop_byte [OF that, of "drop_bit 7 m"] by (simp add: Let_def group_byte)
  show ?case
  proof (cases "m \<le> 0x7f")
    case True
    then have tmp: "varint_tmp m 1 = [?b]" by (simp add: varint_tmp.simps [of m] Let_def)
    then show ?thesis using less.prems last [of s] drop_bit_7_small [OF True] by simp
  next
    case False
    have tmp: "varint_tmp m 1 = ?b # varint_tmp ?m 1"
      using False varint_tmp_len [of "Suc 1" ?m] by (simp add: varint_tmp.simps [of m] Let_def)
    let ?p = "rev (varint_tmp ?m 1)"
    have p: "pending s = ?p @ ?b # rest" using less.prems(2) tmp by simp
    have "varint_loop 0 s = varint_loop (?m + 1) (advance (length ?p) s)"
      using less.IH [OF varint_decr [OF False] less.prems(1) p] by simp
    also have "\<dots> = varint_loop (m + 1) (advance 1 (advance (length ?p) s))"
      using last [OF readable_advance [OF less.prems(1) p] pending_advance [OF p]] by simp
    finally show ?thesis using tmp by (simp add: advance_advance)
  qed
qed

interpretation varint_codec: stream_codec stream_write_varint stream_read_varint "\<lambda>n. rev (varint_tmp n 0)" "\<lambda>_. True"
proof unfold_locales
  fix n :: u64 and alloc
  show "writes alloc (stream_write_varint alloc n) (rev (varint_tmp n 0))"
    by (simp add: stream_write_varint_def writes_u8s)
  show "reads stream_read_varint (rev (varint_tmp n 0)) n"
    unfolding reads_def stream_read_varint_def
  proof (intro allI impI, elim conjE)
    fix s rest assume r: "readable s" and p: "pending s = rev (varint_tmp n 0) @ rest"
    let ?b = "ucast (n AND 0x7f) :: u8" and ?m = "drop_bit 7 n - 1"
    have last: "varint_loop (drop_bit 7 n) t = (advance 1 t, Some n)" if "readable t" "pending t = ?b # rest" for t
      using varint_loop_byte [OF that, of "drop_bit 7 n"] by (simp add: Let_def group_byte)
    show "varint_loop 0 s = (advance (length (rev (varint_tmp n 0))) s, Some n)"
    proof (cases "n \<le> 0x7f")
      case True
      then show ?thesis using p last [OF r] drop_bit_7_small [OF True] by (simp add: varint_tmp.simps [of n] Let_def)
    next
      case False
      then have tmp: "varint_tmp n 0 = ?b # varint_tmp ?m 1" by (simp add: varint_tmp.simps [of n] Let_def)
      let ?p = "rev (varint_tmp ?m 1)"
      have p': "pending s = ?p @ ?b # rest" using p tmp by simp
      have "varint_loop 0 s = varint_loop (?m + 1) (advance (length ?p) s)"
        using varint_loop_prefix [OF r p'] by simp
      then show ?thesis using last [OF readable_advance [OF r p'] pending_advance [OF p']] tmp
        by (simp add: advance_advance)
    qed
  qed
qed

section \<open>Properties\<close>

text \<open>
  C28: every 64-bit number written as a CompactSize is read back from the bytes written, whatever
  follows them, and the encoding has the length \<^verbatim>\<open>compact_size_sizeof\<close> announces.
\<close>

theorem compact_size_roundtrip:
  assumes "stream_write_compact_size alloc n (stream_init alloc c) = (s, True)"
  shows "stream_read_compact_size (stream_init_from_data (sdata s @ rest)) =
           (advance (compact_size_sizeof n) (stream_init_from_data (sdata s @ rest)), Some n)"
  using compact_size_codec.roundtrip [OF TrueI assms] by (simp add: length_enc_compact_size)

theorem compact_size_roundtrip_witness:
  "stream_read_compact_size (stream_init_from_data ([253, 0, 2] @ [7])) =
     (advance (compact_size_sizeof 512) (stream_init_from_data ([253, 0, 2] @ [7])), Some 512)"
proof -
  have "stream_write_compact_size (\<lambda>_. True) 512 (stream_init (\<lambda>_. True) 16) =
      ((stream_init (\<lambda>_. True) 16)\<lparr>sdata := [253, 0, 2]\<rparr>, True)"
    by (simp add: stream_write_compact_size_def seqw_def stream_write_u8_def stream_write_u16_le_def
        stream_write_def stream_init_def)
  from compact_size_roundtrip [OF this, of "[7]"] show ?thesis by simp
qed

text \<open>
  Every 64-bit number written as a VarInt is read back, and the writer never uses more than the
  ten bytes of its local buffer.
\<close>

lemma varint_roundtrip:
  assumes "stream_write_varint alloc n (stream_init alloc c) = (s, True)"
  shows "length (varint_tmp n 0) \<le> 10 \<and>
         stream_read_varint (stream_init_from_data (sdata s @ rest)) =
           (advance (length (varint_tmp n 0)) (stream_init_from_data (sdata s @ rest)), Some n)"
proof
  have "unat n < 2 ^ LENGTH(64)" by (rule unsigned_less)
  then have "unat n < 2 ^ (7 * 10)" by simp
  then show "length (varint_tmp n 0) \<le> 10" by (intro length_varint_tmp) simp_all
  show "stream_read_varint (stream_init_from_data (sdata s @ rest)) =
      (advance (length (varint_tmp n 0)) (stream_init_from_data (sdata s @ rest)), Some n)"
    using varint_codec.roundtrip [OF TrueI assms, of rest] by simp
qed

end
