(* ===== verification/Script.thy ===== *)
theory Script
  imports Serialize
begin

text \<open>
  Scripts, \<^verbatim>\<open>lib/script/include/script/script.h\<close> and \<^verbatim>\<open>lib/script/src/script.c\<close>: the opcodes, the
  instruction reader, the builders, script numbers and the signature-operation counters. A
  \<^verbatim>\<open>struct script\<close> is its first \<^verbatim>\<open>size\<close> bytes; \<^verbatim>\<open>script_get_op\<close> returns \<open>None\<close> for false, and otherwise the
  opcode, the pushed data and the new position.
\<close>

section \<open>Opcodes\<close>

type_synonym script = bytes
type_synonym opcodetype = u8

abbreviation (input) OP_0 :: u8 where "OP_0 \<equiv> 0x0"
abbreviation (input) OP_PUSHDATA1 :: u8 where "OP_PUSHDATA1 \<equiv> 0x4c"
abbreviation (input) OP_PUSHDATA2 :: u8 where "OP_PUSHDATA2 \<equiv> 0x4d"
abbreviation (input) OP_PUSHDATA4 :: u8 where "OP_PUSHDATA4 \<equiv> 0x4e"
abbreviation (input) OP_1NEGATE :: u8 where "OP_1NEGATE \<equiv> 0x4f"
abbreviation (input) OP_RESERVED :: u8 where "OP_RESERVED \<equiv> 0x50"
abbreviation (input) OP_1 :: u8 where "OP_1 \<equiv> 0x51"
abbreviation (input) OP_2 :: u8 where "OP_2 \<equiv> 0x52"
abbreviation (input) OP_3 :: u8 where "OP_3 \<equiv> 0x53"
abbreviation (input) OP_4 :: u8 where "OP_4 \<equiv> 0x54"
abbreviation (input) OP_5 :: u8 where "OP_5 \<equiv> 0x55"
abbreviation (input) OP_6 :: u8 where "OP_6 \<equiv> 0x56"
abbreviation (input) OP_7 :: u8 where "OP_7 \<equiv> 0x57"
abbreviation (input) OP_8 :: u8 where "OP_8 \<equiv> 0x58"
abbreviation (input) OP_9 :: u8 where "OP_9 \<equiv> 0x59"
abbreviation (input) OP_10 :: u8 where "OP_10 \<equiv> 0x5a"
abbreviation (input) OP_11 :: u8 where "OP_11 \<equiv> 0x5b"
abbreviation (input) OP_12 :: u8 where "OP_12 \<equiv> 0x5c"
abbreviation (input) OP_13 :: u8 where "OP_13 \<equiv> 0x5d"
abbreviation (input) OP_14 :: u8 where "OP_14 \<equiv> 0x5e"
abbreviation (input) OP_15 :: u8 where "OP_15 \<equiv> 0x5f"
abbreviation (input) OP_16 :: u8 where "OP_16 \<equiv> 0x60"
abbreviation (input) OP_NOP :: u8 where "OP_NOP \<equiv> 0x61"
abbreviation (input) OP_VER :: u8 where "OP_VER \<equiv> 0x62"
abbreviation (input) OP_IF :: u8 where "OP_IF \<equiv> 0x63"
abbreviation (input) OP_NOTIF :: u8 where "OP_NOTIF \<equiv> 0x64"
abbreviation (input) OP_VERIF :: u8 where "OP_VERIF \<equiv> 0x65"
abbreviation (input) OP_VERNOTIF :: u8 where "OP_VERNOTIF \<equiv> 0x66"
abbreviation (input) OP_ELSE :: u8 where "OP_ELSE \<equiv> 0x67"
abbreviation (input) OP_ENDIF :: u8 where "OP_ENDIF \<equiv> 0x68"
abbreviation (input) OP_VERIFY :: u8 where "OP_VERIFY \<equiv> 0x69"
abbreviation (input) OP_RETURN :: u8 where "OP_RETURN \<equiv> 0x6a"
abbreviation (input) OP_TOALTSTACK :: u8 where "OP_TOALTSTACK \<equiv> 0x6b"
abbreviation (input) OP_FROMALTSTACK :: u8 where "OP_FROMALTSTACK \<equiv> 0x6c"
abbreviation (input) OP_2DROP :: u8 where "OP_2DROP \<equiv> 0x6d"
abbreviation (input) OP_2DUP :: u8 where "OP_2DUP \<equiv> 0x6e"
abbreviation (input) OP_3DUP :: u8 where "OP_3DUP \<equiv> 0x6f"
abbreviation (input) OP_2OVER :: u8 where "OP_2OVER \<equiv> 0x70"
abbreviation (input) OP_2ROT :: u8 where "OP_2ROT \<equiv> 0x71"
abbreviation (input) OP_2SWAP :: u8 where "OP_2SWAP \<equiv> 0x72"
abbreviation (input) OP_IFDUP :: u8 where "OP_IFDUP \<equiv> 0x73"
abbreviation (input) OP_DEPTH :: u8 where "OP_DEPTH \<equiv> 0x74"
abbreviation (input) OP_DROP :: u8 where "OP_DROP \<equiv> 0x75"
abbreviation (input) OP_DUP :: u8 where "OP_DUP \<equiv> 0x76"
abbreviation (input) OP_NIP :: u8 where "OP_NIP \<equiv> 0x77"
abbreviation (input) OP_OVER :: u8 where "OP_OVER \<equiv> 0x78"
abbreviation (input) OP_PICK :: u8 where "OP_PICK \<equiv> 0x79"
abbreviation (input) OP_ROLL :: u8 where "OP_ROLL \<equiv> 0x7a"
abbreviation (input) OP_ROT :: u8 where "OP_ROT \<equiv> 0x7b"
abbreviation (input) OP_SWAP :: u8 where "OP_SWAP \<equiv> 0x7c"
abbreviation (input) OP_TUCK :: u8 where "OP_TUCK \<equiv> 0x7d"
abbreviation (input) OP_CAT :: u8 where "OP_CAT \<equiv> 0x7e"
abbreviation (input) OP_SUBSTR :: u8 where "OP_SUBSTR \<equiv> 0x7f"
abbreviation (input) OP_LEFT :: u8 where "OP_LEFT \<equiv> 0x80"
abbreviation (input) OP_RIGHT :: u8 where "OP_RIGHT \<equiv> 0x81"
abbreviation (input) OP_SIZE :: u8 where "OP_SIZE \<equiv> 0x82"
abbreviation (input) OP_INVERT :: u8 where "OP_INVERT \<equiv> 0x83"
abbreviation (input) OP_AND :: u8 where "OP_AND \<equiv> 0x84"
abbreviation (input) OP_OR :: u8 where "OP_OR \<equiv> 0x85"
abbreviation (input) OP_XOR :: u8 where "OP_XOR \<equiv> 0x86"
abbreviation (input) OP_EQUAL :: u8 where "OP_EQUAL \<equiv> 0x87"
abbreviation (input) OP_EQUALVERIFY :: u8 where "OP_EQUALVERIFY \<equiv> 0x88"
abbreviation (input) OP_RESERVED1 :: u8 where "OP_RESERVED1 \<equiv> 0x89"
abbreviation (input) OP_RESERVED2 :: u8 where "OP_RESERVED2 \<equiv> 0x8a"
abbreviation (input) OP_1ADD :: u8 where "OP_1ADD \<equiv> 0x8b"
abbreviation (input) OP_1SUB :: u8 where "OP_1SUB \<equiv> 0x8c"
abbreviation (input) OP_2MUL :: u8 where "OP_2MUL \<equiv> 0x8d"
abbreviation (input) OP_2DIV :: u8 where "OP_2DIV \<equiv> 0x8e"
abbreviation (input) OP_NEGATE :: u8 where "OP_NEGATE \<equiv> 0x8f"
abbreviation (input) OP_ABS :: u8 where "OP_ABS \<equiv> 0x90"
abbreviation (input) OP_NOT :: u8 where "OP_NOT \<equiv> 0x91"
abbreviation (input) OP_0NOTEQUAL :: u8 where "OP_0NOTEQUAL \<equiv> 0x92"
abbreviation (input) OP_ADD :: u8 where "OP_ADD \<equiv> 0x93"
abbreviation (input) OP_SUB :: u8 where "OP_SUB \<equiv> 0x94"
abbreviation (input) OP_MUL :: u8 where "OP_MUL \<equiv> 0x95"
abbreviation (input) OP_DIV :: u8 where "OP_DIV \<equiv> 0x96"
abbreviation (input) OP_MOD :: u8 where "OP_MOD \<equiv> 0x97"
abbreviation (input) OP_LSHIFT :: u8 where "OP_LSHIFT \<equiv> 0x98"
abbreviation (input) OP_RSHIFT :: u8 where "OP_RSHIFT \<equiv> 0x99"
abbreviation (input) OP_BOOLAND :: u8 where "OP_BOOLAND \<equiv> 0x9a"
abbreviation (input) OP_BOOLOR :: u8 where "OP_BOOLOR \<equiv> 0x9b"
abbreviation (input) OP_NUMEQUAL :: u8 where "OP_NUMEQUAL \<equiv> 0x9c"
abbreviation (input) OP_NUMEQUALVERIFY :: u8 where "OP_NUMEQUALVERIFY \<equiv> 0x9d"
abbreviation (input) OP_NUMNOTEQUAL :: u8 where "OP_NUMNOTEQUAL \<equiv> 0x9e"
abbreviation (input) OP_LESSTHAN :: u8 where "OP_LESSTHAN \<equiv> 0x9f"
abbreviation (input) OP_GREATERTHAN :: u8 where "OP_GREATERTHAN \<equiv> 0xa0"
abbreviation (input) OP_LESSTHANOREQUAL :: u8 where "OP_LESSTHANOREQUAL \<equiv> 0xa1"
abbreviation (input) OP_GREATERTHANOREQUAL :: u8 where "OP_GREATERTHANOREQUAL \<equiv> 0xa2"
abbreviation (input) OP_MIN :: u8 where "OP_MIN \<equiv> 0xa3"
abbreviation (input) OP_MAX :: u8 where "OP_MAX \<equiv> 0xa4"
abbreviation (input) OP_WITHIN :: u8 where "OP_WITHIN \<equiv> 0xa5"
abbreviation (input) OP_RIPEMD160 :: u8 where "OP_RIPEMD160 \<equiv> 0xa6"
abbreviation (input) OP_SHA1 :: u8 where "OP_SHA1 \<equiv> 0xa7"
abbreviation (input) OP_SHA256 :: u8 where "OP_SHA256 \<equiv> 0xa8"
abbreviation (input) OP_HASH160 :: u8 where "OP_HASH160 \<equiv> 0xa9"
abbreviation (input) OP_HASH256 :: u8 where "OP_HASH256 \<equiv> 0xaa"
abbreviation (input) OP_CODESEPARATOR :: u8 where "OP_CODESEPARATOR \<equiv> 0xab"
abbreviation (input) OP_CHECKSIG :: u8 where "OP_CHECKSIG \<equiv> 0xac"
abbreviation (input) OP_CHECKSIGVERIFY :: u8 where "OP_CHECKSIGVERIFY \<equiv> 0xad"
abbreviation (input) OP_CHECKMULTISIG :: u8 where "OP_CHECKMULTISIG \<equiv> 0xae"
abbreviation (input) OP_CHECKMULTISIGVERIFY :: u8 where "OP_CHECKMULTISIGVERIFY \<equiv> 0xaf"
abbreviation (input) OP_NOP1 :: u8 where "OP_NOP1 \<equiv> 0xb0"
abbreviation (input) OP_NOP2 :: u8 where "OP_NOP2 \<equiv> 0xb1"
abbreviation (input) OP_NOP3 :: u8 where "OP_NOP3 \<equiv> 0xb2"
abbreviation (input) OP_NOP4 :: u8 where "OP_NOP4 \<equiv> 0xb3"
abbreviation (input) OP_NOP5 :: u8 where "OP_NOP5 \<equiv> 0xb4"
abbreviation (input) OP_NOP6 :: u8 where "OP_NOP6 \<equiv> 0xb5"
abbreviation (input) OP_NOP7 :: u8 where "OP_NOP7 \<equiv> 0xb6"
abbreviation (input) OP_NOP8 :: u8 where "OP_NOP8 \<equiv> 0xb7"
abbreviation (input) OP_NOP9 :: u8 where "OP_NOP9 \<equiv> 0xb8"
abbreviation (input) OP_NOP10 :: u8 where "OP_NOP10 \<equiv> 0xb9"
abbreviation (input) OP_CHECKDATASIG :: u8 where "OP_CHECKDATASIG \<equiv> 0xba"
abbreviation (input) OP_CHECKDATASIGVERIFY :: u8 where "OP_CHECKDATASIGVERIFY \<equiv> 0xbb"
abbreviation (input) OP_SMALLINTEGER :: u8 where "OP_SMALLINTEGER \<equiv> 0xfa"
abbreviation (input) OP_PUBKEYS :: u8 where "OP_PUBKEYS \<equiv> 0xfb"
abbreviation (input) OP_PUBKEYHASH :: u8 where "OP_PUBKEYHASH \<equiv> 0xfd"
abbreviation (input) OP_PUBKEY :: u8 where "OP_PUBKEY \<equiv> 0xfe"
abbreviation (input) OP_INVALIDOPCODE :: u8 where "OP_INVALIDOPCODE \<equiv> 0xff"

definition op_names :: "(opcodetype \<times> string) list" where
  "op_names = [
     (OP_0, ''0''), (OP_PUSHDATA1, ''OP_PUSHDATA1''), (OP_PUSHDATA2, ''OP_PUSHDATA2''),
     (OP_PUSHDATA4, ''OP_PUSHDATA4''), (OP_1NEGATE, ''-1''), (OP_RESERVED, ''OP_RESERVED''),
     (OP_1, ''1''), (OP_2, ''2''), (OP_3, ''3''), (OP_4, ''4''), (OP_5, ''5''), (OP_6, ''6''),
     (OP_7, ''7''), (OP_8, ''8''), (OP_9, ''9''), (OP_10, ''10''), (OP_11, ''11''), (OP_12, ''12''),
     (OP_13, ''13''), (OP_14, ''14''), (OP_15, ''15''), (OP_16, ''16''), (OP_NOP, ''OP_NOP''),
     (OP_VER, ''OP_VER''), (OP_IF, ''OP_IF''), (OP_NOTIF, ''OP_NOTIF''), (OP_VERIF, ''OP_VERIF''),
     (OP_VERNOTIF, ''OP_VERNOTIF''), (OP_ELSE, ''OP_ELSE''), (OP_ENDIF, ''OP_ENDIF''),
     (OP_VERIFY, ''OP_VERIFY''), (OP_RETURN, ''OP_RETURN''), (OP_TOALTSTACK, ''OP_TOALTSTACK''),
     (OP_FROMALTSTACK, ''OP_FROMALTSTACK''), (OP_2DROP, ''OP_2DROP''), (OP_2DUP, ''OP_2DUP''),
     (OP_3DUP, ''OP_3DUP''), (OP_2OVER, ''OP_2OVER''), (OP_2ROT, ''OP_2ROT''),
     (OP_2SWAP, ''OP_2SWAP''), (OP_IFDUP, ''OP_IFDUP''), (OP_DEPTH, ''OP_DEPTH''),
     (OP_DROP, ''OP_DROP''), (OP_DUP, ''OP_DUP''), (OP_NIP, ''OP_NIP''), (OP_OVER, ''OP_OVER''),
     (OP_PICK, ''OP_PICK''), (OP_ROLL, ''OP_ROLL''), (OP_ROT, ''OP_ROT''), (OP_SWAP, ''OP_SWAP''),
     (OP_TUCK, ''OP_TUCK''), (OP_CAT, ''OP_CAT''), (OP_SUBSTR, ''OP_SUBSTR''),
     (OP_LEFT, ''OP_LEFT''), (OP_RIGHT, ''OP_RIGHT''), (OP_SIZE, ''OP_SIZE''),
     (OP_INVERT, ''OP_INVERT''), (OP_AND, ''OP_AND''), (OP_OR, ''OP_OR''), (OP_XOR, ''OP_XOR''),
     (OP_EQUAL, ''OP_EQUAL''), (OP_EQUALVERIFY, ''OP_EQUALVERIFY''),
     (OP_RESERVED1, ''OP_RESERVED1''), (OP_RESERVED2, ''OP_RESERVED2''), (OP_1ADD, ''OP_1ADD''),
     (OP_1SUB, ''OP_1SUB''), (OP_2MUL, ''OP_2MUL''), (OP_2DIV, ''OP_2DIV''),
     (OP_NEGATE, ''OP_NEGATE''), (OP_ABS, ''OP_ABS''), (OP_NOT, ''OP_NOT''),
     (OP_0NOTEQUAL, ''OP_0NOTEQUAL''), (OP_ADD, ''OP_ADD''), (OP_SUB, ''OP_SUB''),
     (OP_MUL, ''OP_MUL''), (OP_DIV, ''OP_DIV''), (OP_MOD, ''OP_MOD''), (OP_LSHIFT, ''OP_LSHIFT''),
     (OP_RSHIFT, ''OP_RSHIFT''), (OP_BOOLAND, ''OP_BOOLAND''), (OP_BOOLOR, ''OP_BOOLOR''),
     (OP_NUMEQUAL, ''OP_NUMEQUAL''), (OP_NUMEQUALVERIFY, ''OP_NUMEQUALVERIFY''),
     (OP_NUMNOTEQUAL, ''OP_NUMNOTEQUAL''), (OP_LESSTHAN, ''OP_LESSTHAN''),
     (OP_GREATERTHAN, ''OP_GREATERTHAN''), (OP_LESSTHANOREQUAL, ''OP_LESSTHANOREQUAL''),
     (OP_GREATERTHANOREQUAL, ''OP_GREATERTHANOREQUAL''), (OP_MIN, ''OP_MIN''), (OP_MAX, ''OP_MAX''),
     (OP_WITHIN, ''OP_WITHIN''), (OP_RIPEMD160, ''OP_RIPEMD160''), (OP_SHA1, ''OP_SHA1''),
     (OP_SHA256, ''OP_SHA256''), (OP_HASH160, ''OP_HASH160''), (OP_HASH256, ''OP_HASH256''),
     (OP_CODESEPARATOR, ''OP_CODESEPARATOR''), (OP_CHECKSIG, ''OP_CHECKSIG''),
     (OP_CHECKSIGVERIFY, ''OP_CHECKSIGVERIFY''), (OP_CHECKMULTISIG, ''OP_CHECKMULTISIG''),
     (OP_CHECKMULTISIGVERIFY, ''OP_CHECKMULTISIGVERIFY''), (OP_CHECKDATASIG, ''OP_CHECKDATASIG''),
     (OP_CHECKDATASIGVERIFY, ''OP_CHECKDATASIGVERIFY''), (OP_NOP1, ''OP_NOP1''),
     (OP_NOP2, ''OP_NOP2''), (OP_NOP3, ''OP_NOP3''), (OP_NOP4, ''OP_NOP4''), (OP_NOP5, ''OP_NOP5''),
     (OP_NOP6, ''OP_NOP6''), (OP_NOP7, ''OP_NOP7''), (OP_NOP8, ''OP_NOP8''), (OP_NOP9, ''OP_NOP9''),
     (OP_NOP10, ''OP_NOP10''), (OP_INVALIDOPCODE, ''OP_INVALIDOPCODE'')]"

definition script_get_op_name :: "opcodetype \<Rightarrow> string" where
  "script_get_op_name opcode = (case map_of op_names opcode of Some s \<Rightarrow> s | None \<Rightarrow> ''OP_UNKNOWN'')"

section \<open>Model\<close>

abbreviation (input) MAX_SCRIPT_SIZE :: nat where "MAX_SCRIPT_SIZE \<equiv> 10000"
abbreviation (input) MAX_SCRIPT_ELEMENT_SIZE :: nat where "MAX_SCRIPT_ELEMENT_SIZE \<equiv> 520"
abbreviation (input) SCRIPT_VERIFY_P2SH :: u32 where "SCRIPT_VERIFY_P2SH \<equiv> 0x1"
abbreviation (input) SCRIPT_VERIFY_CHECKDATASIG_SIGOPS :: u32 where "SCRIPT_VERIFY_CHECKDATASIG_SIGOPS \<equiv> 0x800"

definition script_init :: script where
  "script_init = []"

definition script_set :: "bytes \<Rightarrow> script" where
  "script_set data = take MAX_SCRIPT_SIZE data"

text \<open>The builders return \<open>None\<close> where the C function returns false and leaves the script alone.\<close>

definition script_push_op :: "opcodetype \<Rightarrow> script \<Rightarrow> script option" where
  "script_push_op op s = (if length s \<ge> MAX_SCRIPT_SIZE then None else Some (s @ [op]))"

definition script_push_data :: "bytes \<Rightarrow> script \<Rightarrow> script option" where
  "script_push_data data s =
     (let len = length data; b = (\<lambda>k. of_nat (len div 2 ^ k) :: u8)
      in if len < 0x4c then
           (if length s + 1 + len > MAX_SCRIPT_SIZE then None else Some (s @ [b 0] @ data))
         else if len \<le> 0xff then
           (if length s + 2 + len > MAX_SCRIPT_SIZE then None else Some (s @ [OP_PUSHDATA1, b 0] @ data))
         else if len \<le> 0xffff then
           (if length s + 3 + len > MAX_SCRIPT_SIZE then None else Some (s @ [OP_PUSHDATA2, b 0, b 8] @ data))
         else
           (if length s + 5 + len > MAX_SCRIPT_SIZE then None
            else Some (s @ [OP_PUSHDATA4, b 0, b 8, b 16, b 24] @ data)))"

definition script_is_p2sh :: "script \<Rightarrow> bool" where
  "script_is_p2sh s \<longleftrightarrow> length s = 23 \<and> s ! 0 = OP_HASH160 \<and> s ! 1 = 0x14 \<and> s ! 22 = OP_EQUAL"

definition script_is_pay_to_script_hash :: "script \<Rightarrow> bool" where
  "script_is_pay_to_script_hash s \<longleftrightarrow> length s = 23 \<and> s ! 0 = OP_HASH160 \<and> s ! 1 = 0x14 \<and> s ! 22 = OP_EQUAL"

definition script_is_p2pkh :: "script \<Rightarrow> bool" where
  "script_is_p2pkh s \<longleftrightarrow> length s = 25 \<and> s ! 0 = OP_DUP \<and> s ! 1 = OP_HASH160 \<and> s ! 2 = 0x14 \<and>
     s ! 23 = OP_EQUALVERIFY \<and> s ! 24 = OP_CHECKSIG"

definition script_decode_op_n :: "opcodetype \<Rightarrow> int" where
  "script_decode_op_n op = (if op = OP_0 then 0 else uint op - (0x51 - 1))"

definition script_is_unspendable :: "script \<Rightarrow> bool" where
  "script_is_unspendable s \<longleftrightarrow> (length s > 0 \<and> s ! 0 = OP_RETURN) \<or> length s > MAX_SCRIPT_SIZE"

text \<open>A little-endian length of \<open>k\<close> bytes at position \<open>i\<close>.\<close>

definition le_len :: "script \<Rightarrow> nat \<Rightarrow> nat \<Rightarrow> nat" where
  "le_len s i k = words_val (take k (drop i s))"

function push_only_from :: "script \<Rightarrow> nat \<Rightarrow> bool" where
  "push_only_from s i =
     (if i < length s then
        (let op = s ! i in
         if op > OP_16 then False
         else if op < OP_PUSHDATA1 then push_only_from s (i + (1 + unat op))
         else if op = OP_PUSHDATA1 then
           (if i + 1 \<ge> length s then False else push_only_from s (i + (2 + le_len s (i + 1) 1)))
         else if op = OP_PUSHDATA2 then
           (if i + 2 \<ge> length s then False else push_only_from s (i + (3 + le_len s (i + 1) 2)))
         else if op = OP_PUSHDATA4 then
           (if i + 4 \<ge> length s then False else push_only_from s (i + (5 + le_len s (i + 1) 4)))
         else push_only_from s (i + 1))
      else True)"
  by auto
termination by (relation "measure (\<lambda>(s, i). length s - i)") auto

declare push_only_from.simps [simp del]

definition script_is_push_only :: "script \<Rightarrow> bool" where
  "script_is_push_only s = push_only_from s 0"

text \<open>
  The payload of a push at \<open>pc\<close>, just after its opcode and length bytes. With a data buffer
  (\<open>want\<close>) a payload larger than an element is refused.
\<close>

definition get_op_data :: "bool \<Rightarrow> script \<Rightarrow> opcodetype \<Rightarrow> nat \<Rightarrow> nat \<Rightarrow> (opcodetype \<times> bytes \<times> nat) option" where
  "get_op_data want s op pc nsize =
     (if pc + nsize > length s then None
      else if want then
        (if nsize > MAX_SCRIPT_ELEMENT_SIZE then None else Some (op, take nsize (drop pc s), pc + nsize))
      else Some (op, [], pc + nsize))"

definition script_get_op :: "bool \<Rightarrow> script \<Rightarrow> nat \<Rightarrow> (opcodetype \<times> bytes \<times> nat) option" where
  "script_get_op want s pc =
     (if pc \<ge> length s then None
      else
        (let op = s ! pc; pc = pc + 1 in
         if op \<le> OP_PUSHDATA4 then
           if op < OP_PUSHDATA1 then get_op_data want s op pc (unat op)
           else if op = OP_PUSHDATA1 then
             (if pc \<ge> length s then None else get_op_data want s op (pc + 1) (le_len s pc 1))
           else if op = OP_PUSHDATA2 then
             (if pc + 1 \<ge> length s then None else get_op_data want s op (pc + 2) (le_len s pc 2))
           else
             (if pc + 3 \<ge> length s then None else get_op_data want s op (pc + 4) (le_len s pc 4))
         else Some (op, [], pc)))"

subsection \<open>Script numbers\<close>

abbreviation (input) SCRIPT_NUM_DEFAULT_MAX_SIZE :: nat where "SCRIPT_NUM_DEFAULT_MAX_SIZE \<equiv> 4"






definition script_num_get_int :: "int \<Rightarrow> int" where
  "script_num_get_int v = (if v > 2147483647 then 2147483647 else if v < -2147483648 then -2147483648 else v)"

subsection \<open>Signature operations\<close>

definition sig_ops_of :: "u32 \<Rightarrow> bool \<Rightarrow> opcodetype \<Rightarrow> opcodetype \<Rightarrow> u32" where
  "sig_ops_of flags accurate last_opcode opcode =
     (if opcode = OP_CHECKSIG \<or> opcode = OP_CHECKSIGVERIFY then 1
      else if opcode = OP_CHECKDATASIG \<or> opcode = OP_CHECKDATASIGVERIFY then
        (if flags AND SCRIPT_VERIFY_CHECKDATASIG_SIGOPS \<noteq> 0 then 1 else 0)
      else if opcode = OP_CHECKMULTISIG \<or> opcode = OP_CHECKMULTISIGVERIFY then
        (if accurate \<and> last_opcode \<ge> OP_1 \<and> last_opcode \<le> OP_16 then ucast last_opcode - (0x51 - 1) else 20)
      else 0)"

lemma get_op_data_advances: "get_op_data want s op pc n = Some (op', d, pc') \<Longrightarrow> pc \<le> pc' \<and> pc' \<le> length s"
  by (auto simp: get_op_data_def split: if_splits)

lemma script_get_op_advances:
  "script_get_op want s pc = Some (op, d, pc') \<Longrightarrow> pc < pc' \<and> pc' \<le> length s"
  by (auto simp: script_get_op_def Let_def split: if_splits dest!: get_op_data_advances)

function sig_op_loop :: "u32 \<Rightarrow> bool \<Rightarrow> script \<Rightarrow> nat \<Rightarrow> opcodetype \<Rightarrow> u32 \<Rightarrow> u32" where
  "sig_op_loop flags accurate s pc last_opcode n =
     (if pc < length s then
        case script_get_op True s pc of
          None \<Rightarrow> n
        | Some (opcode, _, pc') \<Rightarrow>
            sig_op_loop flags accurate s pc' opcode (n + sig_ops_of flags accurate last_opcode opcode)
      else n)"
  by auto
termination
  by (relation "measure (\<lambda>(_, _, s, pc, _, _). length s - pc)") (auto dest: script_get_op_advances)

declare sig_op_loop.simps [simp del]

definition script_get_sig_op_count :: "script \<Rightarrow> u32 \<Rightarrow> bool \<Rightarrow> u32" where
  "script_get_sig_op_count s flags accurate = sig_op_loop flags accurate s 0 OP_INVALIDOPCODE 0"

text \<open>The last push of a push-only script, or \<open>None\<close> where the walk returns 0.\<close>

function last_push_loop :: "script \<Rightarrow> nat \<Rightarrow> bytes \<Rightarrow> bytes option" where
  "last_push_loop s pc last_push =
     (if pc < length s then
        case script_get_op True s pc of
          None \<Rightarrow> None
        | Some (opcode, data, pc') \<Rightarrow>
            if opcode > OP_16 then None
            else if length data > MAX_SCRIPT_ELEMENT_SIZE then None
            else last_push_loop s pc' data
      else Some last_push)"
  by auto
termination
  by (relation "measure (\<lambda>(s, pc, _). length s - pc)") (auto dest: script_get_op_advances)

declare last_push_loop.simps [simp del]

definition script_get_sig_op_count_p2sh :: "script \<Rightarrow> script \<Rightarrow> u32 \<Rightarrow> u32" where
  "script_get_sig_op_count_p2sh script_pub_key script_sig flags =
     (if flags AND SCRIPT_VERIFY_P2SH = 0 \<or> \<not> script_is_pay_to_script_hash script_pub_key
      then script_get_sig_op_count script_pub_key flags True
      else case last_push_loop script_sig 0 [] of
             None \<Rightarrow> 0
           | Some redeem \<Rightarrow> script_get_sig_op_count (script_set redeem) flags True)"

section \<open>Pushing and reading back\<close>

lemma unat_of_nat_u8: "unat (of_nat n :: u8) = n mod 256"
  by (simp add: unat_of_nat)

lemma le_len_append: "i = length s \<Longrightarrow> k = length bs \<Longrightarrow> le_len (s @ bs @ rest) i k = words_val bs"
  by (simp add: le_len_def)

lemma byte_digits: "n < 65536 \<Longrightarrow> n mod 256 + 256 * (n div 256 mod 256) = n" for n :: nat
proof -
  assume "n < 65536"
  then have "n div 256 < 256" by (simp add: less_mult_imp_div_less)
  then show ?thesis by simp
qed

lemma get_after_push:
  assumes "script_push_data data s = Some s'" "length data \<le> MAX_SCRIPT_ELEMENT_SIZE"
  shows "\<exists>op. script_get_op True s' (length s) = Some (op, data, length s')"
proof -
  let ?n = "length data"
  have w2: "words_val [of_nat ?n :: u8, of_nat (?n div 256)] = ?n"
    using assms(2) byte_digits [of ?n] by (simp add: unat_of_nat_u8)
  consider "?n < 0x4c" | "0x4c \<le> ?n" "?n \<le> 0xff" | "0xff < ?n" by linarith
  then show ?thesis
  proof cases
    case 1
    then have s': "s' = s @ [of_nat ?n] @ data" using assms(1) by (auto simp: script_push_data_def Let_def split: if_splits)
    have "unat (of_nat ?n :: u8) = ?n" "(of_nat ?n :: u8) < 0x4c" "(of_nat ?n :: u8) \<le> 0x4e"
      using 1 by (simp_all add: unat_of_nat_u8 word_less_nat_alt word_le_nat_alt)
    then show ?thesis using assms(2) by (simp add: s' script_get_op_def get_op_data_def nth_append)
  next
    case 2
    then have s': "s' = s @ [OP_PUSHDATA1, of_nat ?n] @ data"
      using assms(1) by (auto simp: script_push_data_def Let_def split: if_splits)
    have "le_len s' (length s + 1) 1 = ?n" using 2 by (simp add: s' le_len_def unat_of_nat_u8)
    then show ?thesis using assms(2) by (simp add: s' script_get_op_def get_op_data_def nth_append)
  next
    case 3
    then have s': "s' = s @ [OP_PUSHDATA2, of_nat ?n, of_nat (?n div 256)] @ data"
      using assms by (auto simp: script_push_data_def Let_def split: if_splits)
    have "le_len s' (length s + 1) 2 = ?n" using w2 by (simp add: s' le_len_def numeral_2_eq_2)
    then show ?thesis using assms(2) by (simp add: s' script_get_op_def get_op_data_def nth_append)
  qed
qed

section \<open>Script numbers\<close>





















section \<open>Counting signature operations\<close>

lemma sig_ops_le:
  "unat (sig_ops_of flags acc lo op) \<le> 20" "unat (sig_ops_of flags True lo op) \<le> unat (sig_ops_of flags False lo op)"
proof -
  have "unat (ucast lo - 0x50 :: u32) \<le> 16" if "lo \<ge> OP_1" "lo \<le> OP_16"
  proof -
    have "81 \<le> unat lo" "unat lo \<le> 96" using that by (simp_all add: word_le_nat_alt)
    then show ?thesis by (subst unat_sub) (simp_all add: word_le_nat_alt unsigned_ucast_eq take_bit_nat_eq_self)
  qed
  then show "unat (sig_ops_of flags acc lo op) \<le> 20" "unat (sig_ops_of flags True lo op) \<le> unat (sig_ops_of flags False lo op)"
    by (auto simp: sig_ops_of_def)
qed

lemma sig_op_loop_bounds:
  assumes "unat n' + 20 * (length s - pc) < 2 ^ 32" "n \<le> n'"
  shows "sig_op_loop flags True s pc lo n \<le> sig_op_loop flags False s pc lo n' \<and>
         unat (sig_op_loop flags False s pc lo n') \<le> unat n' + 20 * (length s - pc)"
  using assms
proof (induction "length s - pc" arbitrary: pc lo n n' rule: less_induct)
  case less
  show ?case
  proof (cases "pc < length s")
    case False
    then show ?thesis using less.prems by (simp add: sig_op_loop.simps)
  next
    case pc: True
    show ?thesis
    proof (cases "script_get_op True s pc")
      case None
      then show ?thesis using pc less.prems by (simp add: sig_op_loop.simps [of flags _ s pc])
    next
      case (Some r)
      obtain op d pc' where r: "r = (op, d, pc')" by (cases r)
      have adv: "pc < pc'" "pc' \<le> length s" using script_get_op_advances Some r by auto
      let ?m = "n + sig_ops_of flags True lo op" and ?m' = "n' + sig_ops_of flags False lo op"
      have le: "unat (sig_ops_of flags False lo op) \<le> 20" "unat (sig_ops_of flags True lo op) \<le> unat (sig_ops_of flags False lo op)"
        using sig_ops_le by auto
      have s20: "20 * (length s - pc') + 20 \<le> 20 * (length s - pc)" using adv by simp
      have u: "unat ?m' = unat n' + unat (sig_ops_of flags False lo op)"
        using le(1) s20 less.prems(1) by (simp add: unat_word_ariths)
      have u2: "unat ?m = unat n + unat (sig_ops_of flags True lo op)"
        using le s20 less.prems by (simp add: unat_word_ariths word_le_nat_alt)
      have "unat ?m' + 20 * (length s - pc') < 2 ^ 32" using u le s20 less.prems(1) by linarith
      moreover have "?m \<le> ?m'" using u u2 le less.prems(2) by (simp add: word_le_nat_alt)
      ultimately have "sig_op_loop flags True s pc' op ?m \<le> sig_op_loop flags False s pc' op ?m' \<and>
          unat (sig_op_loop flags False s pc' op ?m') \<le> unat ?m' + 20 * (length s - pc')"
        using adv by (intro less.hyps) auto
      moreover have "sig_op_loop flags b s pc lo k = sig_op_loop flags b s pc' op (k + sig_ops_of flags b lo op)" for b k
        using pc Some r by (subst sig_op_loop.simps) simp
      ultimately show ?thesis using u le s20 by simp
    qed
  qed
qed

section \<open>Properties\<close>

text \<open>
  A push that \<^verbatim>\<open>script_push_data\<close> appends is what \<^verbatim>\<open>script_get_op\<close> reads at that position: the same
  bytes, and the position moves to the end of the script. This covers the three length encodings an
  element of at most \<^verbatim>\<open>MAX_SCRIPT_ELEMENT_SIZE\<close> bytes can take.
\<close>

lemma push_then_get_op:
  assumes "script_push_data data s = Some s'" "length data \<le> MAX_SCRIPT_ELEMENT_SIZE"
  shows "\<exists>op. script_get_op True s' (length s) = Some (op, data, length s')"
  using assms by (rule get_after_push)



text \<open>
  The inaccurate signature-operation count never under-counts the accurate one, and neither exceeds
  twenty per byte of script, so the 32-bit counter does not wrap.
\<close>

lemma sig_op_count_bounds:
  assumes "length s \<le> MAX_SCRIPT_SIZE"
  shows "unat (script_get_sig_op_count s flags True) \<le> unat (script_get_sig_op_count s flags False) \<and>
         unat (script_get_sig_op_count s flags False) \<le> 20 * length s"
  using sig_op_loop_bounds [of 0 s 0 0 flags OP_INVALIDOPCODE] assms
  by (simp add: script_get_sig_op_count_def word_le_nat_alt)

end
