(* ===== verification/Subsidy.thy ===== *)
theory Subsidy
  imports Params
begin

text \<open>
  Amounts (\<^verbatim>\<open>lib/core/amount.h\<close>) and the block reward (\<^verbatim>\<open>domain/consensus/src/subsidy.c\<close>, with
  the wrapper of \<^verbatim>\<open>lib/chain/src/subsidy.c\<close>). The lemmas bound the reward of every height and the
  sum of all rewards under the mainnet parameters.
\<close>

section \<open>Model\<close>

abbreviation (input) COIN :: int where "COIN \<equiv> 100000000"
abbreviation (input) MAX_MONEY :: int where "MAX_MONEY \<equiv> 2100000000000000"

definition MoneyRange :: "int \<Rightarrow> bool" where
  "MoneyRange nValue \<longleftrightarrow> 0 \<le> nValue \<and> nValue \<le> MAX_MONEY"

datatype subsidy_err = SUBSIDY_NULL_PARAMS | SUBSIDY_NULL_OUT | SUBSIDY_NEG_HEIGHT

text \<open>The conversion \<^verbatim>\<open>(int64_t)(12.5 * COIN)\<close> is exact.\<close>

abbreviation (input) full_subsidy :: int where "full_subsidy \<equiv> 1250000000"

definition domain_consensus_block_subsidy ::
  "int \<Rightarrow> consensus_params option \<Rightarrow> bool \<Rightarrow> (subsidy_err + int) option" where
  "domain_consensus_block_subsidy n_height params out =
     (case params of
        None \<Rightarrow> Some (Inl SUBSIDY_NULL_PARAMS)
      | Some p \<Rightarrow>
          if \<not> out then Some (Inl SUBSIDY_NULL_OUT)
          else if n_height < 0 then Some (Inl SUBSIDY_NEG_HEIGHT)
          else if n_height < c_div (nSubsidySlowStartInterval p) 2 then
            do { s \<leftarrow> ck_div full_subsidy (nSubsidySlowStartInterval p);
                 s \<leftarrow> ck64 (s * n_height);
                 Some (Inr s) }
          else if n_height < nSubsidySlowStartInterval p then
            do { s \<leftarrow> ck_div full_subsidy (nSubsidySlowStartInterval p);
                 k \<leftarrow> ck32 (n_height + 1);
                 s \<leftarrow> ck64 (s * k);
                 Some (Inr s) }
          else
            do { halvings \<leftarrow> consensus_halving p n_height;
                 if 64 \<le> halvings then Some (Inr 0)
                 else do { active \<leftarrow> consensus_network_upgrade_active p n_height UPGRADE_BUTTERCUP;
                           if active then
                             do { s \<leftarrow> ck_shr64 (c_div full_subsidy BUTTERCUP_POW_TARGET_SPACING_RATIO) halvings;
                                  Some (Inr s) }
                           else do { s \<leftarrow> ck_shr64 full_subsidy halvings; Some (Inr s) } } })"

definition get_block_subsidy :: "int \<Rightarrow> consensus_params option \<Rightarrow> int option" where
  "get_block_subsidy nHeight params =
     do { r \<leftarrow> domain_consensus_block_subsidy nHeight params True;
          Some (case r of Inl _ \<Rightarrow> 0 | Inr s \<Rightarrow> s) }"

text \<open>What the schedule needs of the parameters to be defined at every height of the chain.\<close>

definition schedule_wf :: "consensus_params \<Rightarrow> bool" where
  "schedule_wf p \<longleftrightarrow>
     0 \<le> nSubsidySlowStartInterval p \<and> nSubsidySlowStartInterval p \<le> INT32_MAX \<and>
     0 < nPreButtercupSubsidyHalvingInterval p \<and>
     nSubsidySlowStartInterval p \<le> nPostButtercupSubsidyHalvingInterval p \<and>
     0 < nPostButtercupSubsidyHalvingInterval p \<and>
     -1 \<le> activation_height p UPGRADE_BUTTERCUP"

text \<open>The mainnet reward in closed form.\<close>

definition main_reward_nat :: "nat \<Rightarrow> nat" where
  "main_reward_nat h = (if h = 0 then 0 else if h < 707000 then 1250000000
     else 78125000 div 2 ^ ((h - 707000 - 1) div 1680000))"

section \<open>The reward of a height\<close>

lemma c_div_2: "0 \<le> x \<Longrightarrow> c_div x 2 = x div 2"
  by (simp add: c_div_nonneg)

lemma shr_bounds: "0 \<le> (s::int) \<Longrightarrow> 0 \<le> s div 2 ^ k \<and> s div 2 ^ k \<le> s"
  by (simp add: pos_imp_zdiv_nonneg_iff) (metis div_by_1 one_le_power one_le_numeral zdiv_mono2 zero_less_one)

lemma ramp_bounds:
  assumes "0 \<le> (h::int)" "h \<le> n" "0 < n" "0 \<le> s"
  shows "0 \<le> s div n * h" "s div n * h \<le> s"
proof -
  have q: "0 \<le> s div n" using assms by (simp add: pos_imp_zdiv_nonneg_iff)
  then show "0 \<le> s div n * h" using assms by simp
  have "s div n * h \<le> s div n * n" using q assms by (intro mult_left_mono)
  also have "\<dots> \<le> s" using assms(3) by (metis div_mod_decomp_int order.refl le_add_same_cancel1 pos_mod_sign)
  finally show "s div n * h \<le> s" .
qed

lemma consensus_halving_defined:
  assumes "schedule_wf p" "nSubsidySlowStartInterval p \<le> h" "0 \<le> h" "h \<le> INT32_MAX - 3"
  shows "\<exists>k. consensus_halving p h = Some k \<and> 0 \<le> k"
proof -
  let ?shift = "nSubsidySlowStartInterval p div 2" and ?act = "activation_height p UPGRADE_BUTTERCUP"
  have "?shift \<le> nSubsidySlowStartInterval p" using assms(1) by (auto simp: schedule_wf_def)
  then have shift: "consensus_subsidy_slow_start_shift p = ?shift" "0 \<le> ?shift" "?shift \<le> h"
    using assms by (simp_all add: schedule_wf_def consensus_subsidy_slow_start_shift_def c_div_2)
  show ?thesis
  proof (cases "dcu_is_active h p UPGRADE_BUTTERCUP")
    case True
    then have act: "0 \<le> ?act" "?act \<le> h"
      using assms(1) by (auto simp: dcu_is_active_def schedule_wf_def Let_def split: if_splits)
    let ?I = "nPostButtercupSubsidyHalvingInterval p" and ?d = "h - ?shift - ?act"
    have I: "0 < ?I" "?shift < ?I" using assms(1) by (auto simp: schedule_wf_def)
    have q: "0 \<le> c_div ?d ?I \<and> c_div ?d ?I \<le> h"
    proof (cases "0 \<le> ?d")
      case True
      then have "?d div ?I \<le> ?d div 1" using I by (intro zdiv_mono2) auto
      then show ?thesis using True I shift act by (simp add: c_div_nonneg pos_imp_zdiv_nonneg_iff)
    next
      case False
      then have "(- ?d) div ?I = 0" using I act by (intro div_pos_pos_trivial) auto
      then show ?thesis using False I assms(3) by (simp add: c_div_neg)
    qed
    have r: "is_int32 (h - ?shift)" "is_int32 ?d" "is_int32 (c_div ?d ?I)" "is_int32 (c_div ?d ?I + 3)"
      using q shift act assms(4) by (simp_all add: is_int32_def)
    then show ?thesis using True I q assms(3)
      by (simp add: consensus_halving_def upgrade_active_iff shift(1) ck32_def ck_div_def)
  next
    case False
    let ?I = "nPreButtercupSubsidyHalvingInterval p"
    have I: "0 < ?I" using assms(1) by (auto simp: schedule_wf_def)
    have "(h - ?shift) div ?I \<le> (h - ?shift) div 1" using I shift by (intro zdiv_mono2) auto
    then have q: "0 \<le> c_div (h - ?shift) ?I \<and> c_div (h - ?shift) ?I \<le> h"
      using I shift by (simp add: c_div_nonneg pos_imp_zdiv_nonneg_iff)
    then have r: "is_int32 (h - ?shift)" "is_int32 (c_div (h - ?shift) ?I)"
      using shift assms(4) by (simp_all add: is_int32_def)
    then show ?thesis using False I q assms(3)
      by (simp add: consensus_halving_def upgrade_active_iff shift(1) ck32_def ck_div_def)
  qed
qed

text \<open>
  For every parameter set with a well-formed schedule and every height a chain can reach, the
  block reward is defined (no division by zero, overflow or bad shift on any branch) and lies
  between zero and the full 12.5 coins.
\<close>

lemma block_subsidy_bounded:
  assumes "schedule_wf p" "0 \<le> h" "h \<le> INT32_MAX - 3"
  shows "\<exists>s. domain_consensus_block_subsidy h (Some p) True = Some (Inr s) \<and> 0 \<le> s \<and> s \<le> full_subsidy"
proof -
  let ?n = "nSubsidySlowStartInterval p"
  have n: "0 \<le> ?n" "c_div ?n 2 = ?n div 2" using assms(1) by (simp_all add: schedule_wf_def c_div_2)
  consider "h < ?n div 2" | "\<not> h < ?n div 2" "h < ?n" | "?n \<le> h" by linarith
  then show ?thesis
  proof cases
    case 1
    then have "0 < ?n" "h \<le> ?n" using assms(2) by auto
    note R = ramp_bounds [OF assms(2) \<open>h \<le> ?n\<close> \<open>0 < ?n\<close>, of full_subsidy]
    show ?thesis using 1 R assms(2) \<open>0 < ?n\<close>
      by (simp add: domain_consensus_block_subsidy_def n ck_div_def ck64_def c_div_nonneg is_int64_def)
  next
    case 2
    then have "0 < ?n" "h + 1 \<le> ?n" "0 \<le> h + 1" using assms(2) by auto
    note R = ramp_bounds [OF \<open>0 \<le> h + 1\<close> \<open>h + 1 \<le> ?n\<close> \<open>0 < ?n\<close>, of full_subsidy]
    show ?thesis using 2 R assms(2,3) \<open>0 < ?n\<close>
      by (simp add: domain_consensus_block_subsidy_def n ck_div_def ck64_def ck32_def c_div_nonneg is_int64_def is_int32_def)
  next
    case 3
    then obtain k where "consensus_halving p h = Some k" "0 \<le> k"
      using consensus_halving_defined assms by blast
    moreover have "\<not> h < ?n div 2" using 3 n(1) by linarith
    ultimately show ?thesis using 3 n(1) assms(2) shr_bounds [of "full_subsidy div 2" "nat k"] shr_bounds [of full_subsidy "nat k"]
      by (simp add: domain_consensus_block_subsidy_def n upgrade_active_iff ck_shr64_def c_div_2)
  qed
qed

section \<open>Total issuance on mainnet\<close>

lemma main_upgrades [simp]:
  "activation_height (consensus mainParams) UPGRADE_BUTTERCUP = 707000"
  "consensus_subsidy_slow_start_shift (consensus mainParams) = 1"
  by (simp_all add: mainParams_def activation_height_def upgrade_rows_def consensus_subsidy_slow_start_shift_def c_div_def)

lemma main_reward:
  assumes "h \<le> 2147483640"
  shows "get_block_subsidy (int h) (Some (consensus mainParams)) =
    Some (int (if h = 0 then 0 else if h < 707000 then 1250000000
               else 78125000 div 2 ^ ((h - 707000 - 1) div 1680000)))"
proof -
  let ?p = "consensus mainParams"
  have slow: "nSubsidySlowStartInterval ?p = 2" "nPreButtercupSubsidyHalvingInterval ?p = 840000"
    "nPostButtercupSubsidyHalvingInterval ?p = 1680000" by (simp_all add: mainParams_def)
  have act: "dcu_is_active (int h) ?p UPGRADE_BUTTERCUP \<longleftrightarrow> 707000 \<le> h" by (simp add: dcu_is_active_def)
  consider "h = 0" | "h = 1" | "2 \<le> h" "h < 707000" | "h = 707000" | "707000 < h" by linarith
  then show ?thesis
  proof cases
    case 1
    then show ?thesis
      by (simp add: get_block_subsidy_def domain_consensus_block_subsidy_def slow c_div_def ck_div_def ck64_def is_int64_def)
  next
    case 2
    then show ?thesis
      by (simp add: get_block_subsidy_def domain_consensus_block_subsidy_def slow c_div_def ck_div_def ck64_def ck32_def is_int64_def is_int32_def)
  next
    case 3
    then have "(int h - 1) div 840000 = 0" by simp
    then have "consensus_halving ?p (int h) = Some 0"
      using 3 act by (simp add: consensus_halving_def upgrade_active_iff slow ck32_def ck_div_def is_int32_def c_div_nonneg)
    then show ?thesis using 3 act
      by (simp add: get_block_subsidy_def domain_consensus_block_subsidy_def slow c_div_2 upgrade_active_iff ck_shr64_def)
  next
    case 4
    then have "consensus_halving ?p (int h) = Some 3"
      using act by (simp add: consensus_halving_def upgrade_active_iff slow ck32_def ck_div_def is_int32_def c_div_neg)
    then show ?thesis using 4 act
      by (simp add: get_block_subsidy_def domain_consensus_block_subsidy_def slow c_div_2 upgrade_active_iff ck_shr64_def)
  next
    case 5
    define k where "k = (h - 707000 - 1) div 1680000"
    have "int k = (int h - 1 - 707000) div 1680000" using 5 by (simp add: k_def zdiv_int of_nat_diff)
    moreover have "k < 2000" using assms by (simp add: k_def)
    ultimately have hv: "consensus_halving ?p (int h) = Some (int (k + 3))"
      using act 5 assms by (simp add: consensus_halving_def upgrade_active_iff slow ck32_def ck_div_def is_int32_def c_div_nonneg)
    have "get_block_subsidy (int h) (Some ?p) = Some (int (78125000 div 2 ^ k))"
    proof (cases "64 \<le> k + 3")
      case True
      then have "(2::nat) ^ 61 \<le> 2 ^ k" by (intro power_increasing) auto
      then have "(78125000::nat) div 2 ^ k = 0" by (simp add: div_eq_0_iff)
      then show ?thesis using True hv 5
        by (simp add: get_block_subsidy_def domain_consensus_block_subsidy_def slow c_div_2)
    next
      case False
      have "(625000000::int) div 2 ^ (k + 3) = 625000000 div 2 ^ 3 div 2 ^ k"
        by (simp only: power_add mult.commute [of "2 ^ k"] zdiv_zmult2_eq zero_le_power zero_le_numeral)
      then have "(625000000::int) div 2 ^ nat (int (k + 3)) = int (78125000 div 2 ^ k)"
        by (simp only: nat_int) (simp add: zdiv_int)
      then show ?thesis using False hv 5 act
        by (simp add: get_block_subsidy_def domain_consensus_block_subsidy_def slow c_div_2 upgrade_active_iff ck_shr64_def)
    qed
    then show ?thesis using 5 by (simp add: k_def)
  qed
qed

lemma geometric_halving_sum: "(\<Sum>i<k. (A::nat) div 2 ^ i) \<le> 2 * A"
proof (induction k arbitrary: A)
  case (Suc k)
  have "(\<Sum>i<Suc k. A div 2 ^ i) = A + (\<Sum>i<k. A div 2 div 2 ^ i)"
    by (simp add: sum.lessThan_Suc_shift div_mult2_eq del: sum.lessThan_Suc)
  also have "\<dots> \<le> A + 2 * (A div 2)" using Suc.IH [of "A div 2"] by simp
  finally show ?case by simp
qed simp

lemma halving_epochs_sum:
  assumes "0 < L"
  shows "(\<Sum>j<m. (A::nat) div 2 ^ (j div L)) \<le> 2 * A * L"
proof -
  have "(\<Sum>j<m. A div 2 ^ (j div L)) \<le> (\<Sum>j<m * L. A div 2 ^ (j div L))"
    using assms by (intro sum_mono2) auto
  also have "\<dots> = (\<Sum>i<m. \<Sum>j = i * L..<i * L + L. A div 2 ^ (j div L))" by (rule sum.nat_group [symmetric])
  also have "\<dots> = (\<Sum>i<m. L * (A div 2 ^ i))"
  proof (rule sum.cong)
    fix i assume "i \<in> {..<m}"
    have "(\<Sum>j = i * L..<i * L + L. A div 2 ^ (j div L)) = (\<Sum>j = i * L..<i * L + L. A div 2 ^ i)"
    proof (rule sum.cong)
      fix j assume "j \<in> {i * L..<i * L + L}"
      then have "j div L = i" by (intro div_nat_eqI) (auto simp: mult.commute)
      then show "A div 2 ^ (j div L) = A div 2 ^ i" by simp
    qed simp
    then show "(\<Sum>j = i * L..<i * L + L. A div 2 ^ (j div L)) = L * (A div 2 ^ i)" by simp
  qed simp
  also have "\<dots> = L * (\<Sum>i<m. A div 2 ^ i)" by (simp add: sum_distrib_left)
  also have "\<dots> \<le> L * (2 * A)" by (intro mult_le_mono2 geometric_halving_sum)
  finally show ?thesis by (simp add: ac_simps)
qed

lemma main_reward_sum: "(\<Sum>h<n. main_reward_nat h) \<le> 2100000000000000"
proof -
  let ?g = "\<lambda>j. (78125000::nat) div 2 ^ (j div 1680000)"
  have le: "main_reward_nat h \<le> (if h < 707000 then 1250000000 else 0) + (if h = 707000 then 78125000 else 0) +
     (if 707000 < h then ?g (h - 707001) else 0)" for h
    by (auto simp: main_reward_nat_def)
  have "(\<Sum>h<n. main_reward_nat h) \<le> (\<Sum>h<n. (if h < 707000 then 1250000000 else 0)) +
     (\<Sum>h<n. (if h = 707000 then 78125000 else 0)) + (\<Sum>h<n. (if 707000 < h then ?g (h - 707001) else 0))"
    unfolding sum.distrib [symmetric] by (intro sum_mono le)
  moreover have "(\<Sum>h<n. (if h < 707000 then 1250000000 else 0::nat)) \<le> 707000 * 1250000000"
  proof -
    have "(\<Sum>h<n. (if h < 707000 then 1250000000 else 0::nat)) = (\<Sum>h\<in>{..<n} \<inter> {..<707000}. 1250000000)"
      by (intro sum.mono_neutral_cong_right) auto
    also have "\<dots> \<le> 707000 * 1250000000"
      using card_mono [of "{..<707000::nat}" "{..<n} \<inter> {..<707000}"] by simp
    finally show ?thesis .
  qed
  moreover have "(\<Sum>h<n. (if h = 707000 then 78125000 else 0::nat)) \<le> 78125000"
    by (simp add: sum.delta)
  moreover have "(\<Sum>h<n. (if 707000 < h then ?g (h - 707001) else 0)) \<le> 2 * 78125000 * 1680000"
  proof -
    have "(\<Sum>h<n. (if 707000 < h then ?g (h - 707001) else 0)) = (\<Sum>h\<in>{707001..<n}. ?g (h - 707001))"
      by (intro sum.mono_neutral_cong_right) auto
    also have "\<dots> = (\<Sum>j<n - 707001. ?g j)"
      by (rule sum.reindex_bij_witness [of _ "\<lambda>j. j + 707001" "\<lambda>h. h - 707001"]) auto
    also have "\<dots> \<le> 2 * 78125000 * 1680000" by (rule halving_epochs_sum) simp
    finally show ?thesis .
  qed
  ultimately show ?thesis by linarith
qed

text \<open>
  C18: under the mainnet parameters the reward of every height is defined and the coins created by
  any number of blocks never exceed \<^verbatim>\<open>MAX_MONEY\<close>.
\<close>

theorem mainnet_supply_bounded:
  assumes "n \<le> 2147483640"
  shows "\<exists>rewards. map (\<lambda>h. get_block_subsidy (int h) (Some (consensus mainParams))) [0..<n] = map Some rewards \<and>
           sum_list rewards \<le> MAX_MONEY"
proof (intro exI conjI)
  let ?r = "map (\<lambda>h. int (main_reward_nat h)) [0..<n]"
  show "map (\<lambda>h. get_block_subsidy (int h) (Some (consensus mainParams))) [0..<n] = map Some ?r"
    using assms by (simp add: main_reward main_reward_nat_def del: map_map split del: if_split) (simp add: main_reward main_reward_nat_def)
  have "sum_list ?r = (\<Sum>h<n. int (main_reward_nat h))"
    by (simp add: sum_list_sum_nth atLeast0LessThan)
  also have "\<dots> = int (\<Sum>h<n. main_reward_nat h)" by simp
  also have "\<dots> \<le> MAX_MONEY" using main_reward_sum [of n] by linarith
  finally show "sum_list ?r \<le> MAX_MONEY" .
qed

theorem mainnet_supply_bounded_witness:
  "\<exists>rewards. map (\<lambda>h. get_block_subsidy (int h) (Some (consensus mainParams))) [0..<3000000] = map Some rewards \<and>
     sum_list rewards \<le> MAX_MONEY"
  using mainnet_supply_bounded [of 3000000] by simp

end
