(* ===== verification/Transaction.thy ===== *)
theory Transaction
  imports Script Subsidy
begin

text \<open>
  Transactions and their wire format: \<^verbatim>\<open>lib/primitives/include/primitives/transaction.h\<close> and
  \<^verbatim>\<open>lib/primitives/src/transaction.c\<close>. Heap arrays are lists, \<^verbatim>\<open>struct script\<close> is its first
  \<^verbatim>\<open>size\<close> bytes, fixed arrays are byte lists whose length the well-formedness predicates state.
  \<^verbatim>\<open>hash256\<close> (double SHA-256) is a parameter, and so is the outcome \<open>calloc label n\<close> of allocating
  \<open>n\<close> elements under the source's label.
\<close>

section \<open>Model\<close>

abbreviation (input) GROTH_PROOF_SIZE :: nat where "GROTH_PROOF_SIZE \<equiv> 192"
abbreviation (input) PHGR_PROOF_SIZE :: nat where "PHGR_PROOF_SIZE \<equiv> 296"
abbreviation (input) ZC_SAPLING_ENCCIPHERTEXT_SIZE :: nat where "ZC_SAPLING_ENCCIPHERTEXT_SIZE \<equiv> 580"
abbreviation (input) ZC_SAPLING_OUTCIPHERTEXT_SIZE :: nat where "ZC_SAPLING_OUTCIPHERTEXT_SIZE \<equiv> 80"
abbreviation (input) ZC_SPROUT_CIPHERTEXT_SIZE :: nat where "ZC_SPROUT_CIPHERTEXT_SIZE \<equiv> 601"
abbreviation (input) OVERWINTER_TX_VERSION :: int where "OVERWINTER_TX_VERSION \<equiv> 3"
abbreviation (input) SAPLING_TX_VERSION :: int where "SAPLING_TX_VERSION \<equiv> 4"
abbreviation (input) OVERWINTER_VERSION_GROUP_ID :: u32 where "OVERWINTER_VERSION_GROUP_ID \<equiv> 0x03C48270"
abbreviation (input) SAPLING_VERSION_GROUP_ID :: u32 where "SAPLING_VERSION_GROUP_ID \<equiv> 0x892F2085"
abbreviation (input) MAX_TX_INPUTS :: nat where "MAX_TX_INPUTS \<equiv> 65536"
abbreviation (input) MAX_TX_OUTPUTS :: nat where "MAX_TX_OUTPUTS \<equiv> 65536"
abbreviation (input) MAX_SHIELDED_SPENDS :: nat where "MAX_SHIELDED_SPENDS \<equiv> 4096"
abbreviation (input) MAX_SHIELDED_OUTPUTS :: nat where "MAX_SHIELDED_OUTPUTS \<equiv> 4096"
abbreviation (input) MAX_JOINSPLITS :: nat where "MAX_JOINSPLITS \<equiv> 4096"

type_synonym calloc = "string \<Rightarrow> nat \<Rightarrow> bool"
type_synonym hashfun = "bytes \<Rightarrow> bytes"

definition uint256_is_null :: "bytes \<Rightarrow> bool" where
  "uint256_is_null u \<longleftrightarrow> list_all (\<lambda>b. b = 0) u"

record outpoint =
  op_hash :: bytes
  op_n :: u32

definition outpoint_set_null :: outpoint where
  "outpoint_set_null = \<lparr>op_hash = replicate 32 0, op_n = 0xffffffff\<rparr>"

definition outpoint_is_null :: "outpoint \<Rightarrow> bool" where
  "outpoint_is_null op \<longleftrightarrow> uint256_is_null (op_hash op) \<and> op_n op = 0xffffffff"

record tx_in =
  prevout :: outpoint
  script_sig :: script
  in_sequence :: u32

definition tx_in_init :: tx_in where
  "tx_in_init = \<lparr>prevout = outpoint_set_null, script_sig = [], in_sequence = 0xffffffff\<rparr>"

definition tx_in_is_final :: "tx_in \<Rightarrow> bool" where
  "tx_in_is_final i \<longleftrightarrow> in_sequence i = 0xffffffff"

record tx_out =
  out_value :: int
  script_pub_key :: script

definition tx_out_set_null :: tx_out where
  "tx_out_set_null = \<lparr>out_value = -1, script_pub_key = []\<rparr>"

definition tx_out_is_null :: "tx_out \<Rightarrow> bool" where
  "tx_out_is_null out \<longleftrightarrow> out_value out = -1"

record spend_description =
  sd_cv :: bytes
  sd_anchor :: bytes
  sd_nullifier :: bytes
  sd_rk :: bytes
  sd_zkproof :: bytes
  spend_auth_sig :: bytes

record output_description =
  od_cv :: bytes
  od_cm :: bytes
  od_ephemeral_key :: bytes
  enc_ciphertext :: bytes
  out_ciphertext :: bytes
  od_zkproof :: bytes

record js_description =
  vpub_old :: int
  vpub_new :: int
  js_anchor :: bytes
  nullifiers :: "bytes list"
  commitments :: "bytes list"
  js_ephemeral_key :: bytes
  random_seed :: bytes
  macs :: "bytes list"
  use_groth :: bool
  js_proof :: bytes
  ciphertexts :: "bytes list"

record transaction =
  overwintered :: bool
  tx_version :: int
  version_group_id :: u32
  vin :: "tx_in list"
  vout :: "tx_out list"
  lock_time :: u32
  expiry_height :: u32
  value_balance :: int
  v_shielded_spend :: "spend_description list"
  v_shielded_output :: "output_description list"
  v_joinsplit :: "js_description list"
  joinsplit_pubkey :: bytes
  joinsplit_sig :: bytes
  binding_sig :: bytes
  tx_hash :: bytes

definition transaction_is_coinbase :: "transaction \<Rightarrow> bool" where
  "transaction_is_coinbase tx \<longleftrightarrow> length (vin tx) = 1 \<and> outpoint_is_null (prevout (vin tx ! 0))"

definition transaction_init :: transaction where
  "transaction_init = \<lparr>overwintered = False, tx_version = 1, version_group_id = 0, vin = [], vout = [],
     lock_time = 0, expiry_height = 0, value_balance = 0, v_shielded_spend = [], v_shielded_output = [],
     v_joinsplit = [], joinsplit_pubkey = replicate 32 0, joinsplit_sig = replicate 64 0,
     binding_sig = replicate 64 0, tx_hash = replicate 32 0\<rparr>"

definition transaction_free :: "transaction \<Rightarrow> transaction" where
  "transaction_free tx = tx\<lparr>vin := [], vout := [], v_shielded_spend := [], v_shielded_output := [],
     v_joinsplit := []\<rparr>"

definition transaction_alloc :: "calloc \<Rightarrow> transaction \<Rightarrow> nat \<Rightarrow> nat \<Rightarrow> transaction \<times> bool" where
  "transaction_alloc calloc tx num_vin num_vout =
     (if num_vin > MAX_TX_INPUTS \<or> num_vout > MAX_TX_OUTPUTS then (tx, False)
      else if (num_vin \<noteq> 0 \<and> \<not> calloc ''tx_vin'' num_vin) \<or> (num_vout \<noteq> 0 \<and> \<not> calloc ''tx_vout'' num_vout)
           then (tx\<lparr>vin := [], vout := []\<rparr>, False)
      else (tx\<lparr>vin := replicate num_vin tx_in_init, vout := replicate num_vout tx_out_set_null\<rparr>, True))"

text \<open>The result is \<^verbatim>\<open>dst\<close>; each failed allocation leaves an emptied record.\<close>

definition transaction_copy :: "calloc \<Rightarrow> transaction \<Rightarrow> transaction \<times> bool" where
  "transaction_copy calloc src =
     (let dst0 = transaction_init\<lparr>overwintered := overwintered src, tx_version := tx_version src,
                   version_group_id := version_group_id src, lock_time := lock_time src,
                   expiry_height := expiry_height src, value_balance := value_balance src,
                   tx_hash := tx_hash src\<rparr>;
          (dst1, ok) = transaction_alloc calloc dst0 (length (vin src)) (length (vout src))
      in if \<not> ok then (transaction_free dst1, False)
         else
           (let dst2 = dst1\<lparr>vin := map2 (\<lambda>d i. d\<lparr>prevout := prevout i, in_sequence := in_sequence i,
                                             script_sig := script_sig i\<rparr>) (vin dst1) (vin src),
                            vout := map2 (\<lambda>d out. d\<lparr>out_value := out_value out,
                                             script_pub_key := script_pub_key out\<rparr>) (vout dst1) (vout src)\<rparr>
            in if v_shielded_spend src \<noteq> [] \<and> \<not> calloc ''tx_shielded_spend'' (length (v_shielded_spend src))
               then (transaction_free dst2, False)
               else
                 (let dst3 = dst2\<lparr>v_shielded_spend := v_shielded_spend src\<rparr>
                  in if v_shielded_output src \<noteq> [] \<and> \<not> calloc ''tx_shielded_output'' (length (v_shielded_output src))
                     then (transaction_free dst3, False)
                     else
                       (let dst4 = dst3\<lparr>v_shielded_output := v_shielded_output src\<rparr>
                        in if v_joinsplit src \<noteq> [] \<and> \<not> calloc ''tx_joinsplit'' (length (v_joinsplit src))
                           then (transaction_free dst4, False)
                           else (dst4\<lparr>v_joinsplit := v_joinsplit src,
                                      joinsplit_pubkey := joinsplit_pubkey src,
                                      joinsplit_sig := joinsplit_sig src,
                                      binding_sig := binding_sig src\<rparr>, True)))))"

text \<open>
  The accumulating loops over amounts. The result \<open>None\<close> is the signed overflow of a running sum,
  \<open>Some (-1)\<close> the violation reported by the code.
\<close>

fun money_loop :: "int \<Rightarrow> int list \<Rightarrow> int option option" where
  "money_loop acc [] = Some (Some acc)"
| "money_loop acc (v # vs) =
     (case ck64 (acc + v) of
        None \<Rightarrow> None
      | Some acc' \<Rightarrow>
          if \<not> MoneyRange v \<or> \<not> MoneyRange acc' then Some None else money_loop acc' vs)"

definition transaction_get_value_out :: "transaction \<Rightarrow> int option" where
  "transaction_get_value_out tx =
     do { r1 \<leftarrow> money_loop 0 (map out_value (vout tx));
          case r1 of
            None \<Rightarrow> Some (-1)
          | Some acc \<Rightarrow>
              do { r2 \<leftarrow> (if value_balance tx \<le> 0
                          then do { neg \<leftarrow> ck64 (- value_balance tx); money_loop acc [neg] }
                          else Some (Some acc));
                   case r2 of
                     None \<Rightarrow> Some (-1)
                   | Some acc \<Rightarrow>
                       do { r3 \<leftarrow> money_loop acc (map vpub_old (v_joinsplit tx));
                            Some (case r3 of None \<Rightarrow> -1 | Some acc \<Rightarrow> acc) } } }"

definition transaction_get_shielded_value_in :: "transaction \<Rightarrow> int option" where
  "transaction_get_shielded_value_in tx =
     do { r1 \<leftarrow> (if value_balance tx \<ge> 0 then money_loop 0 [value_balance tx] else Some (Some 0));
          case r1 of
            None \<Rightarrow> Some (-1)
          | Some acc \<Rightarrow>
              do { r2 \<leftarrow> money_loop acc (map vpub_new (v_joinsplit tx));
                   Some (case r2 of None \<Rightarrow> -1 | Some acc \<Rightarrow> acc) } }"

subsection \<open>Wire format\<close>

definition okw :: writer where
  "okw s = (s, True)"

definition whenw :: "bool \<Rightarrow> writer \<Rightarrow> writer" where
  "whenw c w = (if c then w else okw)"

definition outpoint_serialize :: "alloc \<Rightarrow> outpoint \<Rightarrow> writer" where
  "outpoint_serialize alloc op =
     seqw (stream_write_bytes alloc (op_hash op)) (stream_write_u32_le alloc (op_n op))"

definition outpoint_deserialize :: "outpoint reader" where
  "outpoint_deserialize =
     bindr (stream_read_bytes 32) (\<lambda>h. bindr stream_read_u32_le (\<lambda>n. returnr \<lparr>op_hash = h, op_n = n\<rparr>))"

text \<open>A script is its CompactSize length and its bytes; the readers cap the length.\<close>

definition script_serialize :: "alloc \<Rightarrow> script \<Rightarrow> writer" where
  "script_serialize alloc sc =
     seqw (stream_write_compact_size alloc (of_nat (length sc)))
          (whenw (length sc > 0) (stream_write_bytes alloc sc))"

definition script_deserialize :: "script reader" where
  "script_deserialize =
     bindr stream_read_compact_size (\<lambda>script_len.
       if unat script_len > MAX_SCRIPT_SIZE then failr
       else if unat script_len > 0 then stream_read_bytes (unat script_len) else returnr [])"

definition tx_in_serialize :: "alloc \<Rightarrow> tx_in \<Rightarrow> writer" where
  "tx_in_serialize alloc i =
     seqw (outpoint_serialize alloc (prevout i))
       (seqw (script_serialize alloc (script_sig i)) (stream_write_u32_le alloc (in_sequence i)))"

definition tx_in_deserialize :: "tx_in reader" where
  "tx_in_deserialize =
     bindr outpoint_deserialize (\<lambda>op. bindr script_deserialize (\<lambda>sc. bindr stream_read_u32_le (\<lambda>sq.
       returnr \<lparr>prevout = op, script_sig = sc, in_sequence = sq\<rparr>)))"

definition tx_out_serialize :: "alloc \<Rightarrow> tx_out \<Rightarrow> writer" where
  "tx_out_serialize alloc out =
     seqw (stream_write_i64_le alloc (out_value out)) (script_serialize alloc (script_pub_key out))"

definition tx_out_deserialize :: "tx_out reader" where
  "tx_out_deserialize =
     bindr stream_read_i64_le (\<lambda>v. bindr script_deserialize (\<lambda>sc.
       returnr \<lparr>out_value = v, script_pub_key = sc\<rparr>))"

definition spend_description_serialize :: "alloc \<Rightarrow> spend_description \<Rightarrow> writer" where
  "spend_description_serialize alloc sd =
     seqw (stream_write_bytes alloc (sd_cv sd))
    (seqw (stream_write_bytes alloc (sd_anchor sd))
    (seqw (stream_write_bytes alloc (sd_nullifier sd))
    (seqw (stream_write_bytes alloc (sd_rk sd))
    (seqw (stream_write_bytes alloc (sd_zkproof sd))
          (stream_write_bytes alloc (spend_auth_sig sd))))))"

definition spend_description_deserialize :: "spend_description reader" where
  "spend_description_deserialize =
     bindr (stream_read_bytes 32) (\<lambda>cv. bindr (stream_read_bytes 32) (\<lambda>anchor.
     bindr (stream_read_bytes 32) (\<lambda>nullifier. bindr (stream_read_bytes 32) (\<lambda>rk.
     bindr (stream_read_bytes GROTH_PROOF_SIZE) (\<lambda>zkproof. bindr (stream_read_bytes 64) (\<lambda>sg.
       returnr \<lparr>sd_cv = cv, sd_anchor = anchor, sd_nullifier = nullifier, sd_rk = rk,
                sd_zkproof = zkproof, spend_auth_sig = sg\<rparr>))))))"

definition output_description_serialize :: "alloc \<Rightarrow> output_description \<Rightarrow> writer" where
  "output_description_serialize alloc od =
     seqw (stream_write_bytes alloc (od_cv od))
    (seqw (stream_write_bytes alloc (od_cm od))
    (seqw (stream_write_bytes alloc (od_ephemeral_key od))
    (seqw (stream_write_bytes alloc (enc_ciphertext od))
    (seqw (stream_write_bytes alloc (out_ciphertext od))
          (stream_write_bytes alloc (od_zkproof od))))))"

definition output_description_deserialize :: "output_description reader" where
  "output_description_deserialize =
     bindr (stream_read_bytes 32) (\<lambda>cv. bindr (stream_read_bytes 32) (\<lambda>cm.
     bindr (stream_read_bytes 32) (\<lambda>ek. bindr (stream_read_bytes ZC_SAPLING_ENCCIPHERTEXT_SIZE) (\<lambda>ec.
     bindr (stream_read_bytes ZC_SAPLING_OUTCIPHERTEXT_SIZE) (\<lambda>oc.
     bindr (stream_read_bytes GROTH_PROOF_SIZE) (\<lambda>zkproof.
       returnr \<lparr>od_cv = cv, od_cm = cm, od_ephemeral_key = ek, enc_ciphertext = ec,
                out_ciphertext = oc, od_zkproof = zkproof\<rparr>))))))"

definition js_description_serialize :: "alloc \<Rightarrow> js_description \<Rightarrow> writer" where
  "js_description_serialize alloc jsd =
     seqw (stream_write_i64_le alloc (vpub_old jsd))
    (seqw (stream_write_i64_le alloc (vpub_new jsd))
    (seqw (stream_write_bytes alloc (js_anchor jsd))
    (seqw (put_all (stream_write_bytes alloc) (nullifiers jsd))
    (seqw (put_all (stream_write_bytes alloc) (commitments jsd))
    (seqw (stream_write_bytes alloc (js_ephemeral_key jsd))
    (seqw (stream_write_bytes alloc (random_seed jsd))
    (seqw (put_all (stream_write_bytes alloc) (macs jsd))
    (seqw (stream_write_bytes alloc
             (take (if use_groth jsd then GROTH_PROOF_SIZE else PHGR_PROOF_SIZE) (js_proof jsd)))
          (put_all (stream_write_bytes alloc) (ciphertexts jsd))))))))))"

definition js_description_deserialize :: "bool \<Rightarrow> js_description reader" where
  "js_description_deserialize groth =
     bindr stream_read_i64_le (\<lambda>vo. bindr stream_read_i64_le (\<lambda>vn.
     bindr (stream_read_bytes 32) (\<lambda>anchor.
     bindr (get_all (stream_read_bytes 32) 2) (\<lambda>ns.
     bindr (get_all (stream_read_bytes 32) 2) (\<lambda>cs.
     bindr (stream_read_bytes 32) (\<lambda>ek. bindr (stream_read_bytes 32) (\<lambda>seed.
     bindr (get_all (stream_read_bytes 32) 2) (\<lambda>ms.
     bindr (stream_read_bytes (if groth then GROTH_PROOF_SIZE else PHGR_PROOF_SIZE)) (\<lambda>pr.
     bindr (get_all (stream_read_bytes ZC_SPROUT_CIPHERTEXT_SIZE) 2) (\<lambda>cts.
       returnr \<lparr>vpub_old = vo, vpub_new = vn, js_anchor = anchor, nullifiers = ns, commitments = cs,
                js_ephemeral_key = ek, random_seed = seed, macs = ms, use_groth = groth,
                js_proof = pr @ replicate (PHGR_PROOF_SIZE - length pr) 0, ciphertexts = cts\<rparr>))))))))))"

definition is_overwinter_v3 :: "bool \<Rightarrow> u32 \<Rightarrow> int \<Rightarrow> bool" where
  "is_overwinter_v3 ov gid ver \<longleftrightarrow> ov \<and> gid = OVERWINTER_VERSION_GROUP_ID \<and> ver = OVERWINTER_TX_VERSION"

definition is_sapling_v4 :: "bool \<Rightarrow> u32 \<Rightarrow> int \<Rightarrow> bool" where
  "is_sapling_v4 ov gid ver \<longleftrightarrow> ov \<and> gid = SAPLING_VERSION_GROUP_ID \<and> ver = SAPLING_TX_VERSION"

text \<open>A CompactSize count followed by the elements; the readers cap the count and allocate.\<close>

definition put_vec :: "alloc \<Rightarrow> ('a \<Rightarrow> writer) \<Rightarrow> 'a list \<Rightarrow> writer" where
  "put_vec alloc put xs =
     seqw (stream_write_compact_size alloc (of_nat (length xs))) (put_all put xs)"

definition get_vec :: "calloc \<Rightarrow> string \<Rightarrow> nat \<Rightarrow> 'a reader \<Rightarrow> 'a list reader" where
  "get_vec calloc label mx get =
     bindr stream_read_compact_size (\<lambda>n.
       if unat n > mx then failr
       else if unat n > 0 \<and> \<not> calloc label (unat n) then failr
       else get_all get (unat n))"

definition transaction_serialize :: "alloc \<Rightarrow> transaction \<Rightarrow> writer" where
  "transaction_serialize alloc tx =
     (let ov = overwintered tx; gid = version_group_id tx; ver = tx_version tx;
          v3 = is_overwinter_v3 ov gid ver; v4 = is_sapling_v4 ov gid ver
      in seqw (stream_write_u32_le alloc (word_of_int ver OR (if ov then push_bit 31 1 else 0)))
        (seqw (whenw ov (stream_write_u32_le alloc gid))
        (seqw (put_vec alloc (tx_in_serialize alloc) (vin tx))
        (seqw (put_vec alloc (tx_out_serialize alloc) (vout tx))
        (seqw (stream_write_u32_le alloc (lock_time tx))
        (seqw (whenw (v3 \<or> v4) (stream_write_u32_le alloc (expiry_height tx)))
        (seqw (whenw v4
                (seqw (stream_write_i64_le alloc (value_balance tx))
                (seqw (put_vec alloc (spend_description_serialize alloc) (v_shielded_spend tx))
                      (put_vec alloc (output_description_serialize alloc) (v_shielded_output tx)))))
        (seqw (whenw (ver \<ge> 2)
                (seqw (put_vec alloc (js_description_serialize alloc) (v_joinsplit tx))
                      (whenw (length (v_joinsplit tx) > 0)
                        (seqw (stream_write_bytes alloc (joinsplit_pubkey tx))
                              (stream_write_bytes alloc (joinsplit_sig tx))))))
              (whenw (v4 \<and> (length (v_shielded_spend tx) > 0 \<or> length (v_shielded_output tx) > 0))
                (stream_write_bytes alloc (binding_sig tx)))))))))))"

definition transaction_compute_hash :: "alloc \<Rightarrow> hashfun \<Rightarrow> transaction \<Rightarrow> transaction" where
  "transaction_compute_hash alloc hash256 tx =
     tx\<lparr>tx_hash := hash256 (sdata (fst (transaction_serialize alloc tx (stream_init alloc 4096))))\<rparr>"

definition transaction_serialize_size :: "alloc \<Rightarrow> transaction \<Rightarrow> nat" where
  "transaction_serialize_size alloc tx =
     length (sdata (fst (transaction_serialize alloc tx (stream_init alloc 4096))))"

text \<open>The Sapling part of a transaction and its JoinSplits, as read.\<close>

definition sapling_part :: "calloc \<Rightarrow> (int \<times> spend_description list \<times> output_description list) reader" where
  "sapling_part calloc =
     bindr stream_read_i64_le (\<lambda>vb.
     bindr (get_vec calloc ''tx_shielded_spend'' MAX_SHIELDED_SPENDS spend_description_deserialize) (\<lambda>sp.
     bindr (get_vec calloc ''tx_shielded_output'' MAX_SHIELDED_OUTPUTS output_description_deserialize) (\<lambda>ou.
       returnr (vb, sp, ou))))"

definition joinsplit_part :: "calloc \<Rightarrow> bool \<Rightarrow> (js_description list \<times> bytes \<times> bytes) reader" where
  "joinsplit_part calloc groth =
     bindr (get_vec calloc ''tx_joinsplit'' MAX_JOINSPLITS (js_description_deserialize groth)) (\<lambda>js.
       if length js > 0 then
         bindr (stream_read_bytes 32) (\<lambda>pk. bindr (stream_read_bytes 64) (\<lambda>sg. returnr (js, pk, sg)))
       else returnr (js, replicate 32 0, replicate 64 0))"

definition transaction_deserialize :: "alloc \<Rightarrow> calloc \<Rightarrow> hashfun \<Rightarrow> transaction reader" where
  "transaction_deserialize alloc calloc hash256 =
     bindr stream_read_u32_le (\<lambda>header.
       let ov = (drop_bit 31 header \<noteq> 0); ver = sint (header AND 0x7FFFFFFF)
       in bindr (if ov then stream_read_u32_le else returnr 0) (\<lambda>gid.
            let v3 = is_overwinter_v3 ov gid ver; v4 = is_sapling_v4 ov gid ver
            in if ov \<and> \<not> (v3 \<or> v4) then failr
               else
                 bindr (get_vec calloc ''tx_vin'' MAX_TX_INPUTS tx_in_deserialize) (\<lambda>ins.
                 bindr (get_vec calloc ''tx_vout'' MAX_TX_OUTPUTS tx_out_deserialize) (\<lambda>outs.
                 bindr stream_read_u32_le (\<lambda>lt.
                 bindr (if v3 \<or> v4 then stream_read_u32_le else returnr 0) (\<lambda>eh.
                 bindr (if v4 then sapling_part calloc else returnr (0, [], [])) (\<lambda>(vb, sp, ou).
                 bindr (if ver \<ge> 2 then joinsplit_part calloc (ov \<and> ver \<ge> SAPLING_TX_VERSION)
                        else returnr ([], replicate 32 0, replicate 64 0)) (\<lambda>(js, pk, sg).
                 bindr (if v4 \<and> (length sp > 0 \<or> length ou > 0) then stream_read_bytes 64
                        else returnr (replicate 64 0)) (\<lambda>bs.
                 returnr (transaction_compute_hash alloc hash256
                   \<lparr>overwintered = ov, tx_version = ver, version_group_id = gid, vin = ins, vout = outs,
                    lock_time = lt, expiry_height = eh, value_balance = vb, v_shielded_spend = sp,
                    v_shielded_output = ou, v_joinsplit = js, joinsplit_pubkey = pk, joinsplit_sig = sg,
                    binding_sig = bs, tx_hash = replicate 32 0\<rparr>))))))))))"

lemma not_overwintered [simp]: "\<not> is_overwinter_v3 False gid ver" "\<not> is_sapling_v4 False gid ver"
  by (simp_all add: is_overwinter_v3_def is_sapling_v4_def)

section \<open>Encodings\<close>

text \<open>
  The bytes of each wire type, and the values for which writer and reader agree on them. A
  transaction read from the wire has the fields its version does not carry at their initial value.
\<close>

definition enc_when :: "bool \<Rightarrow> bytes \<Rightarrow> bytes" where
  "enc_when c bs = (if c then bs else [])"

definition enc_vec :: "('a \<Rightarrow> bytes) \<Rightarrow> 'a list \<Rightarrow> bytes" where
  "enc_vec enc xs = enc_compact_size (of_nat (length xs)) @ concat (map enc xs)"

definition enc_outpoint :: "outpoint \<Rightarrow> bytes" where
  "enc_outpoint op = op_hash op @ enc_u32 (op_n op)"

definition enc_script :: "script \<Rightarrow> bytes" where
  "enc_script sc = enc_compact_size (of_nat (length sc)) @ sc"

definition enc_tx_in :: "tx_in \<Rightarrow> bytes" where
  "enc_tx_in i = enc_outpoint (prevout i) @ enc_script (script_sig i) @ enc_u32 (in_sequence i)"

definition enc_tx_out :: "tx_out \<Rightarrow> bytes" where
  "enc_tx_out out = enc_i64 (out_value out) @ enc_script (script_pub_key out)"

definition enc_spend :: "spend_description \<Rightarrow> bytes" where
  "enc_spend sd = sd_cv sd @ sd_anchor sd @ sd_nullifier sd @ sd_rk sd @ sd_zkproof sd @ spend_auth_sig sd"

definition enc_output :: "output_description \<Rightarrow> bytes" where
  "enc_output od = od_cv od @ od_cm od @ od_ephemeral_key od @ enc_ciphertext od @ out_ciphertext od @
     od_zkproof od"

definition enc_js :: "js_description \<Rightarrow> bytes" where
  "enc_js jsd = enc_i64 (vpub_old jsd) @ enc_i64 (vpub_new jsd) @ js_anchor jsd @ concat (nullifiers jsd) @
     concat (commitments jsd) @ js_ephemeral_key jsd @ random_seed jsd @ concat (macs jsd) @
     take (if use_groth jsd then GROTH_PROOF_SIZE else PHGR_PROOF_SIZE) (js_proof jsd) @
     concat (ciphertexts jsd)"

definition enc_transaction :: "transaction \<Rightarrow> bytes" where
  "enc_transaction tx =
     (let ov = overwintered tx; gid = version_group_id tx; ver = tx_version tx;
          v3 = is_overwinter_v3 ov gid ver; v4 = is_sapling_v4 ov gid ver
      in enc_u32 (word_of_int ver OR (if ov then push_bit 31 1 else 0)) @
         enc_when ov (enc_u32 gid) @ enc_vec enc_tx_in (vin tx) @ enc_vec enc_tx_out (vout tx) @
         enc_u32 (lock_time tx) @ enc_when (v3 \<or> v4) (enc_u32 (expiry_height tx)) @
         enc_when v4 (enc_i64 (value_balance tx) @ enc_vec enc_spend (v_shielded_spend tx) @
                      enc_vec enc_output (v_shielded_output tx)) @
         enc_when (ver \<ge> 2) (enc_vec enc_js (v_joinsplit tx) @
           enc_when (length (v_joinsplit tx) > 0) (joinsplit_pubkey tx @ joinsplit_sig tx)) @
         enc_when (v4 \<and> (length (v_shielded_spend tx) > 0 \<or> length (v_shielded_output tx) > 0)) (binding_sig tx))"

definition wf_script :: "script \<Rightarrow> bool" where
  "wf_script sc \<longleftrightarrow> length sc \<le> MAX_SCRIPT_SIZE"

definition wf_outpoint :: "outpoint \<Rightarrow> bool" where
  "wf_outpoint op \<longleftrightarrow> length (op_hash op) = 32"

definition wf_tx_in :: "tx_in \<Rightarrow> bool" where
  "wf_tx_in i \<longleftrightarrow> wf_outpoint (prevout i) \<and> wf_script (script_sig i)"

definition wf_tx_out :: "tx_out \<Rightarrow> bool" where
  "wf_tx_out out \<longleftrightarrow> is_int64 (out_value out) \<and> wf_script (script_pub_key out)"

definition wf_spend :: "spend_description \<Rightarrow> bool" where
  "wf_spend sd \<longleftrightarrow> length (sd_cv sd) = 32 \<and> length (sd_anchor sd) = 32 \<and> length (sd_nullifier sd) = 32 \<and>
     length (sd_rk sd) = 32 \<and> length (sd_zkproof sd) = GROTH_PROOF_SIZE \<and> length (spend_auth_sig sd) = 64"

definition wf_output :: "output_description \<Rightarrow> bool" where
  "wf_output od \<longleftrightarrow> length (od_cv od) = 32 \<and> length (od_cm od) = 32 \<and> length (od_ephemeral_key od) = 32 \<and>
     length (enc_ciphertext od) = ZC_SAPLING_ENCCIPHERTEXT_SIZE \<and>
     length (out_ciphertext od) = ZC_SAPLING_OUTCIPHERTEXT_SIZE \<and> length (od_zkproof od) = GROTH_PROOF_SIZE"

definition blobs :: "nat \<Rightarrow> nat \<Rightarrow> bytes list \<Rightarrow> bool" where
  "blobs k n bs \<longleftrightarrow> length bs = k \<and> list_all (\<lambda>b. length b = n) bs"

definition wf_js :: "bool \<Rightarrow> js_description \<Rightarrow> bool" where
  "wf_js groth jsd \<longleftrightarrow> is_int64 (vpub_old jsd) \<and> is_int64 (vpub_new jsd) \<and> length (js_anchor jsd) = 32 \<and>
     blobs 2 32 (nullifiers jsd) \<and> blobs 2 32 (commitments jsd) \<and> length (js_ephemeral_key jsd) = 32 \<and>
     length (random_seed jsd) = 32 \<and> blobs 2 32 (macs jsd) \<and> use_groth jsd = groth \<and>
     length (js_proof jsd) = PHGR_PROOF_SIZE \<and>
     (groth \<longrightarrow> drop GROTH_PROOF_SIZE (js_proof jsd) = replicate (PHGR_PROOF_SIZE - GROTH_PROOF_SIZE) 0) \<and>
     blobs 2 ZC_SPROUT_CIPHERTEXT_SIZE (ciphertexts jsd)"

definition wf_version :: "transaction \<Rightarrow> bool" where
  "wf_version tx \<longleftrightarrow> 0 \<le> tx_version tx \<and> tx_version tx < 2 ^ 31 \<and>
     (if overwintered tx then is_overwinter_v3 True (version_group_id tx) (tx_version tx) \<or>
                              is_sapling_v4 True (version_group_id tx) (tx_version tx)
      else version_group_id tx = 0 \<and> expiry_height tx = 0)"

definition wf_sapling :: "transaction \<Rightarrow> bool" where
  "wf_sapling tx \<longleftrightarrow>
     (if is_sapling_v4 (overwintered tx) (version_group_id tx) (tx_version tx)
      then is_int64 (value_balance tx) \<and>
        length (v_shielded_spend tx) \<le> MAX_SHIELDED_SPENDS \<and> list_all wf_spend (v_shielded_spend tx) \<and>
        length (v_shielded_output tx) \<le> MAX_SHIELDED_OUTPUTS \<and> list_all wf_output (v_shielded_output tx) \<and>
        (if v_shielded_spend tx = [] \<and> v_shielded_output tx = [] then binding_sig tx = replicate 64 0
         else length (binding_sig tx) = 64)
      else value_balance tx = 0 \<and> v_shielded_spend tx = [] \<and> v_shielded_output tx = [] \<and>
        binding_sig tx = replicate 64 0)"

definition wf_joinsplits :: "transaction \<Rightarrow> bool" where
  "wf_joinsplits tx \<longleftrightarrow>
     length (v_joinsplit tx) \<le> MAX_JOINSPLITS \<and> (tx_version tx < 2 \<longrightarrow> v_joinsplit tx = []) \<and>
     list_all (wf_js (overwintered tx \<and> tx_version tx \<ge> SAPLING_TX_VERSION)) (v_joinsplit tx) \<and>
     (if v_joinsplit tx = [] then joinsplit_pubkey tx = replicate 32 0 \<and> joinsplit_sig tx = replicate 64 0
      else length (joinsplit_pubkey tx) = 32 \<and> length (joinsplit_sig tx) = 64)"

definition wf_fields :: "transaction \<Rightarrow> bool" where
  "wf_fields tx \<longleftrightarrow> wf_version tx \<and>
     length (vin tx) \<le> MAX_TX_INPUTS \<and> list_all wf_tx_in (vin tx) \<and>
     length (vout tx) \<le> MAX_TX_OUTPUTS \<and> list_all wf_tx_out (vout tx) \<and>
     wf_sapling tx \<and> wf_joinsplits tx"

definition wf_transaction :: "hashfun \<Rightarrow> transaction \<Rightarrow> bool" where
  "wf_transaction hash256 tx \<longleftrightarrow> wf_fields tx \<and> tx_hash tx = hash256 (enc_transaction tx)"

section \<open>Writers and readers agree\<close>

named_theorems codec_w \<open>which bytes the writers append\<close>
named_theorems codec_r \<open>which bytes the readers consume\<close>

lemma writes_bytes [codec_w]: "writes alloc (stream_write_bytes alloc bs) bs"
  by (simp add: stream_write_bytes_def writes_stream_write)

lemma reads_bytes [codec_r]: "length bs = n \<Longrightarrow> reads (stream_read_bytes n) bs bs"
  by (simp add: stream_read_bytes_def reads_stream_read)

lemma writes_whenw [codec_w]: "(c \<Longrightarrow> writes alloc w bs) \<Longrightarrow> writes alloc (whenw c w) (enc_when c bs)"
  using writes_Nil [of alloc] by (cases c) (simp_all add: whenw_def enc_when_def okw_def [abs_def])

lemma reads_if [codec_r]:
  "(c \<Longrightarrow> reads r bs x) \<Longrightarrow> (\<not> c \<Longrightarrow> x = d) \<Longrightarrow> reads (if c then r else returnr d) (enc_when c bs) x"
  by (cases c) (simp_all add: enc_when_def reads_return)

lemma writes_blobs [codec_w]: "writes alloc (put_all (stream_write_bytes alloc) bs) (concat bs)"
  using writes_put_all [of bs alloc "stream_write_bytes alloc" "\<lambda>b. b"] by (simp add: writes_bytes)

lemma reads_blobs [codec_r]: "blobs k n bs \<Longrightarrow> reads (get_all (stream_read_bytes n) k) (concat bs) bs"
  using reads_get_all [of bs "stream_read_bytes n" "\<lambda>b. b" k]
  by (simp add: blobs_def reads_bytes list_all_iff)

lemmas [codec_w] = writes_seqw u32_codec.writes_put i64_codec.writes_put compact_size_codec.writes_put
  u8_codec.writes_put i32_codec.writes_put
lemmas [codec_r] = reads_bindr reads_return u32_codec.reads_get i64_codec.reads_get
  compact_size_codec.reads_get i32_codec.reads_get

lemma writes_put_vec [codec_w]:
  "(\<And>x. x \<in> set xs \<Longrightarrow> writes alloc (put x) (enc x)) \<Longrightarrow> writes alloc (put_vec alloc put xs) (enc_vec enc xs)"
  unfolding put_vec_def enc_vec_def by (intro codec_w writes_put_all) simp_all

lemma unat_of_nat_length: "n < 2 ^ 64 \<Longrightarrow> unat (of_nat n :: u64) = n"
  by (simp add: unat_of_nat)

lemma reads_get_vec [codec_r]:
  assumes "\<And>x. x \<in> set xs \<Longrightarrow> reads get (enc x) x" "length xs \<le> mx" "mx < 2 ^ 64"
    "xs \<noteq> [] \<Longrightarrow> calloc label (length xs)"
  shows "reads (get_vec calloc label mx get) (enc_vec enc xs) xs"
proof -
  have n: "unat (of_nat (length xs) :: u64) = length xs" using assms by (simp add: unat_of_nat_length)
  show ?thesis unfolding get_vec_def enc_vec_def
    using assms by (intro reads_bindr) (auto intro!: codec_r reads_get_all simp: n)
qed

interpretation outpoint_codec: stream_codec outpoint_serialize outpoint_deserialize enc_outpoint wf_outpoint
proof unfold_locales
  fix alloc :: alloc and x assume "wf_outpoint x"
  show "writes alloc (outpoint_serialize alloc x) (enc_outpoint x)"
    unfolding outpoint_serialize_def enc_outpoint_def by (intro codec_w) simp
next
  fix x assume wf: "wf_outpoint x"
  have "reads outpoint_deserialize (op_hash x @ enc_u32 (op_n x) @ []) \<lparr>op_hash = op_hash x, op_n = op_n x\<rparr>"
    unfolding outpoint_deserialize_def by (rule codec_r | simp add: wf [unfolded wf_outpoint_def])+
  then show "reads outpoint_deserialize (enc_outpoint x) x" by (cases x) (simp add: enc_outpoint_def)
qed

interpretation script_codec: stream_codec script_serialize script_deserialize enc_script wf_script
proof unfold_locales
  fix alloc :: alloc and x assume "wf_script x"
  have "writes alloc (whenw (length x > 0) (stream_write_bytes alloc x)) (enc_when (length x > 0) x)"
    by (intro codec_w)
  then have "writes alloc (whenw (length x > 0) (stream_write_bytes alloc x)) x" by (simp add: enc_when_def split: if_splits)
  then show "writes alloc (script_serialize alloc x) (enc_script x)"
    unfolding script_serialize_def enc_script_def by (intro codec_w) simp_all
next
  fix x assume wf: "wf_script x"
  then have n: "unat (of_nat (length x) :: u64) = length x" by (simp add: unat_of_nat_length wf_script_def)
  show "reads script_deserialize (enc_script x) x"
    unfolding script_deserialize_def enc_script_def
    by (rule reads_bindr, rule compact_size_codec.reads_get)
      (use wf in \<open>auto simp: n wf_script_def reads_return reads_bytes\<close>)
qed

lemmas [codec_w] = outpoint_codec.writes_put script_codec.writes_put
lemmas [codec_r] = outpoint_codec.reads_get script_codec.reads_get

interpretation tx_in_codec: stream_codec tx_in_serialize tx_in_deserialize enc_tx_in wf_tx_in
proof unfold_locales
  fix alloc :: alloc and x assume "wf_tx_in x"
  then show "writes alloc (tx_in_serialize alloc x) (enc_tx_in x)"
    unfolding tx_in_serialize_def enc_tx_in_def wf_tx_in_def by (intro codec_w) simp_all
next
  fix x assume wf: "wf_tx_in x"
  have "reads tx_in_deserialize (enc_outpoint (prevout x) @ enc_script (script_sig x) @ enc_u32 (in_sequence x) @ [])
      \<lparr>prevout = prevout x, script_sig = script_sig x, in_sequence = in_sequence x\<rparr>"
    unfolding tx_in_deserialize_def by (rule codec_r | simp add: wf [unfolded wf_tx_in_def])+
  then show "reads tx_in_deserialize (enc_tx_in x) x" by (cases x) (simp add: enc_tx_in_def)
qed

interpretation tx_out_codec: stream_codec tx_out_serialize tx_out_deserialize enc_tx_out wf_tx_out
proof unfold_locales
  fix alloc :: alloc and x assume "wf_tx_out x"
  then show "writes alloc (tx_out_serialize alloc x) (enc_tx_out x)"
    unfolding tx_out_serialize_def enc_tx_out_def wf_tx_out_def by (intro codec_w) simp_all
next
  fix x assume wf: "wf_tx_out x"
  have "reads tx_out_deserialize (enc_i64 (out_value x) @ enc_script (script_pub_key x) @ [])
      \<lparr>out_value = out_value x, script_pub_key = script_pub_key x\<rparr>"
    unfolding tx_out_deserialize_def by (rule codec_r | simp add: wf [unfolded wf_tx_out_def])+
  then show "reads tx_out_deserialize (enc_tx_out x) x" by (cases x) (simp add: enc_tx_out_def)
qed

interpretation spend_codec: stream_codec spend_description_serialize spend_description_deserialize enc_spend wf_spend
proof unfold_locales
  fix alloc :: alloc and x assume "wf_spend x"
  show "writes alloc (spend_description_serialize alloc x) (enc_spend x)"
    unfolding spend_description_serialize_def enc_spend_def by (intro codec_w)
next
  fix x assume wf: "wf_spend x"
  have "reads spend_description_deserialize (sd_cv x @ sd_anchor x @ sd_nullifier x @ sd_rk x @ sd_zkproof x @
        spend_auth_sig x @ [])
      \<lparr>sd_cv = sd_cv x, sd_anchor = sd_anchor x, sd_nullifier = sd_nullifier x, sd_rk = sd_rk x,
       sd_zkproof = sd_zkproof x, spend_auth_sig = spend_auth_sig x\<rparr>"
    unfolding spend_description_deserialize_def by (rule codec_r | simp add: wf [unfolded wf_spend_def])+
  then show "reads spend_description_deserialize (enc_spend x) x" by (cases x) (simp add: enc_spend_def)
qed

interpretation output_codec: stream_codec output_description_serialize output_description_deserialize enc_output wf_output
proof unfold_locales
  fix alloc :: alloc and x assume "wf_output x"
  show "writes alloc (output_description_serialize alloc x) (enc_output x)"
    unfolding output_description_serialize_def enc_output_def by (intro codec_w)
next
  fix x assume wf: "wf_output x"
  have "reads output_description_deserialize (od_cv x @ od_cm x @ od_ephemeral_key x @ enc_ciphertext x @
        out_ciphertext x @ od_zkproof x @ [])
      \<lparr>od_cv = od_cv x, od_cm = od_cm x, od_ephemeral_key = od_ephemeral_key x,
       enc_ciphertext = enc_ciphertext x, out_ciphertext = out_ciphertext x, od_zkproof = od_zkproof x\<rparr>"
    unfolding output_description_deserialize_def by (rule codec_r | simp add: wf [unfolded wf_output_def])+
  then show "reads output_description_deserialize (enc_output x) x" by (cases x) (simp add: enc_output_def)
qed

lemma proof_padding:
  "length pr = 296 \<Longrightarrow> (groth \<Longrightarrow> drop 192 pr = replicate (296 - 192) 0) \<Longrightarrow>
   pr = take (if groth then 192 else 296) pr @ replicate (296 - length (take (if groth then 192 else 296) pr)) (0::u8)"
  using append_take_drop_id [of 192 pr] by (cases groth) simp_all

interpretation js_codec: stream_codec js_description_serialize "js_description_deserialize groth" enc_js "wf_js groth"
  for groth
proof unfold_locales
  fix alloc :: alloc and x assume "wf_js groth x"
  then show "writes alloc (js_description_serialize alloc x) (enc_js x)"
    unfolding js_description_serialize_def enc_js_def wf_js_def by (intro codec_w) simp_all
next
  fix x assume wf: "wf_js groth x"
  let ?n = "if groth then 192 else 296"
  let ?pr = "take ?n (js_proof x)"
  have "reads (js_description_deserialize groth)
      (enc_i64 (vpub_old x) @ enc_i64 (vpub_new x) @ js_anchor x @ concat (nullifiers x) @
       concat (commitments x) @ js_ephemeral_key x @ random_seed x @ concat (macs x) @ ?pr @
       concat (ciphertexts x) @ [])
      \<lparr>vpub_old = vpub_old x, vpub_new = vpub_new x, js_anchor = js_anchor x, nullifiers = nullifiers x,
       commitments = commitments x, js_ephemeral_key = js_ephemeral_key x, random_seed = random_seed x,
       macs = macs x, use_groth = groth, js_proof = ?pr @ replicate (296 - length ?pr) 0,
       ciphertexts = ciphertexts x\<rparr>"
    unfolding js_description_deserialize_def by (rule codec_r | simp add: wf [unfolded wf_js_def])+
  moreover have "?pr @ replicate (296 - length ?pr) 0 = js_proof x"
    using wf by (intro proof_padding [symmetric]) (simp_all add: wf_js_def)
  ultimately show "reads (js_description_deserialize groth) (enc_js x) x"
    using wf by (cases x) (simp add: enc_js_def wf_js_def split del: if_split)
qed

lemmas [codec_w] = tx_in_codec.writes_put tx_out_codec.writes_put spend_codec.writes_put output_codec.writes_put
  js_codec.writes_put
lemmas [codec_r] = tx_in_codec.reads_get tx_out_codec.reads_get spend_codec.reads_get output_codec.reads_get
  js_codec.reads_get

lemma header_word:
  assumes "0 \<le> v" "v < 2 ^ 31"
  shows "drop_bit 31 (word_of_int v OR (if ov then push_bit 31 1 else 0) :: u32) \<noteq> 0 \<longleftrightarrow> ov"
    and "sint ((word_of_int v OR (if ov then push_bit 31 1 else 0) :: u32) AND 0x7FFFFFFF) = v"
proof -
  have tb: "take_bit 31 v = v" using assms by (simp add: take_bit_int_eq_self_iff)
  have hi: "\<not> bit v n" if "31 \<le> n" for n
    using arg_cong [OF tb, of "\<lambda>x. bit x n"] that by (simp add: bit_take_bit_iff)
  then have lo: "n < 31" if "bit v n" for n using that by (cases "31 \<le> n") auto
  define h :: u32 where "h = (if ov then push_bit 31 1 else 0)"
  have h: "bit h n \<longleftrightarrow> ov \<and> n = 31" for n
    unfolding h_def by (cases ov) (auto simp only: if_True if_False bit_push_bit_iff bit_1_iff bit_0_eq, auto)
  have m: "(0x7FFFFFFF :: u32) = mask 31" by (simp add: mask_eq_exp_minus_1)
  have low: "(word_of_int v OR h) AND 0x7FFFFFFF = word_of_int v"
    by (rule bit_word_eqI) (auto simp: m bit_simps h dest: lo)
  show "sint ((word_of_int v OR (if ov then push_bit 31 1 else 0) :: u32) AND 0x7FFFFFFF) = v"
    unfolding h_def [symmetric] low using assms by (intro sint_of_int32) (simp add: is_int32_def)
  have "drop_bit 31 (word_of_int v OR h) = of_bool ov"
    by (rule bit_word_eqI) (use hi in \<open>auto simp: bit_simps h\<close>)
  then show "drop_bit 31 (word_of_int v OR (if ov then push_bit 31 1 else 0) :: u32) \<noteq> 0 \<longleftrightarrow> ov"
    unfolding h_def [symmetric] by simp
qed

lemma writes_transaction:
  assumes "wf_fields tx"
  shows "writes alloc (transaction_serialize alloc tx) (enc_transaction tx)"
  using assms
  unfolding transaction_serialize_def enc_transaction_def Let_def wf_fields_def wf_sapling_def
    wf_joinsplits_def list_all_iff
  by (intro codec_w) auto

lemma reads_sapling_part:
  assumes "wf_sapling tx" "is_sapling_v4 (overwintered tx) (version_group_id tx) (tx_version tx)" "\<And>l n. calloc l n"
  shows "reads (sapling_part calloc)
           (enc_i64 (value_balance tx) @ enc_vec enc_spend (v_shielded_spend tx) @ enc_vec enc_output (v_shielded_output tx))
           (value_balance tx, v_shielded_spend tx, v_shielded_output tx)"
proof -
  have "reads (sapling_part calloc)
      (enc_i64 (value_balance tx) @ enc_vec enc_spend (v_shielded_spend tx) @
       enc_vec enc_output (v_shielded_output tx) @ [])
      (value_balance tx, v_shielded_spend tx, v_shielded_output tx)"
    unfolding sapling_part_def using assms
    by - (rule codec_r | simp add: wf_sapling_def list_all_iff)+
  then show ?thesis by simp
qed

lemma reads_joinsplit_part:
  assumes "wf_joinsplits tx" "groth = (overwintered tx \<and> tx_version tx \<ge> SAPLING_TX_VERSION)" "\<And>l n. calloc l n"
  shows "reads (joinsplit_part calloc groth)
           (enc_vec enc_js (v_joinsplit tx) @
            enc_when (length (v_joinsplit tx) > 0) (joinsplit_pubkey tx @ joinsplit_sig tx))
           (v_joinsplit tx, joinsplit_pubkey tx, joinsplit_sig tx)"
proof -
  let ?js = "v_joinsplit tx"
  have "reads (bindr (stream_read_bytes 32) (\<lambda>pk. bindr (stream_read_bytes 64) (\<lambda>sg. returnr (?js, pk, sg))))
      (joinsplit_pubkey tx @ joinsplit_sig tx @ []) (?js, joinsplit_pubkey tx, joinsplit_sig tx)" if "?js \<noteq> []"
    using that assms(1) by - (rule codec_r | simp add: wf_joinsplits_def)+
  then have pk: "reads (if length ?js > 0
      then bindr (stream_read_bytes 32) (\<lambda>pk. bindr (stream_read_bytes 64) (\<lambda>sg. returnr (?js, pk, sg)))
      else returnr (?js, replicate 32 0, replicate 64 0))
      (enc_when (length ?js > 0) (joinsplit_pubkey tx @ joinsplit_sig tx))
      (?js, joinsplit_pubkey tx, joinsplit_sig tx)"
    using assms(1) by (intro reads_if) (simp_all add: wf_joinsplits_def)
  have "reads (get_vec calloc ''tx_joinsplit'' MAX_JOINSPLITS (js_description_deserialize groth)) (enc_vec enc_js ?js) ?js"
    using assms by (intro reads_get_vec js_codec.reads_get) (simp_all add: wf_joinsplits_def list_all_iff)
  then show ?thesis unfolding joinsplit_part_def by (rule reads_bindr) (rule pk)
qed

lemma length_enc_vec:
  assumes "\<And>x. x \<in> set xs \<Longrightarrow> length (enc x) \<le> k"
  shows "length (enc_vec enc xs) \<le> 9 + length xs * k"
proof -
  have "length (concat (map enc xs)) \<le> length xs * k" using assms by (induction xs) (auto simp: add_mono)
  moreover have "compact_size_sizeof c \<le> 9" for c by (simp add: compact_size_sizeof_def)
  ultimately show ?thesis unfolding enc_vec_def by (simp add: length_enc_compact_size add_mono)
qed

lemma length_enc_int [simp]: "length (enc_u32 v) = 4" "length (enc_i64 i) = 8"
  by (simp_all add: enc_u32_def enc_i64_def enc_u64_def)

lemma length_concat_blobs: "blobs k n bs \<Longrightarrow> length (concat bs) = k * n"
  by (induction bs arbitrary: k) (auto simp: blobs_def)

lemma length_enc_script: "wf_script sc \<Longrightarrow> length (enc_script sc) \<le> 10009"
  by (simp add: enc_script_def wf_script_def length_enc_compact_size compact_size_sizeof_def)

lemma length_enc_parts:
  "wf_tx_in i \<Longrightarrow> length (enc_tx_in i) \<le> 11000"
  "wf_tx_out out \<Longrightarrow> length (enc_tx_out out) \<le> 11000"
  "wf_spend sd \<Longrightarrow> length (enc_spend sd) \<le> 11000"
  "wf_output od \<Longrightarrow> length (enc_output od) \<le> 11000"
  "wf_js groth jsd \<Longrightarrow> length (enc_js jsd) \<le> 11000"
  using length_enc_script [of "script_sig i"] length_enc_script [of "script_pub_key out"]
  by (auto simp: enc_tx_in_def wf_tx_in_def enc_outpoint_def wf_outpoint_def enc_tx_out_def wf_tx_out_def
      enc_spend_def wf_spend_def enc_output_def wf_output_def enc_js_def wf_js_def length_concat_blobs
      simp del: length_concat)

lemma length_enc_transaction:
  assumes "wf_fields tx"
  shows "length (enc_transaction tx) < 2 ^ 32"
proof -
  note wf = assms [unfolded wf_fields_def wf_sapling_def wf_joinsplits_def list_all_iff]
  have a: "length (enc_vec enc_tx_in (vin tx)) \<le> 9 + length (vin tx) * 11000"
    using wf by (intro length_enc_vec) (auto intro: length_enc_parts)
  have b: "length (enc_vec enc_tx_out (vout tx)) \<le> 9 + length (vout tx) * 11000"
    using wf by (intro length_enc_vec) (auto intro: length_enc_parts)
  have c: "length (enc_vec enc_spend (v_shielded_spend tx)) \<le> 9 + length (v_shielded_spend tx) * 11000"
    using wf by (intro length_enc_vec) (auto intro: length_enc_parts split: if_splits)
  have d: "length (enc_vec enc_output (v_shielded_output tx)) \<le> 9 + length (v_shielded_output tx) * 11000"
    using wf by (intro length_enc_vec) (auto intro: length_enc_parts split: if_splits)
  have e: "length (enc_vec enc_js (v_joinsplit tx)) \<le> 9 + length (v_joinsplit tx) * 11000"
    using wf by (intro length_enc_vec) (auto intro: length_enc_parts)
  have n: "length (vin tx) \<le> 65536" "length (vout tx) \<le> 65536" "length (v_shielded_spend tx) \<le> 4096"
    "length (v_shielded_output tx) \<le> 4096" "length (v_joinsplit tx) \<le> 4096"
    using wf by (auto split: if_splits)
  have s: "length (binding_sig tx) = 64" "length (joinsplit_pubkey tx) = 32" "length (joinsplit_sig tx) = 64"
    using wf by (auto split: if_splits)
  have w: "length (enc_when c bs) \<le> length bs" for c bs by (simp add: enc_when_def)
  show ?thesis unfolding enc_transaction_def Let_def length_append length_enc_int
    using a b c d e n s by (auto simp: enc_when_def)
qed

lemma compute_hash:
  assumes "wf_fields tx" "\<And>c. alloc c"
  shows "transaction_compute_hash alloc hash256 tx = tx\<lparr>tx_hash := hash256 (enc_transaction tx)\<rparr>"
proof -
  have "writable alloc (stream_init alloc 4096) (length (enc_transaction tx))"
    using length_enc_transaction [OF assms(1)] assms(2) by (simp add: writable_def stream_init_def)
  then obtain s where "transaction_serialize alloc tx (stream_init alloc 4096) = (s, True)"
    "extends (stream_init alloc 4096) s (enc_transaction tx)"
    using writes_transaction [OF assms(1), of alloc] unfolding writes_def by (metis prod.collapse)
  then show ?thesis using assms(2)
    by (simp add: extends_def stream_init_def transaction_compute_hash_def)
qed

lemma wf_fields_hash [simp]: "wf_fields (tx\<lparr>tx_hash := h\<rparr>) = wf_fields tx"
  by (simp add: wf_fields_def wf_version_def wf_sapling_def wf_joinsplits_def)

lemma enc_transaction_hash [simp]: "enc_transaction (tx\<lparr>tx_hash := h\<rparr>) = enc_transaction tx"
  by (simp add: enc_transaction_def)

lemma wf_compute_hash:
  "wf_fields tx \<Longrightarrow> (\<And>c. alloc c) \<Longrightarrow> wf_transaction hash256 (transaction_compute_hash alloc hash256 tx)"
  by (simp add: compute_hash wf_transaction_def)

lemma reads_transaction:
  assumes wf: "wf_transaction hash256 tx" and c: "\<And>l n. calloc l n" and a: "\<And>c. alloc c"
  shows "reads (transaction_deserialize alloc calloc hash256) (enc_transaction tx) tx"
proof -
  let ?ov = "overwintered tx" and ?gid = "version_group_id tx" and ?ver = "tx_version tx"
  let ?v3 = "is_overwinter_v3 ?ov ?gid ?ver" and ?v4 = "is_sapling_v4 ?ov ?gid ?ver"
  note d = wf [unfolded wf_transaction_def wf_fields_def wf_version_def list_all_iff]
  have h: "drop_bit 31 (word_of_int ?ver OR (if ?ov then push_bit 31 1 else 0) :: u32) \<noteq> 0 \<longleftrightarrow> ?ov"
    "sint ((word_of_int ?ver OR (if ?ov then push_bit 31 1 else 0) :: u32) AND 0x7FFFFFFF) = ?ver"
    using d header_word [of ?ver ?ov] by simp_all
  have shape: "\<not> (?ov \<and> \<not> (?v3 \<or> ?v4))" using d by (auto split: if_splits)
  have sap: "reads (if ?v4 then sapling_part calloc else returnr (0, [], []))
      (enc_when ?v4 (enc_i64 (value_balance tx) @ enc_vec enc_spend (v_shielded_spend tx) @
         enc_vec enc_output (v_shielded_output tx)))
      (value_balance tx, v_shielded_spend tx, v_shielded_output tx)"
    using d c by (intro reads_if reads_sapling_part) (simp_all add: wf_sapling_def)
  have js: "reads (if ?ver \<ge> 2 then joinsplit_part calloc (?ov \<and> ?ver \<ge> SAPLING_TX_VERSION)
        else returnr ([], replicate 32 0, replicate 64 0))
      (enc_when (?ver \<ge> 2) (enc_vec enc_js (v_joinsplit tx) @
         enc_when (length (v_joinsplit tx) > 0) (joinsplit_pubkey tx @ joinsplit_sig tx)))
      (v_joinsplit tx, joinsplit_pubkey tx, joinsplit_sig tx)"
    using d c by (intro reads_if reads_joinsplit_part) (auto simp: wf_joinsplits_def split: if_splits)
  have bs: "reads (if ?v4 \<and> (length (v_shielded_spend tx) > 0 \<or> length (v_shielded_output tx) > 0)
        then stream_read_bytes 64 else returnr (replicate 64 0))
      (enc_when (?v4 \<and> (length (v_shielded_spend tx) > 0 \<or> length (v_shielded_output tx) > 0)) (binding_sig tx))
      (binding_sig tx)"
    using d by (intro reads_if reads_bytes) (auto simp: wf_sapling_def split: if_splits)
  have ins: "reads (get_vec calloc ''tx_vin'' MAX_TX_INPUTS tx_in_deserialize) (enc_vec enc_tx_in (vin tx)) (vin tx)"
    using d c by (intro reads_get_vec tx_in_codec.reads_get) simp_all
  have outs: "reads (get_vec calloc ''tx_vout'' MAX_TX_OUTPUTS tx_out_deserialize) (enc_vec enc_tx_out (vout tx)) (vout tx)"
    using d c by (intro reads_get_vec tx_out_codec.reads_get) simp_all
  have eh: "reads (if ?v3 \<or> ?v4 then stream_read_u32_le else returnr 0)
      (enc_when (?v3 \<or> ?v4) (enc_u32 (expiry_height tx))) (expiry_height tx)"
    using d by (intro reads_if u32_codec.reads_get) (auto simp: split: if_splits)
  have gid: "reads (if ?ov then stream_read_u32_le else returnr 0) (enc_when ?ov (enc_u32 ?gid)) ?gid"
    using d by (intro reads_if u32_codec.reads_get) (auto split: if_splits)
  have fin: "transaction_compute_hash alloc hash256
      \<lparr>overwintered = ?ov, tx_version = ?ver, version_group_id = ?gid, vin = vin tx, vout = vout tx,
       lock_time = lock_time tx, expiry_height = expiry_height tx, value_balance = value_balance tx,
       v_shielded_spend = v_shielded_spend tx, v_shielded_output = v_shielded_output tx,
       v_joinsplit = v_joinsplit tx, joinsplit_pubkey = joinsplit_pubkey tx,
       joinsplit_sig = joinsplit_sig tx, binding_sig = binding_sig tx, tx_hash = replicate 32 0\<rparr> = tx"
    (is "transaction_compute_hash _ _ ?tx = _")
  proof -
    have t: "?tx = tx\<lparr>tx_hash := replicate 32 0\<rparr>" by (cases tx) simp
    have "wf_fields (tx\<lparr>tx_hash := replicate 32 0\<rparr>)" using wf by (simp add: wf_transaction_def)
    from compute_hash [OF this a] show ?thesis
      unfolding t using wf by (simp add: wf_transaction_def)
  qed
  show ?thesis
    unfolding transaction_deserialize_def enc_transaction_def Let_def
    apply (rule reads_bindr [OF u32_codec.reads_get [OF TrueI]], unfold h)
    apply (rule reads_bindr [OF gid], simp only: shape if_False)
    apply (rule reads_bindr [OF ins], rule reads_bindr [OF outs])
    apply (rule reads_bindr [OF u32_codec.reads_get [OF TrueI]], rule reads_bindr [OF eh])
    apply (rule reads_bindr [OF sap], simp only: prod.case)
    apply (rule reads_bindr [OF js], simp only: prod.case)
    apply (rule reads_bindr_return [OF bs])
    apply (rule fin)
    done
qed

interpretation transaction_codec: stream_codec transaction_serialize
  "transaction_deserialize (\<lambda>_. True) (\<lambda>_ _. True) hash256" enc_transaction "wf_transaction hash256"
  for hash256
  by unfold_locales (auto intro: writes_transaction reads_transaction simp: wf_transaction_def)

section \<open>What the readers guarantee\<close>

definition yields :: "'a reader \<Rightarrow> ('a \<Rightarrow> bool) \<Rightarrow> bool" where
  "yields r P \<longleftrightarrow> (\<forall>s s' x. r s = (s', Some x) \<longrightarrow> P x)"

named_theorems yield \<open>what a reader guarantees of the value it returns\<close>

lemma yields_bindr [yield]: "yields r P \<Longrightarrow> (\<And>x. P x \<Longrightarrow> yields (f x) Q) \<Longrightarrow> yields (bindr r f) Q"
  unfolding yields_def bindr_def by (fastforce split: prod.splits option.splits)

lemma yields_return [yield]: "P x \<Longrightarrow> yields (returnr x) P"
  by (simp add: yields_def returnr_def)

lemma yields_fail [yield]: "yields failr P"
  by (simp add: yields_def failr_def)

lemma yields_if [yield]: "(c \<Longrightarrow> yields r P) \<Longrightarrow> (\<not> c \<Longrightarrow> yields r' P) \<Longrightarrow> yields (if c then r else r') P"
  by simp

lemma yields_mono: "yields r P \<Longrightarrow> (\<And>x. P x \<Longrightarrow> Q x) \<Longrightarrow> yields r Q"
  unfolding yields_def by blast

lemma yields_True: "yields r (\<lambda>_. True)"
  by (simp add: yields_def)

lemma yields_bytes: "yields (stream_read_bytes n) (\<lambda>b. length b = n)"
  by (auto simp: yields_def stream_read_bytes_def stream_read_def)

lemma yields_i64: "yields stream_read_i64_le is_int64"
proof -
  have "is_int64 (sint (v :: u64))" for v using sint_range_size [of v] by (simp add: is_int64_def word_size)
  then show ?thesis unfolding stream_read_i64_le_def by (intro yields_bindr [OF yields_True] yield)
qed

lemma yields_get_all: "yields get P \<Longrightarrow> yields (get_all get n) (\<lambda>xs. length xs = n \<and> list_all P xs)"
proof (induction n)
  case (Suc n)
  then show ?case unfolding get_all.simps by (intro yields_bindr [where P = P] yields_bindr yields_return) auto
qed (simp add: yields_return)

lemma yields_blobs: "yields (get_all (stream_read_bytes n) k) (blobs k n)"
  using yields_get_all [OF yields_bytes] by (simp add: blobs_def [abs_def])

lemma yields_get_vec:
  "yields get P \<Longrightarrow> yields (get_vec calloc label mx get) (\<lambda>xs. length xs \<le> mx \<and> list_all P xs)"
  unfolding get_vec_def
  by (rule yields_bindr [OF yields_True]) (auto intro!: yields_fail yields_mono [OF yields_get_all] simp del: get_all.simps)

lemma yields_if_return:
  "yields r P \<Longrightarrow> yields (if c then r else returnr d) (\<lambda>x. if c then P x else x = d)"
  by (simp add: yields_return)

lemma yields_outpoint: "yields outpoint_deserialize wf_outpoint"
  unfolding outpoint_deserialize_def wf_outpoint_def
  by (rule yields_bindr [OF yields_bytes], rule yields_bindr [OF yields_True], rule yields_return) simp

lemma yields_script: "yields script_deserialize wf_script"
  unfolding script_deserialize_def wf_script_def
  by (rule yields_bindr [OF yields_True]) (auto intro!: yields_fail yields_return intro: yields_mono [OF yields_bytes])

lemma yields_tx_in: "yields tx_in_deserialize wf_tx_in"
  unfolding tx_in_deserialize_def wf_tx_in_def
  by (rule yields_bindr [OF yields_outpoint], rule yields_bindr [OF yields_script],
      rule yields_bindr [OF yields_True], rule yields_return) simp

lemma yields_tx_out: "yields tx_out_deserialize wf_tx_out"
  unfolding tx_out_deserialize_def wf_tx_out_def
  by (rule yields_bindr [OF yields_i64], rule yields_bindr [OF yields_script], rule yields_return) simp

lemma yields_spend: "yields spend_description_deserialize wf_spend"
  unfolding spend_description_deserialize_def wf_spend_def
  by ((rule yields_bindr [OF yields_bytes])+, rule yields_return) simp

lemma yields_output: "yields output_description_deserialize wf_output"
  unfolding output_description_deserialize_def wf_output_def
  by ((rule yields_bindr [OF yields_bytes])+, rule yields_return) simp

lemma yields_js: "yields (js_description_deserialize groth) (wf_js groth)"
  unfolding js_description_deserialize_def wf_js_def
  by ((rule yields_bindr [OF yields_i64] yields_bindr [OF yields_bytes] yields_bindr [OF yields_blobs])+,
      rule yields_return) simp

lemma yields_sapling_part:
  "yields (sapling_part calloc) (\<lambda>(vb, sp, ou). is_int64 vb \<and> length sp \<le> MAX_SHIELDED_SPENDS \<and> list_all wf_spend sp \<and>
     length ou \<le> MAX_SHIELDED_OUTPUTS \<and> list_all wf_output ou)"
  unfolding sapling_part_def
  by (rule yields_bindr [OF yields_i64], rule yields_bindr [OF yields_get_vec [OF yields_spend]],
      rule yields_bindr [OF yields_get_vec [OF yields_output]], rule yields_return) simp

lemma yields_joinsplit_part:
  "yields (joinsplit_part calloc groth) (\<lambda>(js, pk, sg). length js \<le> MAX_JOINSPLITS \<and> list_all (wf_js groth) js \<and>
     (if js = [] then pk = replicate 32 0 \<and> sg = replicate 64 0 else length pk = 32 \<and> length sg = 64))"
  unfolding joinsplit_part_def
  apply (rule yields_bindr [OF yields_get_vec [OF yields_js]], rule yields_if)
   apply (rule yields_bindr [OF yields_bytes], rule yields_bindr [OF yields_bytes], rule yields_return, simp)
  apply (rule yields_return, simp)
  done

lemma header_version:
  "0 \<le> sint (header AND (0x7FFFFFFF :: u32)) \<and> sint (header AND (0x7FFFFFFF :: u32)) < 2 ^ 31"
proof -
  have m: "(0x7FFFFFFF :: u32) = mask 31" by (simp add: mask_eq_exp_minus_1)
  have "sint (header AND 0x7FFFFFFF) = take_bit 31 (uint header)"
    unfolding m by (simp add: sint_uint unsigned_take_bit_eq flip: take_bit_eq_mask)
      (simp add: signed_take_bit_eq_if_positive bit_take_bit_iff)
  then show ?thesis using take_bit_int_less_exp [of 31 "uint header"] by simp
qed

lemma yields_transaction:
  assumes "\<And>c. alloc c"
  shows "yields (transaction_deserialize alloc calloc hash256) (wf_transaction hash256)"
  unfolding transaction_deserialize_def Let_def
  apply (rule yields_bindr [OF yields_True])
  apply (rule yields_bindr [OF yields_if_return [OF yields_True]], rule yields_if, rule yields_fail)
  apply (rule yields_bindr [OF yields_get_vec [OF yields_tx_in]], rule yields_bindr [OF yields_get_vec [OF yields_tx_out]])
  apply (rule yields_bindr [OF yields_True], rule yields_bindr [OF yields_if_return [OF yields_True]])
  apply (rule yields_bindr [OF yields_if_return [OF yields_sapling_part]])
  subgoal for header gid ins outs lt eh sap
    apply (cases sap, simp only: prod.case)
    apply (rule yields_bindr [OF yields_if_return [OF yields_joinsplit_part]])
    subgoal for vb sp ou jsp
      apply (cases jsp, simp only: prod.case)
      apply (rule yields_bindr [OF yields_if_return [OF yields_bytes]], rule yields_return)
      apply (rule wf_compute_hash [OF _ assms])
      using header_version [of header]
      by (auto simp: wf_fields_def wf_version_def wf_sapling_def wf_joinsplits_def split: if_splits)
    done
  done

section \<open>Amounts\<close>

lemma money_loop_append:
  "money_loop acc (xs @ ys) =
     (case money_loop acc xs of None \<Rightarrow> None | Some None \<Rightarrow> Some None | Some (Some t) \<Rightarrow> money_loop t ys)"
  by (induction acc xs rule: money_loop.induct) (simp_all split: option.splits)

lemma money_loop_iff:
  "MoneyRange acc \<Longrightarrow> money_loop acc vs = Some (Some t) \<longleftrightarrow>
     list_all MoneyRange vs \<and> MoneyRange (acc + sum_list vs) \<and> t = acc + sum_list vs"
proof (induction vs arbitrary: acc)
  case (Cons v vs)
  have nn: "list_all MoneyRange vs \<Longrightarrow> 0 \<le> sum_list vs" by (induction vs) (auto simp: MoneyRange_def)
  have ck: "ck64 (acc + v) = Some (acc + v)" if "MoneyRange v"
    using that Cons.prems by (simp add: MoneyRange_def ck64_def is_int64_def)
  show ?case
  proof (cases "MoneyRange v \<and> MoneyRange (acc + v)")
    case True
    then show ?thesis using Cons.IH [of "acc + v"] ck by (simp add: add.assoc)
  next
    case False
    then have "\<not> (list_all MoneyRange (v # vs) \<and> MoneyRange (acc + sum_list (v # vs)))"
      using nn Cons.prems by (auto simp: MoneyRange_def)
    moreover have "money_loop acc (v # vs) \<noteq> Some (Some t)" using False by (auto simp: ck64_def split: option.splits if_splits)
    ultimately show ?thesis by blast
  qed
qed auto

lemma bind_some_case: "Option.bind x (\<lambda>r. Some (case r of None \<Rightarrow> d | Some a \<Rightarrow> a)) = map_option (case_option d id) x"
  by (cases x) (simp_all split: option.splits)

definition value_out_amounts :: "transaction \<Rightarrow> int list" where
  "value_out_amounts tx = map out_value (vout tx) @ (if value_balance tx \<le> 0 then [- value_balance tx] else []) @
     map vpub_old (v_joinsplit tx)"

lemma value_out_iff:
  "(transaction_get_value_out tx = Some t \<and> t \<noteq> -1) \<longleftrightarrow>
     list_all MoneyRange (value_out_amounts tx) \<and> MoneyRange (sum_list (value_out_amounts tx)) \<and>
     t = sum_list (value_out_amounts tx)"
proof -
  have ov: "\<not> (list_all MoneyRange (value_out_amounts tx))" if "value_balance tx \<le> 0" "ck64 (- value_balance tx) = None"
    using that by (auto simp: value_out_amounts_def MoneyRange_def ck64_def is_int64_def split: if_splits)
  have r: "transaction_get_value_out tx = map_option (case_option (-1) id) (money_loop 0 (value_out_amounts tx))"
    if "\<not> (value_balance tx \<le> 0 \<and> ck64 (- value_balance tx) = None)"
    using that unfolding transaction_get_value_out_def value_out_amounts_def money_loop_append
    by (auto simp: money_loop_append bind_some_case ck64_def split: option.splits if_splits)
  have "MoneyRange 0" by (simp add: MoneyRange_def)
  then have l: "money_loop 0 (value_out_amounts tx) = Some (Some t) \<longleftrightarrow> list_all MoneyRange (value_out_amounts tx) \<and>
      MoneyRange (sum_list (value_out_amounts tx)) \<and> t = sum_list (value_out_amounts tx)"
    by (simp add: money_loop_iff)
  have neg: "\<not> MoneyRange (-1)" by (simp add: MoneyRange_def)
  show ?thesis
  proof (cases "value_balance tx \<le> 0 \<and> ck64 (- value_balance tx) = None")
    case True
    then have "transaction_get_value_out tx = None \<or> transaction_get_value_out tx = Some (-1)"
      by (auto simp: transaction_get_value_out_def split: Option.bind_splits option.splits)
    then show ?thesis using ov True by auto
  next
    case False
    then show ?thesis unfolding r [OF False] l [symmetric] using l neg by (auto split: option.splits)
  qed
qed

lemma value_out_total:
  "list_all MoneyRange (value_out_amounts tx) \<and> MoneyRange (sum_list (value_out_amounts tx)) \<Longrightarrow>
   transaction_get_value_out tx = Some (sum_list (value_out_amounts tx))"
  using value_out_iff [of tx "sum_list (value_out_amounts tx)"] by simp

section \<open>Properties\<close>

text \<open>
  C14: with memory, a transaction the parser accepts serializes without error and parses back to itself, whatever
  follows it in the stream, the whole serialization being consumed. Its txid is recomputed, so it is
  the hash of those bytes.
\<close>

theorem transaction_roundtrip:
  assumes "transaction_deserialize (\<lambda>_. True) (\<lambda>_ _. True) hash256 s0 = (s1, Some tx)"
  shows "\<exists>s. transaction_serialize (\<lambda>_. True) tx (stream_init (\<lambda>_. True) 4096) = (s, True) \<and>
             tx_hash tx = hash256 (sdata s) \<and>
             transaction_deserialize (\<lambda>_. True) (\<lambda>_ _. True) hash256 (stream_init_from_data (sdata s @ rest)) =
               (advance (length (sdata s)) (stream_init_from_data (sdata s @ rest)), Some tx)"
proof -
  have wf: "wf_transaction hash256 tx" using yields_transaction [of "\<lambda>_. True"] assms unfolding yields_def by blast
  then have "writable (\<lambda>_. True) (stream_init (\<lambda>_. True) 4096) (length (enc_transaction tx))"
    using length_enc_transaction [of tx] by (simp add: writable_def stream_init_def wf_transaction_def)
  from transaction_codec.put_total [OF wf this] obtain s where
    s: "transaction_serialize (\<lambda>_. True) tx (stream_init (\<lambda>_. True) 4096) = (s, True)"
    and d: "sdata s = enc_transaction tx" by (auto simp: extends_def stream_init_def)
  from transaction_codec.roundtrip [OF wf s, of rest] show ?thesis
    using s d wf by (auto simp: wf_transaction_def)
qed

theorem transaction_roundtrip_witness:
  "\<exists>(s :: byte_stream) tx. transaction_deserialize (\<lambda>_. True) (\<lambda>_ _. True) rev
             (stream_init_from_data (sdata s @ [9])) =
               (advance (length (sdata s)) (stream_init_from_data (sdata s @ [9])), Some tx) \<and>
           tx_version tx = 1 \<and> lock_time tx = 7"
proof -
  let ?s0 = "stream_init_from_data [1, 0, 0, 0, 0, 0, 7, 0, 0, 0]"
  obtain s1 tx where "transaction_deserialize (\<lambda>_. True) (\<lambda>_ _. True) rev ?s0 = (s1, Some tx)"
      and "tx_version tx = 1" "lock_time tx = 7"
    by (simp add: transaction_deserialize_def bindr_def stream_read_u32_le_def stream_read_def returnr_def
        stream_init_from_data_def get_vec_def stream_read_compact_size_def stream_read_u8_def Let_def
        transaction_compute_hash_def)
  then show ?thesis using transaction_roundtrip [of rev ?s0 s1 tx "[9]"] by blast
qed

text \<open>
  C30: a transaction the parser returns, with memory for its hash, is well formed: a version in the recognised shapes, counts
  within the limits of the deserializer, scripts of at most \<^verbatim>\<open>MAX_SCRIPT_SIZE\<close> bytes, fixed-size
  fields of their size, the fields its version does not carry at their initial values.
\<close>

theorem transaction_deserialize_type:
  assumes "\<forall>c. alloc c"
    and "transaction_deserialize alloc calloc hash256 s = (s', Some tx)"
  shows "wf_transaction hash256 tx"
  using yields_transaction [of alloc calloc hash256] assms unfolding yields_def by blast

theorem transaction_deserialize_type_witness:
  "\<exists>tx. wf_transaction rev tx \<and> overwintered tx \<and> expiry_height tx = 5"
proof -
  let ?s = "stream_init_from_data [3, 0, 0, 128, 0x70, 0x82, 0xC4, 3, 0, 0, 7, 0, 0, 0, 5, 0, 0, 0, 0]"
  obtain s' tx where "transaction_deserialize (\<lambda>_. True) (\<lambda>_ _. True) rev ?s = (s', Some tx)"
      and "overwintered tx" "expiry_height tx = 5"
    by (simp add: transaction_deserialize_def bindr_def stream_read_u32_le_def stream_read_def returnr_def
        stream_init_from_data_def get_vec_def stream_read_compact_size_def stream_read_u8_def Let_def
        transaction_compute_hash_def is_overwinter_v3_def is_sapling_v4_def joinsplit_part_def)
  then show ?thesis using transaction_deserialize_type [of "\<lambda>_. True" "\<lambda>_ _. True" rev ?s s' tx] by auto
qed

text \<open>
  \<^verbatim>\<open>transaction_get_value_out\<close> returns a total other than -1 exactly when every amount (outputs,
  the Sapling value entering the pool, the JoinSplits' \<^verbatim>\<open>vpub_old\<close>) and their sum are in the money
  range; the total is then the sum.
\<close>

lemma value_out_correct:
  "(transaction_get_value_out tx = Some t \<and> t \<noteq> -1) \<longleftrightarrow>
     list_all MoneyRange (value_out_amounts tx) \<and> MoneyRange (sum_list (value_out_amounts tx)) \<and>
     t = sum_list (value_out_amounts tx)"
  by (rule value_out_iff)

end
