(* ===== verification/Block.thy ===== *)
theory Block
  imports Transaction
begin

text \<open>
  Block headers, blocks and block locators and their wire format:
  \<^verbatim>\<open>lib/primitives/include/primitives/block.h\<close> and \<^verbatim>\<open>lib/primitives/src/block.c\<close>. A solution is its
  first \<^verbatim>\<open>nSolutionSize\<close> bytes.
\<close>

section \<open>Model\<close>

abbreviation (input) MAX_SOLUTION_SIZE :: nat where "MAX_SOLUTION_SIZE \<equiv> 1344"
abbreviation (input) MAX_LOCATOR_HASHES :: nat where "MAX_LOCATOR_HASHES \<equiv> 64"
abbreviation (input) MAX_BLOCK_SIZE :: nat where "MAX_BLOCK_SIZE \<equiv> 2000000"
abbreviation (input) MAX_BLOCK_TRANSACTIONS :: nat where "MAX_BLOCK_TRANSACTIONS \<equiv> 50000"

record block_header =
  hdr_nVersion :: int
  hdr_hashPrevBlock :: bytes
  hdr_hashMerkleRoot :: bytes
  hdr_hashFinalSaplingRoot :: bytes
  hdr_nTime :: u32
  hdr_nBits :: u32
  hdr_nNonce :: bytes
  hdr_nSolution :: bytes

definition block_header_init :: block_header where
  "block_header_init = \<lparr>hdr_nVersion = 4, hdr_hashPrevBlock = replicate 32 0, hdr_hashMerkleRoot = replicate 32 0,
     hdr_hashFinalSaplingRoot = replicate 32 0, hdr_nTime = 0, hdr_nBits = 0, hdr_nNonce = replicate 32 0,
     hdr_nSolution = []\<rparr>"

definition block_header_is_null :: "block_header \<Rightarrow> bool" where
  "block_header_is_null h \<longleftrightarrow> hdr_nBits h = 0"

definition block_header_get_time :: "block_header \<Rightarrow> int" where
  "block_header_get_time h = uint (hdr_nTime h)"

definition block_header_serialize :: "alloc \<Rightarrow> block_header \<Rightarrow> writer" where
  "block_header_serialize alloc h =
     seqw (stream_write_i32_le alloc (hdr_nVersion h))
    (seqw (stream_write_bytes alloc (hdr_hashPrevBlock h))
    (seqw (stream_write_bytes alloc (hdr_hashMerkleRoot h))
    (seqw (stream_write_bytes alloc (hdr_hashFinalSaplingRoot h))
    (seqw (stream_write_u32_le alloc (hdr_nTime h))
    (seqw (stream_write_u32_le alloc (hdr_nBits h))
    (seqw (stream_write_bytes alloc (hdr_nNonce h))
    (seqw (stream_write_compact_size alloc (of_nat (length (hdr_nSolution h))))
          (whenw (length (hdr_nSolution h) > 0) (stream_write_bytes alloc (hdr_nSolution h)))))))))) "

definition solution_deserialize :: "bytes reader" where
  "solution_deserialize =
     bindr stream_read_compact_size (\<lambda>sol_size.
       if unat sol_size > MAX_SOLUTION_SIZE then failr
       else if unat sol_size > 0 then stream_read_bytes (unat sol_size) else returnr [])"

definition block_header_deserialize :: "block_header reader" where
  "block_header_deserialize =
     bindr stream_read_i32_le (\<lambda>v. bindr (stream_read_bytes 32) (\<lambda>prev. bindr (stream_read_bytes 32) (\<lambda>mr.
     bindr (stream_read_bytes 32) (\<lambda>sr. bindr stream_read_u32_le (\<lambda>t. bindr stream_read_u32_le (\<lambda>bits.
     bindr (stream_read_bytes 32) (\<lambda>nonce. bindr solution_deserialize (\<lambda>sol.
       returnr \<lparr>hdr_nVersion = v, hdr_hashPrevBlock = prev, hdr_hashMerkleRoot = mr,
                hdr_hashFinalSaplingRoot = sr, hdr_nTime = t, hdr_nBits = bits, hdr_nNonce = nonce,
                hdr_nSolution = sol\<rparr>))))))))"

definition block_header_get_hash :: "alloc \<Rightarrow> hashfun \<Rightarrow> block_header \<Rightarrow> bytes" where
  "block_header_get_hash alloc hash256 h =
     hash256 (sdata (fst (block_header_serialize alloc h (stream_init alloc 256))))"

record block_locator =
  vhave :: "bytes list"

definition block_locator_init :: block_locator where
  "block_locator_init = \<lparr>vhave = []\<rparr>"

definition block_locator_free :: "block_locator \<Rightarrow> block_locator" where
  "block_locator_free loc = loc\<lparr>vhave := []\<rparr>"

definition block_locator_serialize :: "alloc \<Rightarrow> block_locator \<Rightarrow> writer" where
  "block_locator_serialize alloc loc =
     seqw (stream_write_i32_le alloc 170011) (put_vec alloc (stream_write_bytes alloc) (vhave loc))"

definition block_locator_deserialize :: "calloc \<Rightarrow> block_locator reader" where
  "block_locator_deserialize calloc =
     bindr stream_read_i32_le (\<lambda>_.
     bindr (get_vec calloc ''locator_hashes'' MAX_LOCATOR_HASHES (stream_read_bytes 32)) (\<lambda>hs.
       returnr \<lparr>vhave = hs\<rparr>))"

record block =
  blk_header :: block_header
  vtx :: "transaction list"

definition block_init :: block where
  "block_init = \<lparr>blk_header = block_header_init, vtx = []\<rparr>"

definition block_free :: "block \<Rightarrow> block" where
  "block_free b = b\<lparr>vtx := []\<rparr>"

definition block_serialize :: "alloc \<Rightarrow> block \<Rightarrow> writer" where
  "block_serialize alloc b =
     seqw (block_header_serialize alloc (blk_header b)) (put_vec alloc (transaction_serialize alloc) (vtx b))"

definition block_deserialize :: "alloc \<Rightarrow> calloc \<Rightarrow> hashfun \<Rightarrow> block reader" where
  "block_deserialize alloc calloc hash256 =
     bindr block_header_deserialize (\<lambda>h.
     bindr (get_vec calloc ''block_vtx'' MAX_BLOCK_TRANSACTIONS (transaction_deserialize alloc calloc hash256)) (\<lambda>txs.
       returnr \<lparr>blk_header = h, vtx = txs\<rparr>))"

definition block_get_hash :: "alloc \<Rightarrow> hashfun \<Rightarrow> block \<Rightarrow> bytes" where
  "block_get_hash alloc hash256 b = block_header_get_hash alloc hash256 (blk_header b)"

section \<open>Encodings\<close>

definition enc_header :: "block_header \<Rightarrow> bytes" where
  "enc_header h = enc_i32 (hdr_nVersion h) @ hdr_hashPrevBlock h @ hdr_hashMerkleRoot h @
     hdr_hashFinalSaplingRoot h @ enc_u32 (hdr_nTime h) @ enc_u32 (hdr_nBits h) @ hdr_nNonce h @
     enc_compact_size (of_nat (length (hdr_nSolution h))) @ hdr_nSolution h"

definition enc_locator :: "block_locator \<Rightarrow> bytes" where
  "enc_locator loc = enc_i32 170011 @ enc_vec (\<lambda>h. h) (vhave loc)"

definition enc_block :: "block \<Rightarrow> bytes" where
  "enc_block b = enc_header (blk_header b) @ enc_vec enc_transaction (vtx b)"

definition wf_header :: "block_header \<Rightarrow> bool" where
  "wf_header h \<longleftrightarrow> is_int32 (hdr_nVersion h) \<and> length (hdr_hashPrevBlock h) = 32 \<and>
     length (hdr_hashMerkleRoot h) = 32 \<and> length (hdr_hashFinalSaplingRoot h) = 32 \<and>
     length (hdr_nNonce h) = 32 \<and> length (hdr_nSolution h) \<le> MAX_SOLUTION_SIZE"

definition wf_locator :: "block_locator \<Rightarrow> bool" where
  "wf_locator loc \<longleftrightarrow> length (vhave loc) \<le> MAX_LOCATOR_HASHES \<and> list_all (\<lambda>h. length h = 32) (vhave loc)"

definition wf_block :: "hashfun \<Rightarrow> block \<Rightarrow> bool" where
  "wf_block hash256 b \<longleftrightarrow> wf_header (blk_header b) \<and> length (vtx b) \<le> MAX_BLOCK_TRANSACTIONS \<and>
     list_all (wf_transaction hash256) (vtx b)"

section \<open>Writers and readers agree\<close>

lemma writes_solution: "writes alloc (whenw (length x > 0) (stream_write_bytes alloc x)) x"
  using writes_whenw [of "length x > 0" alloc "stream_write_bytes alloc x" x, OF writes_bytes]
  by (simp add: enc_when_def split: if_splits)

lemma reads_solution:
  assumes "length x \<le> MAX_SOLUTION_SIZE"
  shows "reads solution_deserialize (enc_compact_size (of_nat (length x)) @ x) x"
proof -
  have n: "unat (of_nat (length x) :: u64) = length x" using assms by (simp add: unat_of_nat_length)
  show ?thesis unfolding solution_deserialize_def
    by (rule reads_bindr, rule compact_size_codec.reads_get)
      (use assms in \<open>auto simp: n reads_return reads_bytes\<close>)
qed

interpretation header_codec: stream_codec block_header_serialize block_header_deserialize enc_header wf_header
proof unfold_locales
  fix alloc :: alloc and x assume "wf_header x"
  then show "writes alloc (block_header_serialize alloc x) (enc_header x)"
    unfolding block_header_serialize_def enc_header_def wf_header_def
    by (intro writes_seqw writes_solution codec_w) simp_all
next
  fix x assume wf: "wf_header x"
  note rules = codec_r reads_solution
  have "reads block_header_deserialize
      (enc_i32 (hdr_nVersion x) @ hdr_hashPrevBlock x @ hdr_hashMerkleRoot x @ hdr_hashFinalSaplingRoot x @
       enc_u32 (hdr_nTime x) @ enc_u32 (hdr_nBits x) @ hdr_nNonce x @
       (enc_compact_size (of_nat (length (hdr_nSolution x))) @ hdr_nSolution x) @ [])
      \<lparr>hdr_nVersion = hdr_nVersion x, hdr_hashPrevBlock = hdr_hashPrevBlock x,
       hdr_hashMerkleRoot = hdr_hashMerkleRoot x, hdr_hashFinalSaplingRoot = hdr_hashFinalSaplingRoot x,
       hdr_nTime = hdr_nTime x, hdr_nBits = hdr_nBits x, hdr_nNonce = hdr_nNonce x,
       hdr_nSolution = hdr_nSolution x\<rparr>"
    unfolding block_header_deserialize_def by (rule rules | simp add: wf [unfolded wf_header_def])+
  then show "reads block_header_deserialize (enc_header x) x" by (cases x) (simp add: enc_header_def)
qed

interpretation locator_codec: stream_codec block_locator_serialize "block_locator_deserialize (\<lambda>_ _. True)"
  enc_locator wf_locator
proof unfold_locales
  fix alloc :: alloc and x assume "wf_locator x"
  have "is_int32 170011" by (simp add: is_int32_def)
  then show "writes alloc (block_locator_serialize alloc x) (enc_locator x)"
    unfolding block_locator_serialize_def enc_locator_def by (intro codec_w)
next
  fix x assume wf: "wf_locator x"
  have i: "is_int32 170011" by (simp add: is_int32_def)
  have "reads (get_vec (\<lambda>_ _. True) ''locator_hashes'' MAX_LOCATOR_HASHES (stream_read_bytes 32))
      (enc_vec (\<lambda>h. h) (vhave x)) (vhave x)"
    using wf by (intro reads_get_vec reads_bytes) (simp_all add: wf_locator_def list_all_iff)
  from reads_bindr_return [OF this, of "\<lambda>hs. \<lparr>vhave = hs\<rparr>" x]
  show "reads (block_locator_deserialize (\<lambda>_ _. True)) (enc_locator x) x"
    unfolding block_locator_deserialize_def enc_locator_def
    by (intro reads_bindr [OF i32_codec.reads_get [OF i]]) simp
qed

interpretation block_codec: stream_codec block_serialize
  "block_deserialize (\<lambda>_. True) (\<lambda>_ _. True) hash256" enc_block "wf_block hash256" for hash256
proof unfold_locales
  fix alloc :: alloc and x assume "wf_block hash256 x"
  then show "writes alloc (block_serialize alloc x) (enc_block x)"
    unfolding block_serialize_def enc_block_def wf_block_def list_all_iff
    by (intro writes_seqw header_codec.writes_put writes_put_vec transaction_codec.writes_put) auto
next
  fix x assume wf: "wf_block hash256 x"
  have t: "reads (get_vec (\<lambda>_ _. True) ''block_vtx'' MAX_BLOCK_TRANSACTIONS
      (transaction_deserialize (\<lambda>_. True) (\<lambda>_ _. True) hash256)) (enc_vec enc_transaction (vtx x)) (vtx x)"
    using wf by (intro reads_get_vec transaction_codec.reads_get) (simp_all add: wf_block_def list_all_iff)
  from reads_bindr_return [OF this, of "\<lambda>txs. \<lparr>blk_header = blk_header x, vtx = txs\<rparr>" x]
  show "reads (block_deserialize (\<lambda>_. True) (\<lambda>_ _. True) hash256) (enc_block x) x"
    unfolding block_deserialize_def enc_block_def using wf
    by (intro reads_bindr [OF header_codec.reads_get]) (simp_all add: wf_block_def)
qed

section \<open>What the readers guarantee\<close>

lemma yields_i32: "yields stream_read_i32_le is_int32"
proof -
  have "is_int32 (sint (v :: u32))" for v using sint_range_size [of v] by (simp add: is_int32_def word_size)
  then show ?thesis unfolding stream_read_i32_le_def by (intro yields_bindr [OF yields_True] yield)
qed

lemma yields_solution: "yields solution_deserialize (\<lambda>x. length x \<le> MAX_SOLUTION_SIZE)"
  unfolding solution_deserialize_def
  by (rule yields_bindr [OF yields_True]) (auto intro!: yields_fail yields_return intro: yields_mono [OF yields_bytes])

lemma yields_header: "yields block_header_deserialize wf_header"
  unfolding block_header_deserialize_def wf_header_def
  apply (rule yields_bindr [OF yields_i32], (rule yields_bindr [OF yields_bytes])+)
  apply (rule yields_bindr [OF yields_True], rule yields_bindr [OF yields_True])
  apply (rule yields_bindr [OF yields_bytes], rule yields_bindr [OF yields_solution], rule yields_return, simp)
  done

lemma yields_block:
  assumes "\<And>c. alloc c"
  shows "yields (block_deserialize alloc calloc hash256) (wf_block hash256)"
  unfolding block_deserialize_def wf_block_def
  by (rule yields_bindr [OF yields_header], rule yields_bindr [OF yields_get_vec [OF yields_transaction [OF assms]]],
      rule yields_return) simp

lemma length_enc_header: "wf_header h \<Longrightarrow> length (enc_header h) \<le> 1500"
  by (simp add: enc_header_def wf_header_def length_enc_compact_size compact_size_sizeof_def enc_i32_def)

lemma length_enc_block: "wf_block hash256 b \<Longrightarrow> length (enc_block b) < 2 ^ 63"
proof -
  assume wf: "wf_block hash256 b"
  have "length (enc_vec enc_transaction (vtx b)) \<le> 9 + length (vtx b) * 2 ^ 32"
    using wf by (intro length_enc_vec less_imp_le [OF length_enc_transaction])
      (simp add: wf_block_def list_all_iff wf_transaction_def)
  moreover have "length (vtx b) * 2 ^ 32 \<le> 50000 * 2 ^ 32" using wf by (simp add: wf_block_def)
  ultimately show ?thesis using length_enc_header [of "blk_header b"] wf by (simp add: enc_block_def wf_block_def)
qed

lemma header_serialize_fresh:
  assumes "wf_header h"
  shows "\<exists>s. block_header_serialize (\<lambda>_. True) h (stream_init (\<lambda>_. True) 256) = (s, True) \<and> sdata s = enc_header h"
proof -
  have "writable (\<lambda>_. True) (stream_init (\<lambda>_. True) 256) (length (enc_header h))"
    using length_enc_header [OF assms] by (simp add: writable_def stream_init_def)
  from header_codec.put_total [OF assms this] show ?thesis by (auto simp: extends_def stream_init_def)
qed

section \<open>Properties\<close>

text \<open>
  C15: with memory, a block the parser accepts serializes without error and parses back to the same header and
  transactions, whatever follows it in the stream.
\<close>

theorem block_roundtrip:
  assumes "block_deserialize (\<lambda>_. True) (\<lambda>_ _. True) hash256 s0 = (s1, Some b)"
  shows "\<exists>s. block_serialize (\<lambda>_. True) b (stream_init (\<lambda>_. True) 4096) = (s, True) \<and>
             block_deserialize (\<lambda>_. True) (\<lambda>_ _. True) hash256 (stream_init_from_data (sdata s @ rest)) =
               (advance (length (sdata s)) (stream_init_from_data (sdata s @ rest)), Some b)"
proof -
  have wf: "wf_block hash256 b" using yields_block [of "\<lambda>_. True"] assms unfolding yields_def by blast
  then have "writable (\<lambda>_. True) (stream_init (\<lambda>_. True) 4096) (length (enc_block b))"
    using length_enc_block [of hash256 b] by (simp add: writable_def stream_init_def)
  from block_codec.put_total [OF wf this] obtain s where
    s: "block_serialize (\<lambda>_. True) b (stream_init (\<lambda>_. True) 4096) = (s, True)"
    and d: "sdata s = enc_block b" by (auto simp: extends_def stream_init_def)
  from block_codec.roundtrip [OF wf s, of rest] show ?thesis using s d by auto
qed

theorem block_roundtrip_witness:
  "\<exists>(s :: byte_stream) b. block_deserialize (\<lambda>_. True) (\<lambda>_ _. True) rev (stream_init_from_data (sdata s @ [])) =
     (advance (length (sdata s)) (stream_init_from_data (sdata s @ [])), Some b) \<and>
     hdr_nTime (blk_header b) = 6 \<and> hdr_nSolution (blk_header b) = [8] \<and> vtx b = []"
proof -
  let ?s0 = "stream_init_from_data ([4, 0, 0, 0] @ replicate 96 1 @ [6, 0, 0, 0, 7, 0, 0, 0] @ replicate 32 2 @ [1, 8] @ [0])"
  obtain s1 b where "block_deserialize (\<lambda>_. True) (\<lambda>_ _. True) rev ?s0 = (s1, Some b)"
      and "hdr_nTime (blk_header b) = 6" "hdr_nSolution (blk_header b) = [8]" "vtx b = []"
    by (simp add: block_deserialize_def block_header_deserialize_def bindr_def stream_read_u32_le_def
        stream_read_i32_le_def stream_read_def returnr_def stream_read_bytes_def solution_deserialize_def
        stream_init_from_data_def get_vec_def stream_read_compact_size_def stream_read_u8_def Let_def)
  then show ?thesis using block_roundtrip [of rev ?s0 s1 b "[]"] by blast
qed

text \<open>
  The block hash identifies the header. Two different headers of the wire type with the same
  hash serialize to two different byte strings with the same \<^verbatim>\<open>hash256\<close>: a collision.
\<close>

lemma block_hash_identifies_header:
  assumes "wf_header h" "wf_header h'" "h \<noteq> h'"
    and "block_header_get_hash (\<lambda>_. True) hash256 h = block_header_get_hash (\<lambda>_. True) hash256 h'"
  shows "\<exists>s s'. block_header_serialize (\<lambda>_. True) h (stream_init (\<lambda>_. True) 256) = (s, True) \<and>
                block_header_serialize (\<lambda>_. True) h' (stream_init (\<lambda>_. True) 256) = (s', True) \<and>
                sdata s \<noteq> sdata s' \<and> hash256 (sdata s) = hash256 (sdata s')"
  using header_serialize_fresh [OF assms(1)] header_serialize_fresh [OF assms(2)] assms(3,4)
    header_codec.enc_inj [OF assms(1,2)] by (auto simp: block_header_get_hash_def)

end
