(* ===== verification/Merkle.thy ===== *)
theory Merkle
  imports Block
begin

text \<open>
  Merkle trees over transaction ids, \<^verbatim>\<open>lib/bloom/src/merkle.c\<close>: the in-place root computation with its
  duplicate-tail flag, and the partial trees that prove a set of transactions belongs to a block.
  \<^verbatim>\<open>unsigned int\<close> values are naturals reduced modulo \<open>2 ^ 32\<close>, an array read outside its bounds is \<open>None\<close>.

  The reference is \<open>up\<close>, one level of the tree as a list function. The in-place pass computes it, the
  recursive \<open>calc_hash\<close> computes its iterates, and the tree of a block is bound by its root.
\<close>

section \<open>Model\<close>

abbreviation (input) MAX_MERKLE_HASHES :: nat where "MAX_MERKLE_HASHES \<equiv> 65536"
abbreviation (input) MAX_MERKLE_BITS :: nat where "MAX_MERKLE_BITS \<equiv> 131072"
abbreviation (input) u32m :: "nat \<Rightarrow> nat" where "u32m n \<equiv> n mod 2 ^ 32"

record partial_merkle_tree =
  pmt_num_transactions :: nat
  pmt_bits :: "u8 list"
  pmt_hashes :: "bytes list"
  pmt_bad :: bool

definition merkle_tree_init :: partial_merkle_tree where
  "merkle_tree_init = \<lparr>pmt_num_transactions = 0, pmt_bits = [], pmt_hashes = [], pmt_bad = False\<rparr>"

definition merkle_tree_free :: "partial_merkle_tree \<Rightarrow> partial_merkle_tree" where
  "merkle_tree_free t = t\<lparr>pmt_bits := [], pmt_hashes := []\<rparr>"

definition merkle_hash_pair :: "hashfun \<Rightarrow> bytes \<Rightarrow> bytes \<Rightarrow> bytes" where
  "merkle_hash_pair hash256 left right = hash256 (left @ right)"

definition calc_tree_width :: "nat \<Rightarrow> nat \<Rightarrow> nat" where
  "calc_tree_width n_transactions height = u32m (n_transactions + 2 ^ height - 1) div 2 ^ height"

fun calc_hash :: "hashfun \<Rightarrow> nat \<Rightarrow> nat \<Rightarrow> nat \<Rightarrow> bytes list \<Rightarrow> bytes option" where
  "calc_hash hash256 n_tx 0 pos txids = (if pos < length txids then Some (txids ! pos) else None)"
| "calc_hash hash256 n_tx (Suc h) pos txids =
     do { left \<leftarrow> calc_hash hash256 n_tx h (u32m (pos * 2)) txids;
          right \<leftarrow> (if u32m (pos * 2 + 1) < calc_tree_width n_tx h
                    then calc_hash hash256 n_tx h (u32m (pos * 2 + 1)) txids else Some left);
          Some (merkle_hash_pair hash256 left right) }"

record build_state =
  bs_bits :: "u8 list"
  bs_bits_cap :: nat
  bs_hashes :: "bytes list"
  bs_hashes_cap :: nat

definition build_add_bit :: "bool \<Rightarrow> build_state \<Rightarrow> build_state" where
  "build_add_bit b s = (if length (bs_bits s) \<ge> bs_bits_cap s then s
                          else s\<lparr>bs_bits := bs_bits s @ [if b then 1 else 0]\<rparr>)"

definition build_add_hash :: "bytes \<Rightarrow> build_state \<Rightarrow> build_state" where
  "build_add_hash h s = (if length (bs_hashes s) \<ge> bs_hashes_cap s then s
                         else s\<lparr>bs_hashes := bs_hashes s @ [h]\<rparr>)"

definition parent_of_match :: "nat \<Rightarrow> nat \<Rightarrow> nat \<Rightarrow> bool list \<Rightarrow> bool" where
  "parent_of_match n_tx height pos match =
     list_ex (\<lambda>p. match ! p) [u32m (pos * 2 ^ height)..<min (u32m ((pos + 1) * 2 ^ height)) n_tx]"

fun traverse_and_build ::
  "hashfun \<Rightarrow> nat \<Rightarrow> nat \<Rightarrow> nat \<Rightarrow> bytes list \<Rightarrow> bool list \<Rightarrow> build_state \<Rightarrow> build_state option" where
  "traverse_and_build hash256 n_tx 0 pos txids match s =
     (let s1 = build_add_bit (parent_of_match n_tx 0 pos match) s
      in do { h \<leftarrow> calc_hash hash256 n_tx 0 pos txids; Some (build_add_hash h s1) })"
| "traverse_and_build hash256 n_tx (Suc height) pos txids match s =
     (let pm = parent_of_match n_tx (Suc height) pos match; s1 = build_add_bit pm s
      in if \<not> pm then do { h \<leftarrow> calc_hash hash256 n_tx (Suc height) pos txids; Some (build_add_hash h s1) }
         else do { s2 \<leftarrow> traverse_and_build hash256 n_tx height (u32m (pos * 2)) txids match s1;
                   if u32m (pos * 2 + 1) < calc_tree_width n_tx height
                   then traverse_and_build hash256 n_tx height (u32m (pos * 2 + 1)) txids match s2
                   else Some s2 })"

lemma width_loop_decr: "calc_tree_width n h > 1 \<Longrightarrow> h < 32"
proof (rule ccontr)
  assume a: "calc_tree_width n h > 1" "\<not> h < 32"
  have "u32m (n + 2 ^ h - 1) < 2 ^ 32" by simp
  also have "(2::nat) ^ 32 \<le> 2 ^ h" using a by (intro power_increasing) auto
  finally show False using a by (simp add: calc_tree_width_def)
qed

function tree_height_loop :: "nat \<Rightarrow> nat \<Rightarrow> nat" where
  "tree_height_loop n height =
     (if calc_tree_width n height > 1 then tree_height_loop n (height + 1) else height)"
  by auto
termination
  by (relation "measure (\<lambda>(n, h). 32 - h)") (auto dest!: width_loop_decr [simplified])

declare tree_height_loop.simps [simp del]

definition merkle_tree_build ::
  "hashfun \<Rightarrow> calloc \<Rightarrow> bytes list \<Rightarrow> bool list \<Rightarrow> partial_merkle_tree \<Rightarrow> (partial_merkle_tree \<times> bool) option" where
  "merkle_tree_build hash256 calloc txids match t =
     (if length txids = 0 \<or> length txids \<noteq> length match \<or> length txids > MAX_MERKLE_HASHES then Some (t, False)
      else
        (let n = length txids; t1 = t\<lparr>pmt_num_transactions := n, pmt_bad := False\<rparr>;
             height = tree_height_loop n 0;
             s = \<lparr>bs_bits = [], bs_bits_cap = MAX_MERKLE_BITS, bs_hashes = [], bs_hashes_cap = n\<rparr>
         in if \<not> calloc ''merkle_build_bits'' MAX_MERKLE_BITS \<or> \<not> calloc ''merkle_build_hashes'' n
            then Some (t1, False)
            else do { s' \<leftarrow> traverse_and_build hash256 n height 0 txids match s;
                      Some (t1\<lparr>pmt_bits := bs_bits s', pmt_hashes := bs_hashes s'\<rparr>, True) }))"

text \<open>The mutable part of an extraction: \<^verbatim>\<open>t->bad\<close>, the two cursors and the matched ids.\<close>

record extract_state =
  ex_bad :: bool
  ex_bits_used :: nat
  ex_hash_used :: nat
  ex_matched :: "bytes list"

definition uint256_zero :: bytes where
  "uint256_zero = replicate 32 0"

definition extract_hash :: "partial_merkle_tree \<Rightarrow> bool \<Rightarrow> nat \<Rightarrow> extract_state \<Rightarrow> extract_state \<times> bytes" where
  "extract_hash t leaf_match matched_cap s =
     (if ex_hash_used s \<ge> length (pmt_hashes t) then (s\<lparr>ex_bad := True\<rparr>, uint256_zero)
      else
        (let h = pmt_hashes t ! ex_hash_used s; s1 = s\<lparr>ex_hash_used := u32m (ex_hash_used s + 1)\<rparr>
         in (if leaf_match \<and> length (ex_matched s1) < matched_cap
             then s1\<lparr>ex_matched := ex_matched s1 @ [h]\<rparr> else s1, h)))"

fun traverse_and_extract ::
  "hashfun \<Rightarrow> partial_merkle_tree \<Rightarrow> nat \<Rightarrow> nat \<Rightarrow> nat \<Rightarrow> extract_state \<Rightarrow> extract_state \<times> bytes" where
  "traverse_and_extract hash256 t cap 0 pos s =
     (if ex_bits_used s \<ge> length (pmt_bits t) then (s\<lparr>ex_bad := True\<rparr>, uint256_zero)
      else (let pm = (pmt_bits t ! ex_bits_used s \<noteq> 0); s1 = s\<lparr>ex_bits_used := u32m (ex_bits_used s + 1)\<rparr>
            in extract_hash t pm cap s1))"
| "traverse_and_extract hash256 t cap (Suc height) pos s =
     (if ex_bits_used s \<ge> length (pmt_bits t) then (s\<lparr>ex_bad := True\<rparr>, uint256_zero)
      else (let pm = (pmt_bits t ! ex_bits_used s \<noteq> 0); s1 = s\<lparr>ex_bits_used := u32m (ex_bits_used s + 1)\<rparr>
            in if \<not> pm then extract_hash t False cap s1
               else (case traverse_and_extract hash256 t cap height (u32m (pos * 2)) s1 of
                       (s2, left) \<Rightarrow>
                         if u32m (pos * 2 + 1) < calc_tree_width (pmt_num_transactions t) height
                         then (case traverse_and_extract hash256 t cap height (u32m (pos * 2 + 1)) s2 of
                                 (s3, right) \<Rightarrow>
                                   (if right = left then s3\<lparr>ex_bad := True\<rparr> else s3,
                                    merkle_hash_pair hash256 left right))
                         else (s2, merkle_hash_pair hash256 left left))))"

text \<open>Returns the tree with its new \<^verbatim>\<open>bad\<close> flag, the matched ids, the root and the C return value.\<close>

definition merkle_tree_extract ::
  "hashfun \<Rightarrow> partial_merkle_tree \<Rightarrow> partial_merkle_tree \<times> bytes list \<times> bytes option \<times> bool" where
  "merkle_tree_extract hash256 t =
     (if pmt_num_transactions t = 0 \<or> length (pmt_hashes t) > pmt_num_transactions t \<or>
         length (pmt_bits t) < length (pmt_hashes t)
      then (t, [], None, False)
      else
        (case traverse_and_extract hash256 t (pmt_num_transactions t) (tree_height_loop (pmt_num_transactions t) 0) 0
                \<lparr>ex_bad = False, ex_bits_used = 0, ex_hash_used = 0, ex_matched = []\<rparr> of
           (s, root) \<Rightarrow>
             (t\<lparr>pmt_bad := ex_bad s\<rparr>, ex_matched s, Some root,
              \<not> ex_bad s \<and> u32m (ex_bits_used s + 7) div 8 = (length (pmt_bits t) + 7) div 8 \<and>
              ex_hash_used s = length (pmt_hashes t))))"

text \<open>One pass of \<^verbatim>\<open>compute_merkle_root_mutated\<close> over the level array, in place.\<close>

function merkle_level_loop ::
  "hashfun \<Rightarrow> nat \<Rightarrow> nat \<Rightarrow> bytes list \<Rightarrow> bool \<Rightarrow> bytes list \<times> bool" where
  "merkle_level_loop hash256 i level_size level mutated =
     (if i < level_size
      then let i2 = (if i + 1 < level_size then i + 1 else level_size - 1);
               mutated' = (mutated \<or> (i2 = i + 1 \<and> i2 + 1 = level_size \<and> level ! i = level ! i2))
           in merkle_level_loop hash256 (i + 2) level_size
                (level[i div 2 := merkle_hash_pair hash256 (level ! i) (level ! i2)]) mutated'
      else (level, mutated))"
  by auto
termination by (relation "measure (\<lambda>(_, i, n, _, _). n - i)") auto

declare merkle_level_loop.simps [simp del]

function merkle_levels :: "hashfun \<Rightarrow> nat \<Rightarrow> bytes list \<Rightarrow> bool \<Rightarrow> bytes list \<times> bool" where
  "merkle_levels hash256 level_size level mutated =
     (if level_size > 1
      then case merkle_level_loop hash256 0 level_size level mutated of
             (level', mutated') \<Rightarrow> merkle_levels hash256 ((level_size + 1) div 2) level' mutated'
      else (level, mutated))"
  by auto
termination by (relation "measure (\<lambda>(_, n, _, _). n)") auto

declare merkle_levels.simps [simp del]

definition compute_merkle_root_mutated :: "hashfun \<Rightarrow> alloc \<Rightarrow> bytes list \<Rightarrow> bytes \<times> bool" where
  "compute_merkle_root_mutated hash256 alloc txids =
     (if length txids = 0 then (uint256_zero, False)
      else if length txids = 1 then (txids ! 0, False)
      else if \<not> alloc (length txids * 32) then (uint256_zero, False)
      else case merkle_levels hash256 (length txids) txids False of (level, mutated) \<Rightarrow> (level ! 0, mutated))"

definition compute_merkle_root :: "hashfun \<Rightarrow> alloc \<Rightarrow> bytes list \<Rightarrow> bytes" where
  "compute_merkle_root hash256 alloc txids = fst (compute_merkle_root_mutated hash256 alloc txids)"

section \<open>One level as a list function\<close>

fun up :: "hashfun \<Rightarrow> bytes list \<Rightarrow> bytes list" where
  "up H [] = []"
| "up H [x] = [merkle_hash_pair H x x]"
| "up H (x # y # r) = merkle_hash_pair H x y # up H r"

lemma length_up [simp]: "length (up H xs) = (length xs + 1) div 2"
  by (induction H xs rule: up.induct) auto

lemma nth_up:
  "2 * p < length xs \<Longrightarrow>
   up H xs ! p = merkle_hash_pair H (xs ! (2 * p)) (xs ! (if 2 * p + 1 < length xs then 2 * p + 1 else 2 * p))"
proof (induction H xs arbitrary: p rule: up.induct)
  case (3 H x y r)
  then show ?case by (cases p) auto
qed auto

text \<open>The last two entries of a level of even size are equal.\<close>

definition dup_tail :: "bytes list \<Rightarrow> bool" where
  "dup_tail lv \<longleftrightarrow> even (length lv) \<and> length lv \<ge> 2 \<and> lv ! (length lv - 2) = lv ! (length lv - 1)"

lemma level_loop:
  assumes "even i" "n \<le> length lv"
  shows "\<exists>lv'. merkle_level_loop H i n lv m =
           (lv', m \<or> (i < n \<and> even n \<and> lv ! (n - 2) = lv ! (n - 1))) \<and>
         length lv' = length lv \<and>
         (\<forall>p < i div 2. lv' ! p = lv ! p) \<and>
         (\<forall>p \<ge> i div 2. 2 * p < n \<longrightarrow>
            lv' ! p = merkle_hash_pair H (lv ! (2 * p)) (lv ! (if 2 * p + 1 < n then 2 * p + 1 else 2 * p)))"
  using assms
proof (induction H i n lv m rule: merkle_level_loop.induct)
  case (1 H i n lv m)
  show ?case
  proof (cases "i < n")
    case False
    have "2 * (i div 2) = i" using 1(2) by simp
    then have "\<not> 2 * p < n" if "i div 2 \<le> p" for p using that False by linarith
    then show ?thesis using False by (subst merkle_level_loop.simps) auto
  next
    case True
    define i2 where "i2 = (if i + 1 < n then i + 1 else n - 1)"
    define m' where "m' = (m \<or> (i2 = i + 1 \<and> i2 + 1 = n \<and> lv ! i = lv ! i2))"
    define lv1 where "lv1 = lv[i div 2 := merkle_hash_pair H (lv ! i) (lv ! i2)]"
    have st: "merkle_level_loop H i n lv m = merkle_level_loop H (i + 2) n lv1 m'"
      using True by (subst merkle_level_loop.simps) (simp add: i2_def m'_def lv1_def Let_def)
    obtain lv' where r: "merkle_level_loop H (i + 2) n lv1 m' =
          (lv', m' \<or> (i + 2 < n \<and> even n \<and> lv1 ! (n - 2) = lv1 ! (n - 1)))"
        and l: "length lv' = length lv1"
        and lo: "\<forall>p < (i + 2) div 2. lv' ! p = lv1 ! p"
        and hi: "\<forall>p \<ge> (i + 2) div 2. 2 * p < n \<longrightarrow>
            lv' ! p = merkle_hash_pair H (lv1 ! (2 * p)) (lv1 ! (if 2 * p + 1 < n then 2 * p + 1 else 2 * p))"
      using 1(1) [OF True i2_def m'_def] 1(2,3) unfolding lv1_def by auto
    have far: "lv1 ! q = lv ! q" if "q \<noteq> i div 2" for q using that by (simp add: lv1_def)
    have near: "lv1 ! (i div 2) = merkle_hash_pair H (lv ! i) (lv ! i2)"
      using True 1(3) by (simp add: lv1_def)
    have flag: "(m' \<or> (i + 2 < n \<and> even n \<and> lv1 ! (n - 2) = lv1 ! (n - 1))) =
        (m \<or> (i < n \<and> even n \<and> lv ! (n - 2) = lv ! (n - 1)))"
    proof -
      consider "n = i + 1" | "n = i + 2" | "n > i + 2" using True by linarith
      then show ?thesis
      proof cases
        case 3
        then have "lv1 ! (n - 2) = lv ! (n - 2)" "lv1 ! (n - 1) = lv ! (n - 1)" by (simp_all add: far)
        then show ?thesis using 3 by (simp add: m'_def i2_def)
      qed (use 1(2) in \<open>auto simp: m'_def i2_def\<close>)
    qed
    have "\<forall>p < i div 2. lv' ! p = lv ! p" using lo far by simp
    moreover have "lv' ! p = merkle_hash_pair H (lv ! (2 * p)) (lv ! (if 2 * p + 1 < n then 2 * p + 1 else 2 * p))"
      if "p \<ge> i div 2" "2 * p < n" for p
    proof (cases "p = i div 2")
      case eq: True
      then have "2 * p = i" using 1(2) by simp
      moreover have "i2 = (if i + 1 < n then i + 1 else i)" using True by (auto simp: i2_def)
      ultimately show ?thesis using lo near eq True by simp
    next
      case False
      then have "p \<ge> (i + 2) div 2" using that by simp
      moreover have "2 * p \<noteq> i div 2" "2 * p + 1 \<noteq> i div 2" using that False by auto
      ultimately show ?thesis using hi that far by simp
    qed
    ultimately show ?thesis using st r l flag by (auto simp: lv1_def)
  qed
qed

lemma level_loop_up:
  assumes "n \<le> length lv" "0 < n"
  shows "\<exists>lv'. merkle_level_loop H 0 n lv m = (lv', m \<or> dup_tail (take n lv)) \<and> length lv' = length lv \<and>
           take ((n + 1) div 2) lv' = up H (take n lv)"
proof -
  obtain lv' where r: "merkle_level_loop H 0 n lv m = (lv', m \<or> (even n \<and> lv ! (n - 2) = lv ! (n - 1)))"
    and l: "length lv' = length lv"
    and h: "\<forall>p. 2 * p < n \<longrightarrow>
        lv' ! p = merkle_hash_pair H (lv ! (2 * p)) (lv ! (if 2 * p + 1 < n then 2 * p + 1 else 2 * p))"
    using level_loop [of 0 n lv H m] assms by auto
  have d: "dup_tail (take n lv) \<longleftrightarrow> even n \<and> lv ! (n - 2) = lv ! (n - 1)"
    using assms by (auto simp: dup_tail_def min_def)
  have "take ((n + 1) div 2) lv' ! p = up H (take n lv) ! p" if "p < (n + 1) div 2" for p
    using that h assms by (subst nth_up) (auto simp: min_def)
  then have "take ((n + 1) div 2) lv' = up H (take n lv)"
    using assms l by (subst list_eq_iff_nth_eq) (auto simp: min_def)
  then show ?thesis using r l d by auto
qed

text \<open>The root of a list, its duplicate-tail flag and the strings hashed on the way.\<close>

function ref_root :: "hashfun \<Rightarrow> bytes list \<Rightarrow> bytes \<times> bool" where
  "ref_root H lv =
     (if length lv > 1 then case ref_root H (up H lv) of (r, m) \<Rightarrow> (r, m \<or> dup_tail lv) else (lv ! 0, False))"
  by auto
termination by (relation "measure (\<lambda>(_, lv). length lv)") auto

declare ref_root.simps [simp del]

lemma merkle_levels_ref:
  "n \<le> length lv \<Longrightarrow> 0 < n \<Longrightarrow>
   \<exists>lv'. merkle_levels H n lv m = (lv', m \<or> snd (ref_root H (take n lv))) \<and> lv' ! 0 = fst (ref_root H (take n lv))"
proof (induction H n lv m rule: merkle_levels.induct)
  case (1 H n lv m)
  show ?case
  proof (cases "n > 1")
    case False
    then show ?thesis using 1 by (subst merkle_levels.simps, subst (1 2) ref_root.simps) simp
  next
    case True
    from level_loop_up [OF 1(2,3)] obtain lv1
      where r: "merkle_level_loop H 0 n lv m = (lv1, m \<or> dup_tail (take n lv))"
        and l: "length lv1 = length lv" and t: "take ((n + 1) div 2) lv1 = up H (take n lv)" by blast
    have "(n + 1) div 2 \<le> length lv1" "0 < (n + 1) div 2" using True l 1(2) by auto
    from 1(1) [OF True r [symmetric] this] show ?thesis
      using r t True 1(2) unfolding t
      by (subst merkle_levels.simps, subst (1 2) ref_root.simps) (auto simp: min_def split: prod.splits)
  qed
qed

lemma compute_merkle_root_ref:
  assumes "txids \<noteq> []" "\<And>c. alloc c"
  shows "compute_merkle_root_mutated H alloc txids = ref_root H txids"
proof (cases "length txids = 1")
  case True
  then show ?thesis by (subst ref_root.simps) (simp add: compute_merkle_root_mutated_def)
next
  case False
  then show ?thesis using merkle_levels_ref [of "length txids" txids H False] assms
    by (auto simp: compute_merkle_root_mutated_def prod_eq_iff split: prod.splits)
qed

section \<open>Iterated levels and the recursive hash\<close>

definition width :: "nat \<Rightarrow> nat \<Rightarrow> nat" where
  "width n h = (n + 2 ^ h - 1) div 2 ^ h"

lemma width_Suc: "width n (Suc h) = (width n h + 1) div 2"
proof -
  have "(m + 2 ^ h) div 2 ^ h = m div 2 ^ h + 1" for m :: nat using div_add_self2 [of "2 ^ h" m] by simp
  then have "(width n h + 1) div 2 = (n + 2 ^ h - 1 + 2 ^ h) div 2 ^ h div 2" by (simp only: width_def)
  also have "\<dots> = (n + 2 ^ h - 1 + 2 ^ h) div (2 ^ h * 2)" by (simp only: div_mult2_eq)
  also have "n + 2 ^ h - 1 + 2 ^ h = n + 2 ^ Suc h - 1" by simp
  finally show ?thesis by (simp add: width_def mult.commute)
qed

lemma width_0 [simp]: "width n 0 = n"
  by (simp add: width_def)

lemma length_levels: "length ((up H ^^ h) txids) = width (length txids) h"
  by (induction h) (simp_all add: width_Suc)

lemma width_up: "width (length (up H txids)) k = width (length txids) (Suc k)"
  using length_levels [where H = H and h = k and txids = "up H txids"]
    length_levels [where H = H and h = "Suc k" and txids = txids]
  by (simp only: funpow_Suc_right o_apply)

lemma up_Nil_iff: "up H txids = [] \<longleftrightarrow> txids = []"
  by (cases "(H, txids)" rule: up.cases) auto

lemma width_le: "width n h \<le> n"
  by (induction h) (simp_all add: width_Suc)

lemma width_pos: "0 < n \<Longrightarrow> 0 < width n h"
  by (induction h) (auto simp: width_Suc)

text \<open>In the range of \<^verbatim>\<open>merkle_tree_build\<close> the unsigned width does not wrap.\<close>

lemma calc_width:
  assumes "n \<le> 65536" "h \<le> 16"
  shows "calc_tree_width n h = width n h"
proof -
  have "(2::nat) ^ h \<le> 2 ^ 16" using assms by (intro power_increasing) auto
  then have "n + 2 ^ h - 1 < 2 ^ 32" using assms by simp
  then show ?thesis by (simp add: calc_tree_width_def width_def)
qed

lemma width_small: "n \<le> 2 ^ h \<Longrightarrow> width n h \<le> 1"
proof -
  assume "n \<le> 2 ^ h"
  moreover have "(1::nat) \<le> 2 ^ h" by simp
  ultimately have "n + 2 ^ h - 1 < 2 * 2 ^ h" by arith
  then have "(n + 2 ^ h - 1) div 2 ^ h < 2" by (simp add: less_mult_imp_div_less mult.commute)
  then show ?thesis by (simp add: width_def)
qed

lemma height_loop:
  assumes "n \<le> 65536" "h \<le> 16" "\<forall>k < h. width n k > 1"
  shows "tree_height_loop n h \<le> 16 \<and> width n (tree_height_loop n h) \<le> 1 \<and> (\<forall>k < tree_height_loop n h. width n k > 1)"
  using assms
proof (induction "16 - h" arbitrary: h)
  case 0
  then have "h = 16" by simp
  moreover have "width n 16 \<le> 1" using 0 by (intro width_small) simp
  ultimately show ?case using 0 by (subst (1 2 3) tree_height_loop.simps) (simp add: calc_width)
next
  case (Suc d)
  show ?case
  proof (cases "width n h > 1")
    case True
    then have "\<forall>k < h + 1. width n k > 1" using Suc.prems by (auto simp: less_Suc_eq)
    then show ?thesis using Suc.hyps(1) [of "h + 1"] Suc.hyps(2) Suc.prems True
      by (subst (1 2 3) tree_height_loop.simps) (simp add: calc_width)
  next
    case False
    then show ?thesis using Suc.prems by (subst (1 2 3) tree_height_loop.simps) (simp add: calc_width)
  qed
qed

lemma calc_hash_levels:
  assumes "length txids = n" "n \<le> 65536" "h \<le> 16" "pos < width n h"
  shows "calc_hash H n h pos txids = Some ((up H ^^ h) txids ! pos)"
  using assms
proof (induction h arbitrary: pos)
  case (Suc h)
  have w: "calc_tree_width n h = width n h" using Suc.prems by (intro calc_width) auto
  have p: "2 * pos < width n h" using Suc.prems by (simp add: width_Suc)
  have "width n h \<le> 65536" using width_le [of n h] Suc.prems by simp
  then have m: "u32m (pos * 2) = 2 * pos" "u32m (pos * 2 + 1) = 2 * pos + 1" using p by auto
  have "(up H ^^ Suc h) txids ! pos = merkle_hash_pair H ((up H ^^ h) txids ! (2 * pos))
      ((up H ^^ h) txids ! (if 2 * pos + 1 < width n h then 2 * pos + 1 else 2 * pos))"
    using p Suc.prems by (simp add: nth_up length_levels)
  then show ?case using Suc p by (simp only: calc_hash.simps m w) simp
qed simp

lemma ref_root_levels:
  assumes "width (length txids) h \<le> 1" "\<forall>k < h. width (length txids) k > 1" "txids \<noteq> []"
  shows "fst (ref_root H txids) = (up H ^^ h) txids ! 0"
  using assms
proof (induction h arbitrary: txids)
  case 0
  then show ?case by (subst ref_root.simps) simp
next
  case (Suc h)
  have "1 < length txids" using Suc.prems(2) by (metis width_0 zero_less_Suc)
  moreover have "fst (ref_root H (up H txids)) = (up H ^^ h) (up H txids) ! 0"
  proof (rule Suc.IH)
    show "width (length (up H txids)) h \<le> 1" unfolding width_up by (rule Suc.prems(1))
    show "\<forall>k < h. width (length (up H txids)) k > 1" unfolding width_up using Suc.prems(2) Suc_less_eq by blast
    show "up H txids \<noteq> []" using Suc.prems(3) by (simp add: up_Nil_iff)
  qed
  ultimately show ?case by (subst ref_root.simps) (auto simp: funpow_Suc_right simp del: funpow.simps split: prod.splits)
qed

section \<open>The root binds the list\<close>

fun pair_inputs :: "bytes list \<Rightarrow> bytes list" where
  "pair_inputs [] = []"
| "pair_inputs [x] = [x @ x]"
| "pair_inputs (x # y # r) = (x @ y) # pair_inputs r"

function merkle_inputs :: "hashfun \<Rightarrow> bytes list \<Rightarrow> bytes list" where
  "merkle_inputs H lv = (if length lv > 1 then pair_inputs lv @ merkle_inputs H (up H lv) else [])"
  by auto
termination by (relation "measure (\<lambda>(_, lv). length lv)") auto

declare merkle_inputs.simps [simp del]

abbreviation (input) ids :: "bytes list \<Rightarrow> bool" where
  "ids xs \<equiv> list_all (\<lambda>h. length h = 32) xs"

lemma up_map: "up H xs = map H (pair_inputs xs)"
  by (induction H xs rule: up.induct) (simp_all add: merkle_hash_pair_def)

lemma pair_inputs_Nil [simp]: "pair_inputs r = [] \<longleftrightarrow> r = []" "[] = pair_inputs r \<longleftrightarrow> r = []"
  by (cases r rule: pair_inputs.cases; simp)+

lemma dup_tail_Cons2: "dup_tail r \<Longrightarrow> dup_tail (x # y # r)"
  by (cases r rule: pair_inputs.cases) (simp_all add: dup_tail_def)

lemma pair_inputs_inj:
  assumes "ids xs" "ids ys" "pair_inputs xs = pair_inputs ys" "\<not> dup_tail xs" "\<not> dup_tail ys"
  shows "xs = ys"
  using assms
proof (induction xs arbitrary: ys rule: pair_inputs.induct)
  case 1
  then show ?case by (cases ys rule: pair_inputs.cases) auto
next
  case (2 x)
  then show ?case
    by (cases ys rule: pair_inputs.cases) (auto simp: dup_tail_def)
next
  case (3 x y r)
  show ?case
  proof (cases ys rule: pair_inputs.cases)
    case (3 x' y' r')
    have "x @ y = x' @ y'" "pair_inputs r = pair_inputs r'" using "3.prems"(3) 3 by simp_all
    moreover have "length x = length x'" "ids r" "ids r'" using "3.prems"(1,2) 3 by simp_all
    moreover have "\<not> dup_tail r" "\<not> dup_tail r'"
      using "3.prems"(4,5) 3 by (auto dest: dup_tail_Cons2)
    ultimately show ?thesis using "3.IH" [of r'] 3 by simp
  qed (use "3.prems" in \<open>auto simp: dup_tail_def\<close>)
qed

lemma ids_up: "(\<And>m. length (H m) = 32) \<Longrightarrow> ids (up H xs)"
  by (simp add: up_map list_all_iff)

lemma ref_root_binds:
  assumes "\<And>m. length (H m) = 32" "ids xs" "ids ys" "xs \<noteq> []" "ys \<noteq> []"
    and "width (length xs) h \<le> 1" "\<forall>k < h. width (length xs) k > 1"
    and "width (length ys) h \<le> 1" "\<forall>k < h. width (length ys) k > 1"
    and "inj_on H (set (merkle_inputs H xs) \<union> set (merkle_inputs H ys))"
    and "ref_root H xs = (r, False)" "ref_root H ys = (r, False)"
  shows "xs = ys"
  using assms(2-)
proof (induction h arbitrary: xs ys)
  case 0
  then have "length xs = 1" "length ys = 1" by (simp_all add: le_Suc_eq)
  moreover from this have "xs ! 0 = ys ! 0" using 0 by (simp add: ref_root.simps)
  ultimately show ?case by (simp add: length_Suc_conv) auto
next
  case (Suc h)
  have l: "length xs > 1" "length ys > 1" using Suc.prems(6,8) by (metis width_0 zero_less_Suc)+
  have rx: "ref_root H (up H xs) = (r, False)" "\<not> dup_tail xs"
    using Suc.prems(10) l(1) by (subst (asm) ref_root.simps, auto split: prod.splits)+
  have ry: "ref_root H (up H ys) = (r, False)" "\<not> dup_tail ys"
    using Suc.prems(11) l(2) by (subst (asm) ref_root.simps, auto split: prod.splits)+
  have ix: "set (merkle_inputs H xs) = set (pair_inputs xs) \<union> set (merkle_inputs H (up H xs))"
    "set (merkle_inputs H ys) = set (pair_inputs ys) \<union> set (merkle_inputs H (up H ys))"
    using l by (simp_all add: merkle_inputs.simps [of H xs] merkle_inputs.simps [of H ys])
  have w: "width (length (up H xs)) h \<le> 1" "\<forall>k < h. width (length (up H xs)) k > 1"
    "width (length (up H ys)) h \<le> 1" "\<forall>k < h. width (length (up H ys)) k > 1"
    unfolding width_up using Suc.prems(5-8) Suc_less_eq by blast+
  have inj: "inj_on H (set (merkle_inputs H (up H xs)) \<union> set (merkle_inputs H (up H ys)))"
    using Suc.prems(9) by (rule inj_on_subset) (auto simp: ix)
  have "up H xs = up H ys"
    by (intro Suc.IH [OF _ _ _ _ w inj rx(1) ry(1)])
      (simp_all add: assms(1) ids_up up_Nil_iff Suc.prems(3,4))
  then have "pair_inputs xs = pair_inputs ys" unfolding up_map
    by (rule map_inj_on) (use Suc.prems(9) ix in \<open>auto intro: inj_on_subset\<close>)
  then show ?case using pair_inputs_inj Suc.prems(1,2) rx(2) ry(2) by blast
qed

section \<open>Partial trees\<close>

text \<open>What a partial tree contains below a node: its bits, its hashes and the matched ids.\<close>

definition leaves :: "nat \<Rightarrow> nat \<Rightarrow> nat \<Rightarrow> nat list" where
  "leaves n h pos = [pos * 2 ^ h..<min ((pos + 1) * 2 ^ h) n]"

definition pmatched :: "bytes list \<Rightarrow> bool list \<Rightarrow> nat \<Rightarrow> nat \<Rightarrow> bytes list" where
  "pmatched txids match h pos = map (\<lambda>p. txids ! p) (filter (\<lambda>p. match ! p) (leaves (length txids) h pos))"

fun pbits :: "nat \<Rightarrow> bool list \<Rightarrow> nat \<Rightarrow> nat \<Rightarrow> u8 list" where
  "pbits n match 0 pos = [if list_ex (\<lambda>p. match ! p) (leaves n 0 pos) then 1 else 0]"
| "pbits n match (Suc h) pos =
     (if list_ex (\<lambda>p. match ! p) (leaves n (Suc h) pos)
      then 1 # pbits n match h (2 * pos) @ (if 2 * pos + 1 < width n h then pbits n match h (2 * pos + 1) else [])
      else [0])"

fun phashes :: "hashfun \<Rightarrow> bytes list \<Rightarrow> bool list \<Rightarrow> nat \<Rightarrow> nat \<Rightarrow> bytes list" where
  "phashes H txids match 0 pos = [txids ! pos]"
| "phashes H txids match (Suc h) pos =
     (if list_ex (\<lambda>p. match ! p) (leaves (length txids) (Suc h) pos)
      then phashes H txids match h (2 * pos) @
           (if 2 * pos + 1 < width (length txids) h then phashes H txids match h (2 * pos + 1) else [])
      else [(up H ^^ Suc h) txids ! pos])"

lemma width_iff: "p < width n h \<longleftrightarrow> p * 2 ^ h < n"
proof -
  have "p < width n h \<longleftrightarrow> p + 1 \<le> (n + 2 ^ h - 1) div 2 ^ h" by (simp add: width_def Suc_le_eq)
  also have "\<dots> \<longleftrightarrow> (p + 1) * 2 ^ h \<le> n + 2 ^ h - 1" by (simp add: less_eq_div_iff_mult_less_eq)
  also have "\<dots> \<longleftrightarrow> p * 2 ^ h < n"
  proof -
    have "(q + P \<le> n + P - 1) = (q < n)" if "1 \<le> P" for q P :: nat using that by arith
    from this [of "2 ^ h" "p * 2 ^ h"] show ?thesis by (simp only: add_mult_distrib mult_1) simp
  qed
  finally show ?thesis .
qed

lemma upt_split: "i \<le> j \<Longrightarrow> j \<le> k \<Longrightarrow> [i..<k] = [i..<j] @ [j..<k]"
  using upt_add_eq_append [of i j "k - j"] by simp

lemma upt_min_split: "a \<le> b \<Longrightarrow> b \<le> c \<Longrightarrow> [a..<min c n] = [a..<min b n] @ [b..<min c n]"
  by (cases "b \<le> n") (auto intro: upt_split)

lemma leaves_Suc: "leaves n (Suc h) pos = leaves n h (2 * pos) @ leaves n h (2 * pos + 1)"
proof -
  have "pos * 2 ^ Suc h = 2 * pos * 2 ^ h" "(pos + 1) * 2 ^ Suc h = (2 * pos + 1 + 1) * 2 ^ h" by simp_all
  moreover have "[2 * pos * 2 ^ h..<min ((2 * pos + 1 + 1) * 2 ^ h) n] =
      [2 * pos * 2 ^ h..<min ((2 * pos + 1) * 2 ^ h) n] @ [(2 * pos + 1) * 2 ^ h..<min ((2 * pos + 1 + 1) * 2 ^ h) n]"
    by (rule upt_min_split) simp_all
  ultimately show ?thesis by (simp only: leaves_def)
qed

lemma leaves_pos: "pos < width n h \<Longrightarrow> 1 \<le> length (leaves n h pos)"
proof -
  assume "pos < width n h"
  moreover have "1 \<le> min (q + P) n - q" if "q < n" "1 \<le> P" for q P :: nat using that by arith
  from this [of "pos * 2 ^ h" "2 ^ h"]
  have "pos * 2 ^ h < n \<Longrightarrow> 1 \<le> min ((pos + 1) * 2 ^ h) n - pos * 2 ^ h"
    by (simp only: add_mult_distrib mult_1 one_le_power order_refl one_le_numeral simp_thms)
  ultimately show ?thesis by (simp only: width_iff leaves_def length_upt)
qed

lemma no_right_leaves: "\<not> 2 * pos + 1 < width n h \<Longrightarrow> leaves n h (2 * pos + 1) = []"
  by (simp add: leaves_def width_iff)

lemma length_pbits: "length (pbits n match h pos) < 2 ^ (h + 1)"
proof (induction h arbitrary: pos)
  case (Suc h)
  have a: "length (pbits n match h (2 * pos)) < 2 * 2 ^ h" "length (pbits n match h (2 * pos + 1)) < 2 * 2 ^ h"
    using Suc.IH by simp_all
  have "(1::nat) \<le> 2 ^ h" by simp
  with a have "Suc (length (pbits n match h (2 * pos)) + length (pbits n match h (2 * pos + 1))) < 4 * 2 ^ h" by linarith
  then show ?case by auto
qed simp

lemma length_phashes: "pos < width (length txids) h \<Longrightarrow> length (phashes H txids match h pos) \<le> length (leaves (length txids) h pos)"
proof (induction h arbitrary: pos)
  case 0
  then show ?case by (simp add: leaves_def)
next
  case (Suc h)
  have p: "2 * pos < width (length txids) h" using Suc.prems by (simp add: width_Suc)
  have "1 \<le> length (leaves (length txids) (Suc h) pos)" using Suc.prems by (rule leaves_pos)
  moreover have "length (leaves (length txids) (Suc h) pos) =
      length (leaves (length txids) h (2 * pos)) + length (leaves (length txids) h (2 * pos + 1))"
    by (simp only: leaves_Suc length_append)
  ultimately show ?case using Suc.IH [OF p] Suc.IH [of "2 * pos + 1"] by auto
qed

lemma phashes_le_pbits: "length (phashes H txids match h pos) \<le> length (pbits (length txids) match h pos)"
proof (induction h arbitrary: pos)
  case (Suc h)
  show ?case using Suc [of "2 * pos"] Suc [of "2 * pos + 1"] by auto
qed simp

lemma pm_leaves:
  assumes "n \<le> 65536" "h \<le> 16" "pos < width n h"
  shows "parent_of_match n h pos match = list_ex (\<lambda>p. match ! p) (leaves n h pos)"
proof -
  have "pos * 2 ^ h < 65536" using assms by (simp add: width_iff)
  moreover have "(2::nat) ^ h \<le> 2 ^ 16" using assms by (intro power_increasing) auto
  ultimately have "pos * 2 ^ h < 2 ^ 32" "(pos + 1) * 2 ^ h < 2 ^ 32" by simp_all
  then show ?thesis by (simp only: parent_of_match_def leaves_def mod_less)
qed

lemma small_pos:
  assumes "n \<le> 65536" "pos < width n (Suc h)"
  shows "u32m (pos * 2) = 2 * pos" "u32m (pos * 2 + 1) = 2 * pos + 1" "2 * pos < width n h"
proof -
  have "2 * pos < width n h" using assms by (simp add: width_Suc)
  moreover have "width n h \<le> 65536" using width_le [of n h] assms by simp
  ultimately show "u32m (pos * 2) = 2 * pos" "u32m (pos * 2 + 1) = 2 * pos + 1" "2 * pos < width n h" by auto
qed

lemma build_adds:
  assumes "length txids = n" "n \<le> 65536" "h \<le> 16" "pos < width n h"
    and "length (bs_bits s) + length (pbits n match h pos) \<le> bs_bits_cap s"
    and "length (bs_hashes s) + length (phashes H txids match h pos) \<le> bs_hashes_cap s"
  shows "traverse_and_build H n h pos txids match s =
           Some (s\<lparr>bs_bits := bs_bits s @ pbits n match h pos, bs_hashes := bs_hashes s @ phashes H txids match h pos\<rparr>)"
  using assms
proof (induction h arbitrary: pos s)
  case 0
  then show ?case by (simp add: pm_leaves build_add_bit_def build_add_hash_def Let_def)
next
  case (Suc h)
  note sp = small_pos [OF Suc.prems(2,4)]
  have w: "calc_tree_width n h = width n h" using Suc.prems by (intro calc_width) auto
  have ch: "calc_hash H n (Suc h) pos txids = Some ((up H ^^ Suc h) txids ! pos)"
    using Suc.prems by (intro calc_hash_levels) auto
  have pm: "parent_of_match n (Suc h) pos match = list_ex (\<lambda>p. match ! p) (leaves n (Suc h) pos)"
    using Suc.prems by (intro pm_leaves) auto
  show ?case
  proof (cases "list_ex (\<lambda>p. match ! p) (leaves n (Suc h) pos)")
    case False
    then show ?thesis using Suc.prems pm ch
      by (simp add: build_add_bit_def build_add_hash_def Let_def del: funpow.simps calc_hash.simps)
  next
    case True
    let ?s1 = "s\<lparr>bs_bits := bs_bits s @ [1]\<rparr>"
    let ?s2 = "?s1\<lparr>bs_bits := bs_bits ?s1 @ pbits n match h (2 * pos), bs_hashes := bs_hashes ?s1 @ phashes H txids match h (2 * pos)\<rparr>"
    have s1: "build_add_bit True s = ?s1" using Suc.prems(5) True by (simp add: build_add_bit_def)
    have l: "traverse_and_build H n h (2 * pos) txids match ?s1 = Some ?s2"
      using Suc.prems True sp by (intro Suc.IH) simp_all
    have r: "traverse_and_build H n h (2 * pos + 1) txids match ?s2 =
        Some (?s2\<lparr>bs_bits := bs_bits ?s2 @ pbits n match h (2 * pos + 1),
                  bs_hashes := bs_hashes ?s2 @ phashes H txids match h (2 * pos + 1)\<rparr>)"
      if "2 * pos + 1 < width n h"
      using Suc.prems True that by (intro Suc.IH) simp_all
    show ?thesis
    proof (cases "2 * pos + 1 < width n h")
      case c: True
      show ?thesis using Suc.prems(1) True c r [OF c] by (simp only: traverse_and_build.simps pm s1 l sp w Let_def) simp
    next
      case c: False
      show ?thesis using Suc.prems(1) True c by (simp only: traverse_and_build.simps pm s1 l sp w Let_def) simp
    qed
  qed
qed

text \<open>No two sibling nodes have the same hash.\<close>

definition siblings_distinct :: "hashfun \<Rightarrow> nat \<Rightarrow> bytes list \<Rightarrow> bool" where
  "siblings_distinct H h txids \<longleftrightarrow>
     list_all (\<lambda>k. list_all (\<lambda>p. 2 * p + 1 < width (length txids) k \<longrightarrow>
        (up H ^^ k) txids ! (2 * p) \<noteq> (up H ^^ k) txids ! (2 * p + 1)) [0..<length txids]) [0..<h]"

lemma siblings_distinctD:
  assumes "siblings_distinct H h txids" "k < h" "2 * p + 1 < width (length txids) k"
  shows "(up H ^^ k) txids ! (2 * p) \<noteq> (up H ^^ k) txids ! (2 * p + 1)"
proof -
  have "p < length txids" using assms(3) width_le [of "length txids" k] by simp
  then show ?thesis using assms by (simp add: siblings_distinct_def list_all_iff)
qed

lemma pmatched_Suc:
  "pmatched txids match (Suc h) pos = pmatched txids match h (2 * pos) @ pmatched txids match h (2 * pos + 1)"
  by (simp add: pmatched_def leaves_Suc)

definition extract_pre ::
  "hashfun \<Rightarrow> bytes list \<Rightarrow> bool list \<Rightarrow> partial_merkle_tree \<Rightarrow> nat \<Rightarrow> nat \<Rightarrow> nat \<Rightarrow> extract_state \<Rightarrow> bool" where
  "extract_pre H txids match t cap h pos s \<longleftrightarrow>
     (\<exists>b c. pmt_bits t = b @ pbits (length txids) match h pos @ c \<and> ex_bits_used s = length b) \<and>
     (\<exists>d e. pmt_hashes t = d @ phashes H txids match h pos @ e \<and> ex_hash_used s = length d) \<and>
     length (ex_matched s) + length (pmatched txids match h pos) \<le> cap"

definition extract_post ::
  "hashfun \<Rightarrow> bytes list \<Rightarrow> bool list \<Rightarrow> nat \<Rightarrow> nat \<Rightarrow> extract_state \<Rightarrow> extract_state" where
  "extract_post H txids match h pos s =
     s\<lparr>ex_bits_used := ex_bits_used s + length (pbits (length txids) match h pos),
       ex_hash_used := ex_hash_used s + length (phashes H txids match h pos),
       ex_matched := ex_matched s @ pmatched txids match h pos\<rparr>"

lemma no_right_matched: "\<not> 2 * pos + 1 < width (length txids) h \<Longrightarrow> pmatched txids match h (2 * pos + 1) = []"
  unfolding pmatched_def using no_right_leaves [of pos "length txids" h] by simp

lemma extract_post_Suc:
  assumes "list_ex (\<lambda>p. match ! p) (leaves (length txids) (Suc h) pos)"
  shows "extract_post H txids match (Suc h) pos s =
    (let s2 = extract_post H txids match h (2 * pos) (s\<lparr>ex_bits_used := ex_bits_used s + 1\<rparr>)
     in if 2 * pos + 1 < width (length txids) h then extract_post H txids match h (2 * pos + 1) s2 else s2)"
  using assms no_right_matched [of pos txids h match]
  by (simp add: extract_post_def pmatched_Suc Let_def)

lemma extract_pre_Suc:
  assumes "list_ex (\<lambda>p. match ! p) (leaves (length txids) (Suc h) pos)" "extract_pre H txids match t cap (Suc h) pos s"
  shows "extract_pre H txids match t cap h (2 * pos) (s\<lparr>ex_bits_used := ex_bits_used s + 1\<rparr>)" (is ?l)
    and "2 * pos + 1 < width (length txids) h \<Longrightarrow> extract_pre H txids match t cap h (2 * pos + 1)
           (extract_post H txids match h (2 * pos) (s\<lparr>ex_bits_used := ex_bits_used s + 1\<rparr>))" (is "_ \<Longrightarrow> ?r")
proof -
  let ?right = "2 * pos + 1 < width (length txids) h"
  let ?B = "\<lambda>p. pbits (length txids) match h p" and ?P = "\<lambda>p. phashes H txids match h p"
  obtain b c d e where e: "pmt_bits t = b @ pbits (length txids) match (Suc h) pos @ c" "ex_bits_used s = length b"
    "pmt_hashes t = d @ phashes H txids match (Suc h) pos @ e" "ex_hash_used s = length d"
    "length (ex_matched s) + length (pmatched txids match (Suc h) pos) \<le> cap"
    using assms(2) unfolding extract_pre_def by blast
  show ?l unfolding extract_pre_def
  proof (intro conjI exI)
    show "pmt_bits t = (b @ [1]) @ ?B (2 * pos) @ ((if ?right then ?B (2 * pos + 1) else []) @ c)"
      using e(1) assms(1) by simp
    show "pmt_hashes t = d @ ?P (2 * pos) @ ((if ?right then ?P (2 * pos + 1) else []) @ e)"
      using e(3) assms(1) by simp
  qed (use e in \<open>simp_all add: pmatched_Suc\<close>)
  show ?r if right: ?right unfolding extract_pre_def
  proof (intro conjI exI)
    show "pmt_bits t = (b @ 1 # ?B (2 * pos)) @ ?B (2 * pos + 1) @ c" using e(1) assms(1) right by simp
    show "pmt_hashes t = (d @ ?P (2 * pos)) @ ?P (2 * pos + 1) @ e" using e(3) assms(1) right by simp
  qed (use e in \<open>simp_all add: pmatched_Suc extract_post_def\<close>)
qed

lemma extract_pre_bit:
  assumes "extract_pre H txids match t cap h pos s" "length (pmt_bits t) < 2 ^ 32"
  shows "ex_bits_used s < length (pmt_bits t)" "u32m (ex_bits_used s + 1) = ex_bits_used s + 1"
    "pmt_bits t ! ex_bits_used s \<noteq> 0 \<longleftrightarrow> list_ex (\<lambda>p. match ! p) (leaves (length txids) h pos)"
proof -
  obtain r where r: "pbits (length txids) match h pos = (if list_ex (\<lambda>p. match ! p) (leaves (length txids) h pos) then 1 else 0) # r"
    by (cases h; cases "list_ex (\<lambda>p. match ! p) (leaves (length txids) h pos)") auto
  obtain b c where b: "pmt_bits t = b @ pbits (length txids) match h pos @ c" "ex_bits_used s = length b"
    using assms(1) unfolding extract_pre_def by blast
  show lt: "ex_bits_used s < length (pmt_bits t)" by (simp add: b r)
  then have "ex_bits_used s + 1 < 2 ^ 32" using assms(2) by linarith
  then show "u32m (ex_bits_used s + 1) = ex_bits_used s + 1" by (rule mod_less)
  show "pmt_bits t ! ex_bits_used s \<noteq> 0 \<longleftrightarrow> list_ex (\<lambda>p. match ! p) (leaves (length txids) h pos)"
    unfolding b r by simp
qed

lemma extract_leaf_or_unmatched:
  assumes "extract_pre H txids match t cap h pos s" "length (pmt_bits t) < 2 ^ 32" "length (pmt_hashes t) < 2 ^ 32"
    and "pos < width (length txids) h"
    and "h = 0 \<or> \<not> list_ex (\<lambda>p. match ! p) (leaves (length txids) h pos)"
  shows "extract_hash t (h = 0 \<and> list_ex (\<lambda>p. match ! p) (leaves (length txids) h pos)) cap
           (s\<lparr>ex_bits_used := ex_bits_used s + 1\<rparr>) =
         (extract_post H txids match h pos s, (up H ^^ h) txids ! pos)"
proof (cases h)
  case 0
  have "leaves (length txids) 0 pos = [pos]" using assms(4) 0 by (simp add: leaves_def)
  then show ?thesis using assms 0 unfolding extract_pre_def
    by (auto simp: extract_hash_def extract_post_def Let_def nth_append pmatched_def)
next
  case (Suc k)
  then have u: "\<not> list_ex (\<lambda>p. match ! p) (leaves (length txids) (Suc k) pos)" using assms(5) by simp
  then have "pmatched txids match (Suc k) pos = []" by (auto simp: pmatched_def list_ex_iff filter_empty_conv)
  then show ?thesis using assms(1-3) Suc u unfolding extract_pre_def
    by (auto simp: extract_hash_def extract_post_def Let_def nth_append simp del: funpow.simps)
qed

lemma extract_follows:
  assumes "pmt_num_transactions t = length txids" "length txids \<le> 65536"
    and "length (pmt_bits t) < 2 ^ 32" "length (pmt_hashes t) < 2 ^ 32"
    and "siblings_distinct H ht txids" "ht \<le> 16"
    and "h \<le> ht" "pos < width (length txids) h" "extract_pre H txids match t cap h pos s"
  shows "traverse_and_extract H t cap h pos s = (extract_post H txids match h pos s, (up H ^^ h) txids ! pos)"
  using assms(7-9)
proof (induction h arbitrary: pos s)
  case 0
  then show ?case using extract_pre_bit [OF 0(3) assms(3)] extract_leaf_or_unmatched [OF 0(3) assms(3,4) 0(2)]
    by (simp add: Let_def)
next
  case (Suc h)
  let ?n = "length txids" and ?s1 = "s\<lparr>ex_bits_used := ex_bits_used s + 1\<rparr>"
  note sp = small_pos [OF assms(2) Suc.prems(2)]
  note b = extract_pre_bit [OF Suc.prems(3) assms(3)]
  have w: "calc_tree_width (pmt_num_transactions t) h = width ?n h"
    using Suc.prems assms by (simp add: calc_width)
  show ?case
  proof (cases "list_ex (\<lambda>p. match ! p) (leaves ?n (Suc h) pos)")
    case False
    then show ?thesis using b extract_leaf_or_unmatched [OF Suc.prems(3) assms(3,4) Suc.prems(2)]
      by (simp add: Let_def del: funpow.simps)
  next
    case True
    let ?s2 = "extract_post H txids match h (2 * pos) ?s1"
    have l: "traverse_and_extract H t cap h (2 * pos) ?s1 = (?s2, (up H ^^ h) txids ! (2 * pos))"
      using Suc.prems sp True by (intro Suc.IH extract_pre_Suc(1)) simp_all
    have r: "traverse_and_extract H t cap h (2 * pos + 1) ?s2 =
        (extract_post H txids match h (2 * pos + 1) ?s2, (up H ^^ h) txids ! (2 * pos + 1))" if "2 * pos + 1 < width ?n h"
      using Suc.prems that True by (intro Suc.IH extract_pre_Suc(2)) simp_all
    have d: "(up H ^^ h) txids ! (2 * pos + 1) \<noteq> (up H ^^ h) txids ! (2 * pos)" if "2 * pos + 1 < width ?n h"
      using siblings_distinctD [OF assms(5) _ that] Suc.prems(1) by simp
    have up: "(up H ^^ Suc h) txids ! pos = merkle_hash_pair H ((up H ^^ h) txids ! (2 * pos))
        ((up H ^^ h) txids ! (if 2 * pos + 1 < width ?n h then 2 * pos + 1 else 2 * pos))"
      using sp by (simp add: nth_up length_levels)
    have b': "\<not> length (pmt_bits t) \<le> ex_bits_used s" "(pmt_bits t ! ex_bits_used s \<noteq> 0) = True"
      using b True by simp_all
    show ?thesis
    proof (cases "2 * pos + 1 < width ?n h")
      case c: True
      show ?thesis using c d [OF c]
        by (simp only: traverse_and_extract.simps b' b(2) sp w l r [OF c] up extract_post_Suc [OF True] Let_def
            prod.case if_True if_False not_True_eq_False)
    next
      case c: False
      then show ?thesis
        by (simp only: traverse_and_extract.simps b' b(2) sp w l up extract_post_Suc [OF True] Let_def) simp
    qed
  qed
qed

section \<open>Properties\<close>

text \<open>
  C31: the in-place level computation and the recursive tree hash agree: for a non-empty list of at
  most \<^verbatim>\<open>MAX_MERKLE_HASHES\<close> ids, with memory for a level, \<^verbatim>\<open>compute_merkle_root\<close> is \<^verbatim>\<open>calc_hash\<close> at the
  top of the tree, which on such a list reads no id out of bounds.
\<close>

theorem merkle_root_equivalent:
  assumes "txids \<noteq> []" "length txids \<le> MAX_MERKLE_HASHES"
  shows "calc_hash hash256 (length txids) (tree_height_loop (length txids) 0) 0 txids =
           Some (compute_merkle_root hash256 (\<lambda>_. True) txids)"
proof -
  let ?h = "tree_height_loop (length txids) 0"
  have h: "?h \<le> 16" "width (length txids) ?h \<le> 1" "\<forall>k < ?h. width (length txids) k > 1"
    using height_loop [of "length txids" 0] assms(2) by simp_all
  have "calc_hash hash256 (length txids) ?h 0 txids = Some ((up hash256 ^^ ?h) txids ! 0)"
    using h assms by (intro calc_hash_levels width_pos) simp_all
  then show ?thesis
    using ref_root_levels [OF h(2,3) assms(1)] compute_merkle_root_ref [OF assms(1), of "\<lambda>_. True"]
    by (simp add: compute_merkle_root_def)
qed

theorem merkle_root_equivalent_witness:
  "calc_hash rev 3 (tree_height_loop 3 0) 0 [[1], [2], [3]] = Some (compute_merkle_root rev (\<lambda>_. True) [[1], [2], [3]])"
  using merkle_root_equivalent [of "[[1], [2], [3]]" rev] by (simp add: numeral_3_eq_3)

text \<open>
  An unmutated Merkle root binds the transaction list. Two lists of 32-byte ids with trees of the
  same height, the same root and neither flagged as mutated are the same list, unless two of the
  strings hashed on the way collide.
\<close>

lemma merkle_root_binds_txids:
  assumes "\<forall>m. length (hash256 m) = 32"
    and "list_all (\<lambda>h. length h = 32) xs" "list_all (\<lambda>h. length h = 32) ys"
    and "xs \<noteq> []" "ys \<noteq> []" "length xs \<le> MAX_MERKLE_HASHES" "length ys \<le> MAX_MERKLE_HASHES"
    and "tree_height_loop (length xs) 0 = tree_height_loop (length ys) 0"
    and "inj_on hash256 (set (merkle_inputs hash256 xs) \<union> set (merkle_inputs hash256 ys))"
    and "compute_merkle_root_mutated hash256 (\<lambda>_. True) xs = (root, False)"
    and "compute_merkle_root_mutated hash256 (\<lambda>_. True) ys = (root, False)"
  shows "xs = ys"
proof -
  let ?h = "tree_height_loop (length xs) 0"
  have hx: "width (length xs) ?h \<le> 1" "\<forall>k < ?h. width (length xs) k > 1"
    using height_loop [of "length xs" 0] assms(6) by simp_all
  have hy: "width (length ys) ?h \<le> 1" "\<forall>k < ?h. width (length ys) k > 1"
    using height_loop [of "length ys" 0] assms(7,8) by simp_all
  have "ref_root hash256 xs = (root, False)" "ref_root hash256 ys = (root, False)"
    using assms(4,5,10,11) by (simp_all add: compute_merkle_root_ref)
  with assms(1-5) hx hy assms(9) show ?thesis by (intro ref_root_binds [of hash256 xs ys ?h root]) simp_all
qed

text \<open>
  C32: what \<^verbatim>\<open>merkle_tree_build\<close> proves, \<^verbatim>\<open>merkle_tree_extract\<close> recovers: for a list of ids in which no two
  sibling nodes coincide, extraction succeeds and returns the Merkle root and the matched ids in
  block order.
\<close>

theorem partial_tree_roundtrip:
  assumes "siblings_distinct hash256 (tree_height_loop (length txids) 0) txids"
    and "merkle_tree_build hash256 (\<lambda>_ _. True) txids match t0 = Some (t, True)"
  shows "merkle_tree_extract hash256 t =
           (t, map (\<lambda>p. txids ! p) (filter (\<lambda>p. match ! p) [0..<length txids]),
            Some (compute_merkle_root hash256 (\<lambda>_. True) txids), True)"
proof -
  let ?n = "length txids" and ?h = "tree_height_loop (length txids) 0"
  let ?s = "\<lparr>bs_bits = [], bs_bits_cap = MAX_MERKLE_BITS, bs_hashes = [], bs_hashes_cap = ?n\<rparr>"
  have n: "0 < ?n" "?n \<le> 65536" using assms(2) by (auto simp: merkle_tree_build_def split: if_splits)
  have h: "?h \<le> 16" "width ?n ?h \<le> 1" "\<forall>k < ?h. width ?n k > 1" using height_loop [of ?n 0] n by simp_all
  have w: "0 < width ?n ?h" using n by (simp add: width_pos)
  have lv: "leaves ?n ?h 0 = [0..<?n]" using h(2) width_iff [of 1 ?n ?h] by (simp add: leaves_def min_def)
  have "(2::nat) ^ (?h + 1) \<le> 2 ^ 17" using h(1) by (intro power_increasing) simp_all
  then have bits: "length (pbits ?n match ?h 0) \<le> 131071" using length_pbits [of ?n match ?h 0] by simp
  have hashes: "length (phashes hash256 txids match ?h 0) \<le> ?n"
    using length_phashes [OF w, of hash256 match] lv by simp
  have "traverse_and_build hash256 ?n ?h 0 txids match ?s =
      Some (?s\<lparr>bs_bits := pbits ?n match ?h 0, bs_hashes := phashes hash256 txids match ?h 0\<rparr>)"
    using build_adds [of txids ?n ?h 0 ?s match hash256] n h(1) w bits hashes by simp
  then have t: "t = t0\<lparr>pmt_num_transactions := ?n, pmt_bad := False, pmt_bits := pbits ?n match ?h 0,
      pmt_hashes := phashes hash256 txids match ?h 0\<rparr>"
    using assms(2) by (auto simp: merkle_tree_build_def Let_def split: if_splits)
  let ?s0 = "\<lparr>ex_bad = False, ex_bits_used = 0, ex_hash_used = 0, ex_matched = []\<rparr>"
  have "length (pmatched txids match ?h 0) \<le> ?n" unfolding pmatched_def lv by (simp add: le_trans [OF length_filter_le])
  then have "extract_pre hash256 txids match t ?n ?h 0 ?s0" unfolding extract_pre_def by (simp add: t)
  then have "traverse_and_extract hash256 t ?n ?h 0 ?s0 =
      (extract_post hash256 txids match ?h 0 ?s0, (up hash256 ^^ ?h) txids ! 0)"
    using n h(1) w bits hashes assms(1) by (intro extract_follows [of t txids hash256 ?h]) (simp_all add: t)
  moreover have "(up hash256 ^^ ?h) txids ! 0 = compute_merkle_root hash256 (\<lambda>_. True) txids"
    using ref_root_levels [OF h(2,3)] n by (simp add: compute_merkle_root_def compute_merkle_root_ref)
  ultimately show ?thesis
    using n hashes bits phashes_le_pbits [of hash256 txids match ?h 0]
    by (simp add: merkle_tree_extract_def t extract_post_def pmatched_def lv)
qed

theorem partial_tree_roundtrip_witness:
  "\<exists>t. merkle_tree_extract rev t =
         (t, [[2]], Some (compute_merkle_root rev (\<lambda>_. True) [[1], [2], [3]]), True)"
proof -
  let ?x = "[[1], [2], [3]] :: bytes list" and ?m = "[False, True, False]"
  have h: "tree_height_loop (Suc (Suc (Suc 0))) 0 = Suc (Suc 0)"
    by (simp add: tree_height_loop.simps calc_tree_width_def)
  have "siblings_distinct rev (tree_height_loop (length ?x) 0) ?x"
    by (simp add: h siblings_distinct_def merkle_hash_pair_def width_def)
  moreover obtain t where "merkle_tree_build rev (\<lambda>_ _. True) ?x ?m merkle_tree_init = Some (t, True)"
    by (simp add: merkle_tree_build_def h Let_def calc_tree_width_def parent_of_match_def build_add_bit_def
        build_add_hash_def merkle_tree_init_def)
  ultimately show ?thesis using partial_tree_roundtrip [of rev ?x ?m merkle_tree_init t] by (intro exI) simp
qed

end
