(* ===== verification/Coins.thy ===== *)
theory Coins
  imports Transaction
begin

text \<open>
  Unspent outputs of one transaction and the undo records of a block: \<^verbatim>\<open>lib/coins/src/coins.c\<close>,
  \<^verbatim>\<open>domain/consensus/src/coins_math.c\<close> (the pure part, also reached through
  \<^verbatim>\<open>lib/coins/src/compressor.c\<close>) and \<^verbatim>\<open>lib/coins/include/coins/undo.h\<close>.

  A \<^verbatim>\<open>struct coins\<close> is a record whose heap array is a list. secp256k1 is a vendored library: its
  point parser and its uncompressed serializer are the parameters \<open>parse\<close> and \<open>ser\<close> of the script
  codec, and \<open>secp_laws\<close> states what the code relies on.
\<close>

section \<open>Model\<close>

record coins =
  c_is_coinbase :: bool
  c_vout :: "tx_out list"
  c_height :: int
  c_version :: int

definition coins_init :: coins where
  "coins_init = \<lparr>c_is_coinbase = False, c_vout = [], c_height = 0, c_version = 0\<rparr>"

definition coins_free :: "coins \<Rightarrow> coins" where
  "coins_free c = c\<lparr>c_vout := []\<rparr>"

definition coins_math_is_pruned :: "coins option \<Rightarrow> bool" where
  "coins_math_is_pruned c_opt = (case c_opt of None \<Rightarrow> True | Some c \<Rightarrow> list_all tx_out_is_null (c_vout c))"

definition coins_math_is_available :: "coins option \<Rightarrow> u32 \<Rightarrow> bool" where
  "coins_math_is_available c_opt pos =
     (case c_opt of None \<Rightarrow> False
      | Some c \<Rightarrow> unat pos < length (c_vout c) \<and> \<not> tx_out_is_null (c_vout c ! unat pos))"

definition coins_math_spend :: "coins \<Rightarrow> u32 \<Rightarrow> coins \<times> bool" where
  "coins_math_spend c pos =
     (if unat pos \<ge> length (c_vout c) \<or> tx_out_is_null (c_vout c ! unat pos) then (c, False)
      else (c\<lparr>c_vout := (c_vout c)[unat pos := tx_out_set_null]\<rparr>, True))"

text \<open>The loop that lowers \<^verbatim>\<open>num_vout\<close> while the last output is null.\<close>

function cleanup_loop :: "tx_out list \<Rightarrow> nat \<Rightarrow> nat" where
  "cleanup_loop outs n =
     (if n > 0 \<and> tx_out_is_null (outs ! (n - 1)) then cleanup_loop outs (n - 1) else n)"
  by pat_completeness auto
termination
  by (relation "measure snd") auto

declare cleanup_loop.simps [simp del]

definition coins_math_cleanup :: "coins \<Rightarrow> coins" where
  "coins_math_cleanup c = c\<lparr>c_vout := take (cleanup_loop (c_vout c) (length (c_vout c))) (c_vout c)\<rparr>"

definition coins_alloc :: "calloc \<Rightarrow> coins \<Rightarrow> nat \<Rightarrow> coins \<times> bool" where
  "coins_alloc calloc c num_outputs =
     (if num_outputs \<noteq> 0 \<and> \<not> calloc ''coins_vout'' num_outputs then (c\<lparr>c_vout := []\<rparr>, False)
      else (c\<lparr>c_vout := replicate num_outputs tx_out_set_null\<rparr>, True))"

definition coins_from_transaction :: "calloc \<Rightarrow> coins \<Rightarrow> transaction \<Rightarrow> int \<Rightarrow> coins \<times> bool" where
  "coins_from_transaction calloc c tx height =
     (let c1 = coins_free (c\<lparr>c_is_coinbase := transaction_is_coinbase tx, c_height := height,
                              c_version := tx_version tx\<rparr>)
      in if length (vout tx) > 65536 then (c1, False)
         else
           (case coins_alloc calloc c1 (length (vout tx)) of
              (c2, ok) \<Rightarrow>
                if \<not> ok then (c2, False)
                else (coins_math_cleanup (c2\<lparr>c_vout :=
                        map (\<lambda>out. if script_is_unspendable (script_pub_key out) then tx_out_set_null else out)
                          (vout tx)\<rparr>), True)))"

definition coins_spend :: "coins \<Rightarrow> u32 \<Rightarrow> coins \<times> bool" where
  "coins_spend c pos = coins_math_spend c pos"

definition coins_is_available :: "coins option \<Rightarrow> u32 \<Rightarrow> bool" where
  "coins_is_available c pos = coins_math_is_available c pos"

definition coins_is_pruned :: "coins option \<Rightarrow> bool" where
  "coins_is_pruned c = coins_math_is_pruned c"

definition coins_cleanup :: "coins \<Rightarrow> coins" where
  "coins_cleanup c = coins_math_cleanup c"

text \<open>\<open>malloc label n\<close>: whether room for \<open>n\<close> outputs is found.\<close>

definition coins_copy :: "calloc \<Rightarrow> coins \<Rightarrow> coins" where
  "coins_copy malloc src =
     (if length (c_vout src) > 0 \<and> malloc ''coins_vout_copy'' (length (c_vout src))
      then src else src\<lparr>c_vout := []\<rparr>)"

record coins_stats =
  st_height :: int
  st_hash_block :: bytes
  st_num_transactions :: u64
  st_num_tx_outputs :: u64
  st_serialized_size :: u64
  st_hash_serialized :: bytes
  st_total_amount :: int

definition coins_stats_init :: coins_stats where
  "coins_stats_init = \<lparr>st_height = 0, st_hash_block = replicate 32 0, st_num_transactions = 0,
     st_num_tx_outputs = 0, st_serialized_size = 0, st_hash_serialized = replicate 32 0, st_total_amount = 0\<rparr>"

subsection \<open>Undo records\<close>

record tx_in_undo =
  u_txout :: tx_out
  u_coinbase :: bool
  u_height :: u32
  u_version :: int

definition tx_in_undo_init :: tx_in_undo where
  "tx_in_undo_init = \<lparr>u_txout = tx_out_set_null, u_coinbase = False, u_height = 0, u_version = 0\<rparr>"

datatype coins_math_err =
    COINS_MATH_NULL_COINS | COINS_MATH_NULL_UNDO | COINS_MATH_OUT_OF_RANGE | COINS_MATH_ALREADY_SPENT

definition coins_math_capture_undo ::
  "coins option \<Rightarrow> u32 \<Rightarrow> tx_in_undo option \<Rightarrow> coins_math_err + coins \<times> tx_in_undo" where
  "coins_math_capture_undo c_opt pos undo_opt =
     (case c_opt of None \<Rightarrow> Inl COINS_MATH_NULL_COINS | Some c \<Rightarrow>
      case undo_opt of None \<Rightarrow> Inl COINS_MATH_NULL_UNDO | Some undo \<Rightarrow>
      if unat pos \<ge> length (c_vout c) then Inl COINS_MATH_OUT_OF_RANGE
      else if tx_out_is_null (c_vout c ! unat pos) then Inl COINS_MATH_ALREADY_SPENT
      else
        (let undo1 = undo\<lparr>u_txout := c_vout c ! unat pos\<rparr>;
             c1 = fst (coins_math_spend c pos)
         in Inr (c1, if coins_math_is_pruned (Some c1)
                     then undo1\<lparr>u_height := word_of_int (c_height c1), u_coinbase := c_is_coinbase c1,
                                 u_version := c_version c1\<rparr>
                     else undo1)))"

subsection \<open>Amount compression\<close>

function strip10 :: "u64 \<Rightarrow> nat \<Rightarrow> u64 \<times> nat" where
  "strip10 n e = (if n mod 10 = 0 \<and> e < 9 then strip10 (n div 10) (e + 1) else (n, e))"
  by pat_completeness auto
termination
  by (relation "measure (\<lambda>(n, e). 9 - e)") auto

declare strip10.simps [simp del]

definition coins_math_compress_amount :: "u64 \<Rightarrow> u64" where
  "coins_math_compress_amount n =
     (if n = 0 then 0
      else case strip10 n 0 of (n, e) \<Rightarrow>
        if e < 9 then (let d = n mod 10; n = n div 10 in 1 + (n * 9 + d - 1) * 10 + of_nat e)
        else 1 + (n - 1) * 10 + 9)"

fun times10 :: "u64 \<Rightarrow> nat \<Rightarrow> u64" where
  "times10 n 0 = n"
| "times10 n (Suc e) = times10 (n * 10) e"

definition coins_math_decompress_amount :: "u64 \<Rightarrow> u64" where
  "coins_math_decompress_amount x =
     (if x = 0 then 0
      else
        (let x = x - 1; e = unat (x mod 10); x = x div 10
         in times10 (if e < 9 then (let d = x mod 9 + 1; x = x div 9 in x * 10 + d) else x + 1) e))"

definition compress_amount :: "u64 \<Rightarrow> u64" where
  "compress_amount n = coins_math_compress_amount n"

definition decompress_amount :: "u64 \<Rightarrow> u64" where
  "decompress_amount x = coins_math_decompress_amount x"

subsection \<open>Script compression\<close>

text \<open>A public key is its first \<^verbatim>\<open>size\<close> bytes.\<close>

type_synonym pubkey = bytes

definition pubkey_set :: "bytes \<Rightarrow> pubkey" where
  "pubkey_set data = take 65 data"

definition pubkey_is_valid :: "pubkey \<Rightarrow> bool" where
  "pubkey_is_valid pk \<longleftrightarrow> length pk > 0"

definition pubkey_is_fully_valid :: "(bytes \<Rightarrow> 'pt option) \<Rightarrow> pubkey \<Rightarrow> bool" where
  "pubkey_is_fully_valid parse pk \<longleftrightarrow> pubkey_is_valid pk \<and> parse pk \<noteq> None"

definition pubkey_decompress :: "(bytes \<Rightarrow> 'pt option) \<Rightarrow> ('pt \<Rightarrow> bytes) \<Rightarrow> pubkey \<Rightarrow> pubkey option" where
  "pubkey_decompress parse ser pk =
     (if \<not> pubkey_is_valid pk then None
      else case parse pk of None \<Rightarrow> None | Some pt \<Rightarrow> Some (pubkey_set (ser pt)))"

definition coins_math_script_compress :: "(bytes \<Rightarrow> 'pt option) \<Rightarrow> script \<Rightarrow> bytes option" where
  "coins_math_script_compress parse s =
     (if length s = 25 \<and> s ! 0 = OP_DUP \<and> s ! 1 = OP_HASH160 \<and> s ! 2 = 20 \<and> s ! 23 = OP_EQUALVERIFY \<and>
         s ! 24 = OP_CHECKSIG then Some (0x00 # take 20 (drop 3 s))
      else if length s = 23 \<and> s ! 0 = OP_HASH160 \<and> s ! 1 = 20 \<and> s ! 22 = OP_EQUAL
           then Some (0x01 # take 20 (drop 2 s))
      else if length s = 35 \<and> s ! 0 = 33 \<and> s ! 34 = OP_CHECKSIG \<and> (s ! 1 = 0x02 \<or> s ! 1 = 0x03)
           then Some (s ! 1 # take 32 (drop 2 s))
      else if length s = 67 \<and> s ! 0 = 65 \<and> s ! 66 = OP_CHECKSIG \<and> s ! 1 = 0x04
           then (let pk = pubkey_set (take 65 (drop 1 s))
                 in if \<not> pubkey_is_fully_valid parse pk then None
                    else Some ((0x04 OR (s ! 64 AND 0x01)) # take 32 (drop 2 s)))
      else None)"

definition coins_math_script_decompress ::
  "(bytes \<Rightarrow> 'pt option) \<Rightarrow> ('pt \<Rightarrow> bytes) \<Rightarrow> nat \<Rightarrow> bytes \<Rightarrow> script option" where
  "coins_math_script_decompress parse ser n_size inp =
     (if n_size = 0x00 then Some ([OP_DUP, OP_HASH160, 20] @ take 20 inp @ [OP_EQUALVERIFY, OP_CHECKSIG])
      else if n_size = 0x01 then Some ([OP_HASH160, 20] @ take 20 inp @ [OP_EQUAL])
      else if n_size = 0x02 \<or> n_size = 0x03 then Some ([33, of_nat n_size] @ take 32 inp @ [OP_CHECKSIG])
      else if n_size = 0x04 \<or> n_size = 0x05 then
        (case pubkey_decompress parse ser (pubkey_set (of_nat (n_size - 2) # take 32 inp)) of
           None \<Rightarrow> None
         | Some pk \<Rightarrow> if length pk \<noteq> 65 then None else Some ([65] @ take 65 pk @ [OP_CHECKSIG]))
      else None)"

definition coins_math_script_compress_special_size :: "nat \<Rightarrow> nat" where
  "coins_math_script_compress_special_size n_size =
     (if n_size = 0 \<or> n_size = 1 then 20
      else if n_size = 2 \<or> n_size = 3 \<or> n_size = 4 \<or> n_size = 5 then 32 else 0)"

definition script_compress :: "(bytes \<Rightarrow> 'pt option) \<Rightarrow> script \<Rightarrow> bytes option" where
  "script_compress parse s = coins_math_script_compress parse s"

definition script_decompress :: "(bytes \<Rightarrow> 'pt option) \<Rightarrow> ('pt \<Rightarrow> bytes) \<Rightarrow> nat \<Rightarrow> bytes \<Rightarrow> script option" where
  "script_decompress parse ser nSize inp = coins_math_script_decompress parse ser nSize inp"

definition script_compress_special_size :: "nat \<Rightarrow> nat" where
  "script_compress_special_size nSize = coins_math_script_compress_special_size nSize"

subsection \<open>Serialization of undo records\<close>

definition compressed_txout_serialize :: "(bytes \<Rightarrow> 'pt option) \<Rightarrow> alloc \<Rightarrow> tx_out \<Rightarrow> writer" where
  "compressed_txout_serialize parse alloc txout =
     seqw (stream_write_varint alloc (compress_amount (word_of_int (out_value txout))))
       (case script_compress parse (script_pub_key txout) of
          Some packed \<Rightarrow> stream_write_bytes alloc packed
        | None \<Rightarrow>
            seqw (stream_write_varint alloc (of_nat (length (script_pub_key txout) + 6)))
                 (stream_write_bytes alloc (script_pub_key txout)))"

definition compressed_txout_deserialize ::
  "(bytes \<Rightarrow> 'pt option) \<Rightarrow> ('pt \<Rightarrow> bytes) \<Rightarrow> tx_out reader" where
  "compressed_txout_deserialize parse ser =
     bindr stream_read_varint (\<lambda>cv. let v = sint (decompress_amount cv) in
     bindr stream_read_varint (\<lambda>nSize.
       if nSize < 6 then
         (let special_sz = script_compress_special_size (unat nSize)
          in if special_sz = 0 then failr
             else bindr (stream_read_bytes special_sz) (\<lambda>buf.
               case script_decompress parse ser (unat nSize) buf of
                 None \<Rightarrow> failr
               | Some sc \<Rightarrow> returnr \<lparr>out_value = v, script_pub_key = sc\<rparr>))
       else
         (let script_len = unat (nSize - 6)
          in if script_len > MAX_SCRIPT_SIZE then failr
             else bindr (stream_read_bytes script_len) (\<lambda>sc.
               returnr \<lparr>out_value = v, script_pub_key = sc\<rparr>))))"

definition tx_in_undo_serialize :: "(bytes \<Rightarrow> 'pt option) \<Rightarrow> alloc \<Rightarrow> tx_in_undo \<Rightarrow> writer" where
  "tx_in_undo_serialize parse alloc u =
     seqw (stream_write_varint alloc (ucast (u_height u) * 2 + (if u_coinbase u then 1 else 0)))
    (seqw (whenw (u_height u > 0) (stream_write_varint alloc (word_of_int (u_version u))))
          (compressed_txout_serialize parse alloc (u_txout u)))"

text \<open>The record is filled in place: at height 0 the version it had is kept.\<close>

definition tx_in_undo_deserialize ::
  "(bytes \<Rightarrow> 'pt option) \<Rightarrow> ('pt \<Rightarrow> bytes) \<Rightarrow> tx_in_undo \<Rightarrow> tx_in_undo reader" where
  "tx_in_undo_deserialize parse ser u =
     bindr stream_read_varint (\<lambda>code.
       let h = ucast (code div 2); cb = (code AND 1 \<noteq> 0)
       in bindr (if h > (0::u32) then bindr stream_read_varint (\<lambda>v. returnr (sint (ucast v :: u32)))
                 else returnr (u_version u)) (\<lambda>ver.
          bindr (compressed_txout_deserialize parse ser) (\<lambda>out.
            returnr \<lparr>u_txout = out, u_coinbase = cb, u_height = h, u_version = ver\<rparr>)))"

type_synonym tx_undo = "tx_in_undo list"

definition tx_undo_init :: tx_undo where
  "tx_undo_init = []"

definition tx_undo_alloc :: "calloc \<Rightarrow> nat \<Rightarrow> tx_undo option" where
  "tx_undo_alloc calloc n =
     (if \<not> calloc ''tx_undo_prevout'' n \<and> n > 0 then None else Some (replicate n tx_in_undo_init))"

definition tx_undo_free :: "tx_undo \<Rightarrow> tx_undo" where
  "tx_undo_free u = []"

definition tx_undo_serialize :: "(bytes \<Rightarrow> 'pt option) \<Rightarrow> alloc \<Rightarrow> tx_undo \<Rightarrow> writer" where
  "tx_undo_serialize parse alloc u =
     seqw (stream_write_compact_size alloc (of_nat (length u))) (put_all (tx_in_undo_serialize parse alloc) u)"

fun undo_in_place :: "(tx_in_undo \<Rightarrow> tx_in_undo reader) \<Rightarrow> tx_undo \<Rightarrow> tx_undo reader" where
  "undo_in_place get [] = returnr []"
| "undo_in_place get (u # us) = bindr (get u) (\<lambda>x. bindr (undo_in_place get us) (\<lambda>xs. returnr (x # xs)))"

definition tx_undo_deserialize :: "(bytes \<Rightarrow> 'pt option) \<Rightarrow> ('pt \<Rightarrow> bytes) \<Rightarrow> calloc \<Rightarrow> tx_undo reader" where
  "tx_undo_deserialize parse ser calloc =
     bindr stream_read_compact_size (\<lambda>n.
       case tx_undo_alloc calloc (unat n) of
         None \<Rightarrow> failr
       | Some us \<Rightarrow> undo_in_place (tx_in_undo_deserialize parse ser) us)"

record block_undo =
  vtxundo :: "tx_undo list"
  old_sprout_tree_root :: bytes

definition block_undo_init :: block_undo where
  "block_undo_init = \<lparr>vtxundo = [], old_sprout_tree_root = replicate 32 0\<rparr>"

definition block_undo_alloc :: "calloc \<Rightarrow> block_undo \<Rightarrow> nat \<Rightarrow> block_undo option" where
  "block_undo_alloc calloc u n =
     (if \<not> calloc ''block_undo_txs'' n \<and> n > 0 then None else Some (u\<lparr>vtxundo := replicate n tx_undo_init\<rparr>))"

definition block_undo_free :: "block_undo \<Rightarrow> block_undo" where
  "block_undo_free u = u\<lparr>vtxundo := []\<rparr>"

definition block_undo_serialize :: "(bytes \<Rightarrow> 'pt option) \<Rightarrow> alloc \<Rightarrow> block_undo \<Rightarrow> writer" where
  "block_undo_serialize parse alloc u =
     seqw (stream_write_compact_size alloc (of_nat (length (vtxundo u))))
    (seqw (put_all (tx_undo_serialize parse alloc) (vtxundo u))
          (stream_write_bytes alloc (old_sprout_tree_root u)))"

definition block_undo_deserialize ::
  "(bytes \<Rightarrow> 'pt option) \<Rightarrow> ('pt \<Rightarrow> bytes) \<Rightarrow> calloc \<Rightarrow> block_undo \<Rightarrow> block_undo reader" where
  "block_undo_deserialize parse ser calloc u =
     bindr stream_read_compact_size (\<lambda>n.
       case block_undo_alloc calloc u (unat n) of
         None \<Rightarrow> failr
       | Some u' \<Rightarrow>
           bindr (get_all (tx_undo_deserialize parse ser calloc) (length (vtxundo u'))) (\<lambda>xs.
           bindr (stream_read_bytes 32) (\<lambda>root.
             returnr \<lparr>vtxundo = xs, old_sprout_tree_root = root\<rparr>)))"

section \<open>Amounts\<close>

lemma strip10_spec:
  "strip10 n e = (m, k) \<Longrightarrow> e \<le> 9 \<Longrightarrow>
     e \<le> k \<and> k \<le> 9 \<and> unat n = unat m * 10 ^ (k - e) \<and> (k < 9 \<longrightarrow> unat m mod 10 \<noteq> 0)"
proof (induction n e rule: strip10.induct)
  case (1 n e)
  have ten: "n mod 10 = 0 \<longleftrightarrow> unat n mod 10 = 0"
    by (simp add: word_unat_eq_iff unat_mod)
  show ?case
  proof (cases "n mod 10 = 0 \<and> e < 9")
    case True
    then have "strip10 (n div 10) (e + 1) = (m, k)" using "1.prems" by (simp add: strip10.simps [of n])
    then have ih: "e + 1 \<le> k" "k \<le> 9" "unat (n div 10) = unat m * 10 ^ (k - (e + 1))" "k < 9 \<longrightarrow> unat m mod 10 \<noteq> 0"
      using "1.IH" [OF True] True by auto
    have "unat n = unat (n div 10) * 10" using True ten by (simp add: unat_div) presburger
    also have "\<dots> = unat m * 10 ^ Suc (k - (e + 1))" using ih(3) by simp
    also have "Suc (k - (e + 1)) = k - e" using ih(1) by simp
    finally show ?thesis using ih by simp
  next
    case False
    then have "m = n \<and> k = e" using "1.prems" by (auto simp: strip10.simps [of n])
    then show ?thesis using False "1.prems"(2) ten by auto
  qed
qed

lemma times10_eq: "times10 n e = n * 10 ^ e"
  by (induction e arbitrary: n) (simp_all add: mult.assoc)

lemma of_nat_div64: "a < 2 ^ 64 \<Longrightarrow> b < 2 ^ 64 \<Longrightarrow> (of_nat a :: u64) div of_nat b = of_nat (a div b)"
  unfolding word_unat_eq_iff unat_div using le_less_trans [OF div_le_dividend [of a b]] by (simp add: unat_of_nat_length)

lemma of_nat_mod64: "a < 2 ^ 64 \<Longrightarrow> b < 2 ^ 64 \<Longrightarrow> (of_nat a :: u64) mod of_nat b = of_nat (a mod b)"
  unfolding word_unat_eq_iff unat_mod using le_less_trans [OF mod_less_eq_dividend [of a b]] by (simp add: unat_of_nat_length)

text \<open>Decoding a number given as a natural number.\<close>

lemma decompress_of_nat:
  assumes "x < 2 ^ 64 - 1"
  shows "coins_math_decompress_amount (of_nat (1 + x)) =
    of_nat (if x mod 10 < 9 then (x div 10 div 9 * 10 + (x div 10 mod 9 + 1)) * 10 ^ (x mod 10)
            else (x div 10 + 1) * 10 ^ 9)"
proof -
  have nz: "(of_nat (1 + x) :: u64) \<noteq> 0"
  proof
    assume "(of_nat (1 + x) :: u64) = 0"
    then have "unat (of_nat (1 + x) :: u64) = 0" by simp
    moreover have "unat (of_nat (1 + x) :: u64) = 1 + x" using assms by (intro unat_of_nat_length) linarith
    ultimately show False by simp
  qed
  have x: "x < 2 ^ 64" "x div 10 < 2 ^ 64" using assms div_le_dividend [of x 10] by linarith+
  have m: "(of_nat x :: u64) mod 10 = of_nat (x mod 10)" "(of_nat x :: u64) div 10 = of_nat (x div 10)"
    "(of_nat (x div 10) :: u64) mod 9 = of_nat (x div 10 mod 9)" "(of_nat (x div 10) :: u64) div 9 = of_nat (x div 10 div 9)"
    using x of_nat_mod64 [of x 10] of_nat_div64 [of x 10] of_nat_mod64 [of "x div 10" 9] of_nat_div64 [of "x div 10" 9]
    by simp_all
  have e: "unat (of_nat (x mod 10) :: u64) = x mod 10" by (rule unat_of_nat_length) (rule le_less_trans [OF mod_less_eq_dividend x(1)])
  have pre: "(of_nat (1 + x) :: u64) - 1 = of_nat x" by simp
  show ?thesis
  proof (cases "x mod 10 < 9")
    case True
    then show ?thesis unfolding coins_math_decompress_amount_def Let_def if_not_P [OF nz] pre m e times10_eq
      by (simp only: if_True of_nat_mult of_nat_add of_nat_power of_nat_1 of_nat_numeral)
  next
    case False
    then have "x mod 10 = 9" using mod_less_divisor [of 10 x] by linarith
    then show ?thesis unfolding coins_math_decompress_amount_def Let_def if_not_P [OF nz] pre m e times10_eq
      by (simp only: of_nat_mult of_nat_add of_nat_power of_nat_1 of_nat_numeral less_irrefl if_False)
  qed
qed

lemma strip10_pos: "n \<noteq> 0 \<Longrightarrow> strip10 n 0 = (m, k) \<Longrightarrow> 0 < unat m"
  using strip10_spec [of n 0 m k] by (cases "unat m") (auto simp: unat_eq_0)

lemma compress_of_nat:
  assumes n: "n \<noteq> 0" "unat n < 2 ^ 60" and st: "strip10 n 0 = (m, k)"
  shows "coins_math_compress_amount n =
    of_nat (1 + (if k < 9 then (unat m div 10 * 9 + unat m mod 10 - 1) * 10 + k else (unat m - 1) * 10 + 9))"
proof -
  have m: "0 < unat m" using strip10_pos [OF n(1) st] .
  have dv: "m div 10 = of_nat (unat m div 10)" "m mod 10 = of_nat (unat m mod 10)"
    using of_nat_div64 [of "unat m" 10] of_nat_mod64 [of "unat m" 10] unsigned_less [of m] by simp_all
  show ?thesis
  proof (cases "k < 9")
    case True
    then have "1 \<le> unat m mod 10" using strip10_spec [OF st] by simp
    then have "(of_nat (unat m div 10 * 9 + unat m mod 10 - 1) :: u64) = of_nat (unat m div 10 * 9 + unat m mod 10) - 1"
      by (subst of_nat_diff) simp_all
    then show ?thesis using True n(1) by (simp add: coins_math_compress_amount_def st Let_def dv)
  next
    case False
    have "(of_nat (unat m - 1) :: u64) = m - 1" using m by (subst of_nat_diff) simp_all
    then show ?thesis using False n(1) by (simp add: coins_math_compress_amount_def st)
  qed
qed

lemma digit_code:
  assumes "1 \<le> d" "d \<le> 9" "k < (9::nat)"
  shows "((q * 9 + d - 1) * 10 + k) mod 10 = k" "((q * 9 + d - 1) * 10 + k) div 10 div 9 = q"
    "((q * 9 + d - 1) * 10 + k) div 10 mod 9 + 1 = d"
proof -
  show "((q * 9 + d - 1) * 10 + k) mod 10 = k" using assms(3) by simp
  have "((q * 9 + d - 1) * 10 + k) div 10 = (d - 1) + q * 9" using assms by simp
  then show "((q * 9 + d - 1) * 10 + k) div 10 div 9 = q" "((q * 9 + d - 1) * 10 + k) div 10 mod 9 + 1 = d"
    using assms(1,2) by (simp_all only: div_mult_self1 mod_mult_self1) simp_all
qed

lemma amount_roundtrip: "unat n < 2 ^ 60 \<Longrightarrow> coins_math_decompress_amount (coins_math_compress_amount n) = n"
proof (cases "n = 0")
  case False
  assume n: "unat n < 2 ^ 60"
  obtain m k where st: "strip10 n 0 = (m, k)" by fastforce
  have sp: "k \<le> 9" "unat n = unat m * 10 ^ k" "k < 9 \<Longrightarrow> unat m mod 10 \<noteq> 0" using strip10_spec [OF st] by simp_all
  have "unat m \<le> unat n" using sp(2) by simp
  then have mb: "unat m < 2 ^ 60" using n by linarith
  have m: "0 < unat m" using strip10_pos [OF False st] .
  have w: "n = of_nat (unat m * 10 ^ k)" unfolding sp(2) [symmetric] by simp
  show ?thesis
  proof (cases "k < 9")
    case True
    define q where "q = unat m div 10"
    define d where "d = unat m mod 10"
    have qd: "unat m = q * 10 + d" by (simp add: q_def d_def)
    have d: "1 \<le> d" "d \<le> 9" using sp(3) [OF True] mod_less_divisor [of 10 "unat m"] by (simp_all add: d_def)
    have c: "coins_math_compress_amount n = of_nat (1 + ((q * 9 + d - 1) * 10 + k))"
      using compress_of_nat [OF False n st] True unfolding q_def d_def by (simp only: if_True)
    have "(q * 9 + d - 1) * 10 + k < 2 ^ 64 - 1" using mb qd True by simp
    from decompress_of_nat [OF this] show ?thesis
      unfolding c digit_code [OF d True] using w True by (simp only: if_True qd)
  next
    case False
    then have k: "k = 9" using sp(1) by simp
    have c: "coins_math_compress_amount n = of_nat (1 + ((unat m - 1) * 10 + 9))"
      using compress_of_nat [OF \<open>n \<noteq> 0\<close> n st] False by (simp only: if_False)
    have "(unat m - 1) * 10 + 9 < 2 ^ 64 - 1" using mb m by simp
    from decompress_of_nat [OF this] show ?thesis unfolding c using w m k by simp
  qed
qed (simp add: coins_math_compress_amount_def coins_math_decompress_amount_def)

section \<open>Scripts\<close>

text \<open>
  What the code relies on in secp256k1: the uncompressed form of a point has 65 bytes and denotes it;
  an uncompressed key that parses is serialized back as it was; the compressed form with the parity
  of its last byte denotes the same point, and the form with the other parity another one.
\<close>

definition secp_laws :: "(bytes \<Rightarrow> 'pt option) \<Rightarrow> ('pt \<Rightarrow> bytes) \<Rightarrow> bool" where
  "secp_laws parse ser \<longleftrightarrow>
     (\<forall>bs pt. parse bs = Some pt \<longrightarrow> length (ser pt) = 65 \<and> parse (ser pt) = Some pt) \<and>
     (\<forall>x y pt. length x = 32 \<and> length y = 32 \<and> parse (0x04 # x @ y) = Some pt \<longrightarrow>
        ser pt = 0x04 # x @ y \<and> parse ((0x02 OR (y ! 31 AND 1)) # x) = Some pt \<and>
        parse ((0x03 XOR (y ! 31 AND 1)) # x) \<noteq> Some pt)"

definition p2pk_uncompressed :: "bytes \<Rightarrow> bytes \<Rightarrow> script" where
  "p2pk_uncompressed x y = [65, 0x04] @ x @ y @ [OP_CHECKSIG]"

text \<open>A script the codec returns unchanged: an uncompressed key needs its last two bytes of equal parity.\<close>

definition stable_script :: "(bytes \<Rightarrow> 'pt option) \<Rightarrow> script \<Rightarrow> bool" where
  "stable_script parse s \<longleftrightarrow>
     length s = 67 \<and> s ! 0 = 65 \<and> s ! 66 = OP_CHECKSIG \<and> s ! 1 = 0x04 \<and>
     pubkey_is_fully_valid parse (take 65 (drop 1 s)) \<longrightarrow> s ! 64 AND 1 = s ! 65 AND 1"

lemma take_2: "2 \<le> length s \<Longrightarrow> take 2 s = [s ! 0, s ! 1]"
  by (cases s; cases "tl s") auto

lemma take_3: "3 \<le> length s \<Longrightarrow> take 3 s = [s ! 0, s ! 1, s ! 2]"
  using take_2 [of s] take_Suc_conv_app_nth [of 2 s] by (simp add: numeral_3_eq_3)

lemma drop_1: "length s = Suc n \<Longrightarrow> drop n s = [s ! n]"
  using Cons_nth_drop_Suc [of n s] by simp

lemma drop_2: "length s = Suc (Suc n) \<Longrightarrow> drop n s = [s ! n, s ! Suc n]"
  using Cons_nth_drop_Suc [of n s] drop_1 [of s "Suc n"] by simp

lemma middle: "s = take k s @ take m (drop k s) @ drop (k + m) s"
  by (metis append_take_drop_id drop_drop add.commute)

lemma shape25: "length s = 25 \<Longrightarrow> s = [s ! 0, s ! 1, s ! 2] @ take 20 (drop 3 s) @ [s ! 23, s ! 24]"
  using middle [of s 3 20] take_3 [of s] drop_2 [of s 23] by simp

lemma shape23: "length s = 23 \<Longrightarrow> s = [s ! 0, s ! 1] @ take 20 (drop 2 s) @ [s ! 22]"
  using middle [of s 2 20] take_2 [of s] drop_1 [of s 22] by simp

lemma shape35: "length s = 35 \<Longrightarrow> s = [s ! 0, s ! 1] @ take 32 (drop 2 s) @ [s ! 34]"
  using middle [of s 2 32] take_2 [of s] drop_1 [of s 34] by simp

lemma shape67: "length s = 67 \<Longrightarrow> s = [s ! 0, s ! 1] @ take 32 (drop 2 s) @ take 32 (drop 34 s) @ [s ! 66]"
  using middle [of s 2 32] middle [of "drop 34 s" 0 32] take_2 [of s] drop_1 [of s 66] by simp

lemma u8_and_one: "b AND 1 = (0 :: u8) \<or> b AND 1 = (1 :: u8)"
  by (auto simp: and_one_eq)

lemma unat_tag: "unat (0x04 OR (b AND 0x01) :: u8) = (if b AND 1 = 0 then 4 else 5)"
  "of_nat (unat (0x04 OR (b AND 0x01) :: u8) - 2) = (0x02 OR (b AND 1) :: u8)"
proof -
  note u8_and_one [of b]
  then show "unat (0x04 OR (b AND 0x01) :: u8) = (if b AND 1 = 0 then 4 else 5)"
    "of_nat (unat (0x04 OR (b AND 0x01) :: u8) - 2) = (0x02 OR (b AND 1) :: u8)" by auto
qed

lemma compress_uncompressed:
  assumes "length x = 32" "length y = 32" "parse (0x04 # x @ y) = Some pt"
  shows "script_compress parse (p2pk_uncompressed x y) = Some ((0x04 OR (y ! 30 AND 0x01)) # x)"
proof -
  let ?s = "p2pk_uncompressed x y"
  have n: "length ?s = 67" "?s ! 0 = 65" "?s ! 1 = 4" "?s ! 66 = OP_CHECKSIG" "?s ! 64 = y ! 30"
    "take 32 (drop 2 ?s) = x" "take 65 (drop 1 ?s) = 0x04 # x @ y"
    using assms by (simp_all add: p2pk_uncompressed_def nth_append nth_Cons')
  show ?thesis unfolding script_compress_def coins_math_script_compress_def Let_def n
    using assms by (simp add: pubkey_set_def pubkey_is_fully_valid_def pubkey_is_valid_def)
qed

lemma decompress_uncompressed:
  assumes laws: "secp_laws parse ser" and len: "length x = 32" "length y = 32"
    and pt: "parse (0x04 # x @ y) = Some pt"
  shows "script_decompress parse ser (unat (0x04 OR (b AND 0x01) :: u8)) x = Some (p2pk_uncompressed x y)
    \<longleftrightarrow> b AND 1 = y ! 31 AND 1"
proof -
  have l: "ser pt = 0x04 # x @ y" "parse ((0x02 OR (y ! 31 AND 1)) # x) = Some pt"
    "parse ((0x03 XOR (y ! 31 AND 1)) # x) \<noteq> Some pt"
    using laws len pt unfolding secp_laws_def by blast+
  have ser_parse: "length (ser q) = 65 \<and> parse (ser q) = Some q" if "parse bs = Some q" for bs q
    using laws that unfolding secp_laws_def by blast
  let ?k = "(0x02 OR (b AND 1)) # x"
  have tag: "unat (0x04 OR (b AND 0x01) :: u8) \<in> {4, 5}" unfolding unat_tag by simp
  have "script_decompress parse ser (unat (0x04 OR (b AND 0x01) :: u8)) x =
      (case parse ?k of None \<Rightarrow> None | Some pt' \<Rightarrow> Some ([65] @ ser pt' @ [OP_CHECKSIG]))"
    using tag len ser_parse unfolding script_decompress_def coins_math_script_decompress_def unat_tag(2)
    by (auto simp: pubkey_set_def pubkey_decompress_def pubkey_is_valid_def split: option.split)
  then have iff: "script_decompress parse ser (unat (0x04 OR (b AND 0x01) :: u8)) x = Some (p2pk_uncompressed x y)
      \<longleftrightarrow> (\<exists>pt'. parse ?k = Some pt' \<and> ser pt' = 0x04 # x @ y)"
    by (auto simp: p2pk_uncompressed_def split: option.split)
  show ?thesis unfolding iff
  proof (cases "b AND 1 = y ! 31 AND 1")
    case True
    then have "?k = (0x02 OR (y ! 31 AND 1)) # x" by (simp only:)
    then show "(\<exists>pt'. parse ?k = Some pt' \<and> ser pt' = 0x04 # x @ y) \<longleftrightarrow> b AND 1 = y ! 31 AND 1"
      using True l(1,2) by auto
  next
    case False
    have "(0x02 OR (b AND 1) :: u8) = 0x03 XOR (y ! 31 AND 1)"
      using False u8_and_one [of b] u8_and_one [of "y ! 31"] by (elim disjE) (simp_all only:, simp_all)
    then have "parse ?k \<noteq> Some pt" using l(3) by (simp only: not_False_eq_True)
    moreover have "pt' = pt" if "parse ?k = Some pt'" "ser pt' = 0x04 # x @ y" for pt'
      using ser_parse [OF that(1)] pt unfolding that(2) by (metis option.inject)
    ultimately show "(\<exists>pt'. parse ?k = Some pt' \<and> ser pt' = 0x04 # x @ y) \<longleftrightarrow> b AND 1 = y ! 31 AND 1"
      using False by blast
  qed
qed

text \<open>Everything the codec compresses into is decompressed to the same script, if it is stable.\<close>

lemma script_roundtrip:
  assumes laws: "secp_laws parse ser" and st: "stable_script parse s" and c: "script_compress parse s = Some packed"
  obtains t x where "packed = t # x" "unat t < 6" "length x = script_compress_special_size (unat t)"
    "script_decompress parse ser (unat t) x = Some s"
proof -
  note d = script_decompress_def coins_math_script_decompress_def script_compress_special_size_def
    coins_math_script_compress_special_size_def
  consider "length s = 25" | "length s = 23" | "length s = 35" | "length s = 67"
    using c by (auto simp: script_compress_def coins_math_script_compress_def split: if_splits)
  then show thesis
  proof cases
    case 1
    then show ?thesis using c that [of 0 "take 20 (drop 3 s)"] shape25 [OF 1]
      by (simp add: script_compress_def coins_math_script_compress_def d split: if_splits)
  next
    case 2
    then show ?thesis using c that [of 1 "take 20 (drop 2 s)"] shape23 [OF 2]
      by (simp add: script_compress_def coins_math_script_compress_def d split: if_splits)
  next
    case 3
    then have "s ! 1 = 2 \<or> s ! 1 = 3" using c
      by (auto simp: script_compress_def coins_math_script_compress_def split: if_splits)
    then show ?thesis using 3 c that [of "s ! 1" "take 32 (drop 2 s)"] shape35 [OF 3]
      by (auto simp: script_compress_def coins_math_script_compress_def d split: if_splits)
  next
    case 4
    let ?x = "take 32 (drop 2 s)" and ?y = "take 32 (drop 34 s)"
    have len: "length ?x = 32" "length ?y = 32" using 4 by simp_all
    have h: "s ! 0 = 65" "s ! 66 = OP_CHECKSIG" "s ! 1 = 4" "pubkey_is_fully_valid parse (take 65 (drop 1 s))"
      "packed = (0x04 OR (s ! 64 AND 0x01)) # ?x"
      using c 4 by (auto simp: script_compress_def coins_math_script_compress_def pubkey_set_def Let_def split: if_splits)
    have s: "s = p2pk_uncompressed ?x ?y" using shape67 [OF 4] h by (simp add: p2pk_uncompressed_def)
    have "take 65 (drop 1 s) = 0x04 # ?x @ ?y" by (subst s) (simp add: p2pk_uncompressed_def 4 del: drop_drop)
    then obtain pt where pt: "parse (0x04 # ?x @ ?y) = Some pt" using h(4) by (auto simp: pubkey_is_fully_valid_def)
    have par: "s ! 64 AND 1 = s ! 65 AND 1" using st h 4 by (simp add: stable_script_def)
    have "s ! 65 = ?y ! 31" using 4 by simp
    then have "script_decompress parse ser (unat (0x04 OR (s ! 64 AND 0x01) :: u8)) ?x = Some s"
      using decompress_uncompressed [OF laws len pt, of "s ! 64"] par s by simp
    then show ?thesis using that [OF h(5)] len(1)
      unfolding script_compress_special_size_def coins_math_script_compress_special_size_def unat_tag by simp
  qed
qed

section \<open>Undo records on disk\<close>

definition enc_varint :: "u64 \<Rightarrow> bytes" where
  "enc_varint n = rev (varint_tmp n 0)"

lemma writes_varint [codec_w]: "writes alloc (stream_write_varint alloc n) (enc_varint n)"
  unfolding enc_varint_def by (rule varint_codec.writes_put) simp

lemma reads_varint [codec_r]: "reads stream_read_varint (enc_varint n) n"
  unfolding enc_varint_def by (rule varint_codec.reads_get) simp

lemma enc_varint_byte: "unat t < 128 \<Longrightarrow> enc_varint (ucast t) = [t]" for t :: u8
proof -
  assume t: "unat t < 128"
  have u: "unat (ucast t :: u64) = unat t" using t by (simp add: unsigned_ucast_eq take_bit_nat_eq_self)
  then have "(ucast t :: u64) \<le> 0x7f" using t by (simp add: word_le_nat_alt)
  moreover have "ucast ((ucast t :: u64) AND 0x7f) = t"
  proof -
    have "(ucast t :: u64) AND 0x7f = ucast t"
      unfolding group_masks(2) take_bit_eq_mask [symmetric] word_unat_eq_iff unsigned_take_bit_eq u
      using t by (simp add: take_bit_nat_eq_self)
    moreover have "ucast (ucast t :: u64) = t" by (rule bit_word_eqI) (auto simp: bit_simps)
    ultimately show ?thesis by simp
  qed
  ultimately show ?thesis unfolding enc_varint_def by (subst varint_tmp.simps) (simp add: Let_def)
qed

lemma reads_bindr_last: "reads r a x \<Longrightarrow> reads (f x) [] y \<Longrightarrow> reads (bindr r f) a y"
  using reads_bindr [of r a x f "[]" y] by simp

definition enc_ctxout :: "(bytes \<Rightarrow> 'pt option) \<Rightarrow> tx_out \<Rightarrow> bytes" where
  "enc_ctxout parse out =
     enc_varint (compress_amount (word_of_int (out_value out))) @
     (case script_compress parse (script_pub_key out) of
        Some packed \<Rightarrow> packed
      | None \<Rightarrow> enc_varint (of_nat (length (script_pub_key out) + 6)) @ script_pub_key out)"

definition wf_ctxout :: "(bytes \<Rightarrow> 'pt option) \<Rightarrow> ('pt \<Rightarrow> bytes) \<Rightarrow> tx_out \<Rightarrow> bool" where
  "wf_ctxout parse ser out \<longleftrightarrow> secp_laws parse ser \<and> MoneyRange (out_value out) \<and>
     wf_script (script_pub_key out) \<and> stable_script parse (script_pub_key out)"

lemma money_roundtrip:
  assumes "MoneyRange v"
  shows "sint (decompress_amount (compress_amount (word_of_int v))) = v"
proof -
  have v: "0 \<le> v" "v \<le> 2100000000000000" using assms by (simp_all add: MoneyRange_def)
  then have "(word_of_int v :: u64) = of_nat (nat v)" by simp
  then have "unat (word_of_int v :: u64) = nat v" using v unat_of_nat_length [of "nat v"] by simp
  then have "decompress_amount (compress_amount (word_of_int v)) = word_of_int v"
    using v by (simp add: amount_roundtrip compress_amount_def decompress_amount_def)
  then show ?thesis using v by (simp add: sint_of_int64 is_int64_def)
qed

lemma writes_ctxout [codec_w]: "writes alloc (compressed_txout_serialize parse alloc x) (enc_ctxout parse x)"
  unfolding compressed_txout_serialize_def enc_ctxout_def
  by (intro codec_w) (auto intro!: codec_w split: option.split)

interpretation ctxout_codec: stream_codec "compressed_txout_serialize parse" "compressed_txout_deserialize parse ser"
  "enc_ctxout parse" "wf_ctxout parse ser" for parse :: "bytes \<Rightarrow> 'pt option" and ser
proof unfold_locales
  fix alloc :: alloc and x
  show "writes alloc (compressed_txout_serialize parse alloc x) (enc_ctxout parse x)" by (rule writes_ctxout)
next
  fix x assume wf: "wf_ctxout parse ser x"
  let ?sc = "script_pub_key x"
  have wf': "secp_laws parse ser" "stable_script parse ?sc" using wf unfolding wf_ctxout_def by blast+
  note v = money_roundtrip [of "out_value x"] 
  have x: "\<lparr>out_value = sint (decompress_amount (compress_amount (word_of_int (out_value x)))), script_pub_key = ?sc\<rparr> = x"
    using v wf by (simp add: wf_ctxout_def)
  show "reads (compressed_txout_deserialize parse ser) (enc_ctxout parse x) x"
  proof (cases "script_compress parse ?sc")
    case (Some packed)
    obtain t y where p: "packed = t # y" "unat t < 6" "length y = script_compress_special_size (unat t)"
        "script_decompress parse ser (unat t) y = Some ?sc"
      by (rule script_roundtrip [OF wf' Some])
    have u: "unat (ucast t :: u64) = unat t" using p(2) by (simp add: unsigned_ucast_eq take_bit_nat_eq_self)
    then have small: "(ucast t :: u64) < 6" using p(2) by (simp add: word_less_nat_alt)
    have y: "length y \<noteq> 0" using p(2,3) unfolding script_compress_special_size_def
        coins_math_script_compress_special_size_def by (auto split: if_splits)
    have e: "enc_ctxout parse x = enc_varint (compress_amount (word_of_int (out_value x))) @ enc_varint (ucast t) @ y"
      using Some p enc_varint_byte [of t] by (simp add: enc_ctxout_def)
    show ?thesis unfolding e compressed_txout_deserialize_def Let_def
      by (rule reads_bindr [OF reads_varint])+
        (use small y p u x in \<open>auto intro!: reads_bindr_last [OF reads_bytes] simp: reads_return\<close>)
  next
    case None
    have n: "unat (of_nat (length ?sc + 6) :: u64) = length ?sc + 6"
      using wf by (intro unat_of_nat_length) (simp add: wf_ctxout_def wf_script_def)
    have big: "\<not> (of_nat (length ?sc + 6) :: u64) < 6" unfolding word_less_nat_alt n by simp
    then have m: "unat (of_nat (length ?sc + 6) - 6 :: u64) = length ?sc"
      by (subst unat_sub) (simp_all only: n not_less, simp)
    have e: "enc_ctxout parse x = enc_varint (compress_amount (word_of_int (out_value x))) @
        enc_varint (of_nat (length ?sc + 6)) @ ?sc"
      using None by (simp add: enc_ctxout_def)
    show ?thesis unfolding e compressed_txout_deserialize_def Let_def
      by (rule reads_bindr [OF reads_varint])+
        (use big m x wf in \<open>auto intro!: reads_bindr_last [OF reads_bytes] simp: reads_return wf_ctxout_def wf_script_def simp del: of_nat_add\<close>)
  qed
qed


lemma undo_code:
  fixes h :: u32 and cb :: bool
  defines "code \<equiv> (ucast h * 2 + (if cb then 1 else 0) :: u64)"
  shows "ucast (code div 2) = h" "code AND 1 \<noteq> 0 \<longleftrightarrow> cb"
proof -
  have h: "unat h < 2 ^ 32" using unsigned_less [of h] by simp
  have c: "code = of_nat (unat h * 2 + (if cb then 1 else 0))" by (simp add: code_def)
  have u: "unat code = unat h * 2 + (if cb then 1 else 0)" unfolding c
    by (rule unat_of_nat_length) (use h in auto)
  have "unat (code div 2) = unat h" by (simp add: unat_div u)
  moreover have "unat (of_nat (unat h) :: u64) = unat h" by (rule unat_of_nat_length) (use h in simp)
  ultimately have "code div 2 = of_nat (unat h)" by (simp only: word_unat_eq_iff)
  moreover have "ucast (ucast h :: u64) = h" by (rule bit_word_eqI) (auto simp: bit_simps)
  ultimately show "ucast (code div 2) = h" by simp
  have "code AND 1 = 0 \<longleftrightarrow> unat code mod 2 = 0" by (simp add: and_one_eq word_unat_eq_iff unat_mod)
  then show "code AND 1 \<noteq> 0 \<longleftrightarrow> cb" unfolding u by simp
qed

lemma version_roundtrip: "is_int32 v \<Longrightarrow> sint (ucast (word_of_int v :: u64) :: u32) = v"
proof -
  assume v: "is_int32 v"
  have "ucast (word_of_int v :: u64) = (word_of_int v :: u32)" by (rule bit_word_eqI) (auto simp: bit_simps)
  then show ?thesis using v by (simp add: sint_of_int32)
qed

definition enc_tx_in_undo :: "(bytes \<Rightarrow> 'pt option) \<Rightarrow> tx_in_undo \<Rightarrow> bytes" where
  "enc_tx_in_undo parse u =
     enc_varint (ucast (u_height u) * 2 + (if u_coinbase u then 1 else 0)) @
     enc_when (u_height u > 0) (enc_varint (word_of_int (u_version u))) @ enc_ctxout parse (u_txout u)"

definition wf_tx_in_undo :: "(bytes \<Rightarrow> 'pt option) \<Rightarrow> ('pt \<Rightarrow> bytes) \<Rightarrow> tx_in_undo \<Rightarrow> bool" where
  "wf_tx_in_undo parse ser u \<longleftrightarrow> wf_ctxout parse ser (u_txout u) \<and> is_int32 (u_version u) \<and>
     (u_height u = 0 \<longrightarrow> u_version u = 0)"

lemma writes_tx_in_undo [codec_w]: "writes alloc (tx_in_undo_serialize parse alloc x) (enc_tx_in_undo parse x)"
  unfolding tx_in_undo_serialize_def enc_tx_in_undo_def by (intro codec_w)

interpretation tx_in_undo_codec: stream_codec "tx_in_undo_serialize parse"
  "tx_in_undo_deserialize parse ser tx_in_undo_init" "enc_tx_in_undo parse" "wf_tx_in_undo parse ser"
  for parse :: "bytes \<Rightarrow> 'pt option" and ser
proof unfold_locales
  fix alloc :: alloc and x
  show "writes alloc (tx_in_undo_serialize parse alloc x) (enc_tx_in_undo parse x)" by (rule writes_tx_in_undo)
next
  fix x assume wf: "wf_tx_in_undo parse ser x"
  note code = undo_code [where h = "u_height x" and cb = "u_coinbase x"]
  have "reads (tx_in_undo_deserialize parse ser tx_in_undo_init)
      (enc_varint (ucast (u_height x) * 2 + (if u_coinbase x then 1 else 0)) @
       enc_when (u_height x > 0) (enc_varint (word_of_int (u_version x))) @ enc_ctxout parse (u_txout x))
      \<lparr>u_txout = u_txout x, u_coinbase = u_coinbase x, u_height = u_height x, u_version = u_version x\<rparr>"
    unfolding tx_in_undo_deserialize_def Let_def
    apply (rule reads_bindr [OF reads_varint])
    unfolding code
    apply (rule reads_bindr)
     apply (rule reads_if)
      apply (rule reads_bindr_return [OF reads_varint])
    using wf apply (simp add: wf_tx_in_undo_def version_roundtrip)
    using wf apply (simp add: wf_tx_in_undo_def tx_in_undo_init_def word_gt_0)
    apply (rule reads_bindr_return [OF ctxout_codec.reads_get])
    using wf by (simp_all add: wf_tx_in_undo_def)
  then show "reads (tx_in_undo_deserialize parse ser tx_in_undo_init) (enc_tx_in_undo parse x) x"
    by (cases x) (simp add: enc_tx_in_undo_def)
qed

lemma undo_in_place_replicate: "undo_in_place get (replicate n u) = get_all (get u) n"
  by (induction n) simp_all

definition wf_tx_undo :: "(bytes \<Rightarrow> 'pt option) \<Rightarrow> ('pt \<Rightarrow> bytes) \<Rightarrow> calloc \<Rightarrow> tx_undo \<Rightarrow> bool" where
  "wf_tx_undo parse ser calloc us \<longleftrightarrow> list_all (wf_tx_in_undo parse ser) us \<and> length us < 2 ^ 64 \<and>
     (us \<noteq> [] \<longrightarrow> calloc ''tx_undo_prevout'' (length us))"

lemma writes_tx_undo [codec_w]: "writes alloc (tx_undo_serialize parse alloc us) (enc_vec (enc_tx_in_undo parse) us)"
  unfolding tx_undo_serialize_def enc_vec_def by (intro codec_w writes_put_all) simp_all

interpretation tx_undo_codec: stream_codec "tx_undo_serialize parse" "tx_undo_deserialize parse ser calloc"
  "enc_vec (enc_tx_in_undo parse)" "wf_tx_undo parse ser calloc"
  for parse :: "bytes \<Rightarrow> 'pt option" and ser calloc
proof unfold_locales
  fix x assume wf: "wf_tx_undo parse ser calloc x"
  then have n: "unat (of_nat (length x) :: u64) = length x" by (intro unat_of_nat_length) (simp add: wf_tx_undo_def)
  have a: "tx_undo_alloc calloc (unat (of_nat (length x) :: u64)) = Some (replicate (length x) tx_in_undo_init)"
    using wf unfolding n by (auto simp: tx_undo_alloc_def wf_tx_undo_def)
  show "reads (tx_undo_deserialize parse ser calloc) (enc_vec (enc_tx_in_undo parse) x) x"
    unfolding tx_undo_deserialize_def enc_vec_def
    by (rule reads_bindr, rule compact_size_codec.reads_get)
      (use wf in \<open>auto simp: a undo_in_place_replicate wf_tx_undo_def list_all_iff intro!: reads_get_all tx_in_undo_codec.reads_get\<close>)
qed (rule writes_tx_undo)

definition enc_block_undo :: "(bytes \<Rightarrow> 'pt option) \<Rightarrow> block_undo \<Rightarrow> bytes" where
  "enc_block_undo parse u = enc_vec (enc_vec (enc_tx_in_undo parse)) (vtxundo u) @ old_sprout_tree_root u"

definition wf_block_undo :: "(bytes \<Rightarrow> 'pt option) \<Rightarrow> ('pt \<Rightarrow> bytes) \<Rightarrow> calloc \<Rightarrow> block_undo \<Rightarrow> bool" where
  "wf_block_undo parse ser calloc u \<longleftrightarrow> list_all (wf_tx_undo parse ser calloc) (vtxundo u) \<and>
     length (vtxundo u) < 2 ^ 64 \<and> (vtxundo u \<noteq> [] \<longrightarrow> calloc ''block_undo_txs'' (length (vtxundo u))) \<and>
     length (old_sprout_tree_root u) = 32"

interpretation block_undo_codec: stream_codec "block_undo_serialize parse"
  "block_undo_deserialize parse ser calloc block_undo_init" "enc_block_undo parse" "wf_block_undo parse ser calloc"
  for parse :: "bytes \<Rightarrow> 'pt option" and ser calloc
proof unfold_locales
  fix alloc :: alloc and x
  show "writes alloc (block_undo_serialize parse alloc x) (enc_block_undo parse x)"
    unfolding block_undo_serialize_def enc_block_undo_def enc_vec_def [of "enc_vec (enc_tx_in_undo parse)"] append_assoc
    by (intro codec_w writes_put_all) simp_all
next
  fix x assume wf: "wf_block_undo parse ser calloc x"
  let ?us = "vtxundo x"
  have n: "unat (of_nat (length ?us) :: u64) = length ?us" using wf by (intro unat_of_nat_length) (simp add: wf_block_undo_def)
  have a: "block_undo_alloc calloc block_undo_init (unat (of_nat (length ?us) :: u64)) =
      Some (block_undo_init\<lparr>vtxundo := replicate (length ?us) tx_undo_init\<rparr>)"
    using wf unfolding n by (auto simp: block_undo_alloc_def wf_block_undo_def)
  have "reads (block_undo_deserialize parse ser calloc block_undo_init)
      (enc_compact_size (of_nat (length ?us)) @ concat (map (enc_vec (enc_tx_in_undo parse)) ?us) @ old_sprout_tree_root x)
      \<lparr>vtxundo = ?us, old_sprout_tree_root = old_sprout_tree_root x\<rparr>"
    unfolding block_undo_deserialize_def
    by (rule reads_bindr, rule compact_size_codec.reads_get)
      (use wf in \<open>auto simp: a wf_block_undo_def list_all_iff
         intro!: reads_bindr reads_get_all tx_undo_codec.reads_get reads_bindr_return reads_bytes\<close>)
  then show "reads (block_undo_deserialize parse ser calloc block_undo_init) (enc_block_undo parse x) x"
    by (cases x) (simp add: enc_block_undo_def enc_vec_def [of "enc_vec (enc_tx_in_undo parse)"])
qed

section \<open>Available outputs\<close>

text \<open>The abstract content of a record: which outputs can be spent.\<close>

definition avail :: "coins \<Rightarrow> nat \<Rightarrow> tx_out option" where
  "avail c n = (if n < length (c_vout c) \<and> \<not> tx_out_is_null (c_vout c ! n) then Some (c_vout c ! n) else None)"

lemma null_is_null [simp]: "tx_out_is_null tx_out_set_null"
  by (simp add: tx_out_is_null_def tx_out_set_null_def)

lemma avail_init [simp]: "avail coins_init n = None"
  by (simp add: avail_def coins_init_def)

lemma is_available_avail: "coins_is_available (Some c) pos \<longleftrightarrow> avail c (unat pos) \<noteq> None"
  by (simp add: coins_is_available_def coins_math_is_available_def avail_def)

lemma is_pruned_avail: "coins_is_pruned (Some c) \<longleftrightarrow> (\<forall>n. avail c n = None)"
  by (auto simp: coins_is_pruned_def coins_math_is_pruned_def avail_def list_all_length)

lemma math_is_pruned [simp]: "coins_math_is_pruned c = coins_is_pruned c"
  by (simp add: coins_is_pruned_def)

lemma avail_spend:
  "avail c (unat pos) = Some out \<Longrightarrow>
     snd (coins_math_spend c pos) \<and> avail (fst (coins_math_spend c pos)) = (avail c)(unat pos := None)"
  by (auto simp: avail_def coins_math_spend_def nth_list_update split: if_splits)

lemma spend_fails: "avail c (unat pos) = None \<Longrightarrow> coins_math_spend c pos = (c, False)"
  by (auto simp: avail_def coins_math_spend_def split: if_splits)

lemma cleanup_loop_spec:
  "cleanup_loop outs n \<le> n \<and> (\<forall>i. cleanup_loop outs n \<le> i \<and> i < n \<longrightarrow> tx_out_is_null (outs ! i)) \<and>
   (0 < cleanup_loop outs n \<longrightarrow> \<not> tx_out_is_null (outs ! (cleanup_loop outs n - 1)))"
proof (induction outs n rule: cleanup_loop.induct)
  case (1 outs n)
  show ?case
  proof (cases "n > 0 \<and> tx_out_is_null (outs ! (n - 1))")
    case True
    then have e: "cleanup_loop outs n = cleanup_loop outs (n - 1)" by (simp add: cleanup_loop.simps [of outs n])
    have "tx_out_is_null (outs ! i)" if "cleanup_loop outs n \<le> i" "i < n" for i
      using 1 [OF True] that True e by (cases "i = n - 1") auto
    then show ?thesis using 1 [OF True] e by auto
  next
    case False
    then have "cleanup_loop outs n = n" by (subst cleanup_loop.simps) auto
    then show ?thesis using False by auto
  qed
qed

lemma avail_cleanup [simp]: "avail (coins_math_cleanup c) = avail c"
proof
  fix n
  show "avail (coins_math_cleanup c) n = avail c n"
    using cleanup_loop_spec [of "c_vout c" "length (c_vout c)"]
    by (cases "n < cleanup_loop (c_vout c) (length (c_vout c))") (auto simp: avail_def coins_math_cleanup_def)
qed

lemma from_transaction_avail:
  assumes "coins_from_transaction calloc c tx h = (c', True)"
  shows "avail c' n = (if n < length (vout tx) \<and> \<not> script_is_unspendable (script_pub_key (vout tx ! n)) \<and>
                          \<not> tx_out_is_null (vout tx ! n) then Some (vout tx ! n) else None)"
    and "c_height c' = h" "c_is_coinbase c' = transaction_is_coinbase tx" "c_version c' = tx_version tx"
proof -
  have c': "c' = coins_math_cleanup (c\<lparr>c_is_coinbase := transaction_is_coinbase tx, c_height := h, c_version := tx_version tx,
      c_vout := map (\<lambda>out. if script_is_unspendable (script_pub_key out) then tx_out_set_null else out) (vout tx)\<rparr>)"
    using assms by (auto simp: coins_from_transaction_def coins_alloc_def coins_free_def Let_def split: if_splits prod.splits)
  show "avail c' n = (if n < length (vout tx) \<and> \<not> script_is_unspendable (script_pub_key (vout tx ! n)) \<and>
                          \<not> tx_out_is_null (vout tx ! n) then Some (vout tx ! n) else None)"
    unfolding c' by (auto simp: avail_def split: if_splits)
  show "c_height c' = h" "c_is_coinbase c' = transaction_is_coinbase tx" "c_version c' = tx_version tx"
    by (simp_all add: c' coins_math_cleanup_def)
qed

section \<open>Properties\<close>

text \<open>
  C16: a block's undo data read back from the bytes written for it is the data written, whatever
  follows it, provided amounts are in the money range, scripts fit and are stable under the script
  compressor, and records without a height carry no version.
\<close>

theorem block_undo_roundtrip:
  assumes "wf_block_undo parse ser calloc u"
    and "block_undo_serialize parse alloc u (stream_init alloc c) = (s, True)"
  shows "block_undo_deserialize parse ser calloc block_undo_init (stream_init_from_data (sdata s @ rest)) =
           (advance (length (sdata s)) (stream_init_from_data (sdata s @ rest)), Some u)"
proof -
  have "sdata s = enc_block_undo parse u"
    using block_undo_codec.writes_put [OF assms(1), of alloc] assms(2)
    by (auto simp: writes_def extends_def stream_init_def Let_def split: if_splits)
  then show ?thesis using block_undo_codec.roundtrip [OF assms, of rest] by simp
qed

text \<open>A curve with one point per x-coordinate and parity, for the witnesses.\<close>

definition toy_ser :: "bytes \<times> u8 \<Rightarrow> bytes" where
  "toy_ser pt = 0x04 # fst pt @ replicate 31 0 @ [snd pt]"

definition toy_parse :: "bytes \<Rightarrow> (bytes \<times> u8) option" where
  "toy_parse bs =
     (if length bs = 33 \<and> (bs ! 0 = 2 \<or> bs ! 0 = 3) then Some (tl bs, bs ! 0 AND 1)
      else if length bs = 65 \<and> bs = toy_ser (take 32 (tl bs), bs ! 64 AND 1) then Some (take 32 (tl bs), bs ! 64 AND 1)
      else None)"

lemma toy_laws: "secp_laws toy_parse toy_ser"
  unfolding secp_laws_def
proof (intro conjI allI impI)
  fix bs pt assume "toy_parse bs = Some pt"
  then have "pt = (tl bs, bs ! 0 AND 1) \<and> length bs = 33 \<or> pt = (take 32 (tl bs), bs ! 64 AND 1) \<and> length bs = 65"
    unfolding toy_parse_def by (metis option.inject option.distinct(1))
  then obtain x b where pt: "pt = (x, b AND 1)" "length x = 32" by auto
  then show "length (toy_ser pt) = 65" by (simp add: toy_ser_def)
  show "toy_parse (toy_ser pt) = Some pt" using pt by (simp add: toy_parse_def toy_ser_def nth_append)
next
  fix x y pt assume a: "length x = 32 \<and> length y = 32 \<and> toy_parse (0x04 # x @ y) = Some pt"
  then have n: "(0x04 # x @ y) ! 64 = y ! 31" by (simp add: nth_append)
  have pt: "pt = (x, y ! 31 AND 1)" "0x04 # x @ y = toy_ser pt"
    using a unfolding toy_parse_def n by (auto simp: toy_ser_def split: if_splits)
  then show "toy_ser pt = 0x04 # x @ y" by simp
  show "toy_parse ((0x02 OR (y ! 31 AND 1)) # x) = Some pt" "toy_parse ((0x03 XOR (y ! 31 AND 1)) # x) \<noteq> Some pt"
    using a u8_and_one [of "y ! 31"] pt(1) by (elim disjE; simp add: toy_parse_def)+
qed

theorem block_undo_roundtrip_witness:
  "block_undo_deserialize toy_parse toy_ser (\<lambda>_ _. True) block_undo_init
     (stream_init_from_data (([1, 1, 128, 73, 4, 9, 7, 0x6a] @ replicate 32 0) @ [])) =
   (advance 40 (stream_init_from_data (([1, 1, 128, 73, 4, 9, 7, 0x6a] @ replicate 32 0) @ [])),
    Some \<lparr>vtxundo = [[\<lparr>u_txout = \<lparr>out_value = 100000000, script_pub_key = [0x6a]\<rparr>, u_coinbase = True,
              u_height = 100, u_version = 4\<rparr>]], old_sprout_tree_root = replicate 32 0\<rparr>)"
proof -
  let ?o = "\<lparr>out_value = 100000000, script_pub_key = [0x6a]\<rparr>"
  let ?u = "\<lparr>vtxundo = [[\<lparr>u_txout = ?o, u_coinbase = True, u_height = 100, u_version = 4\<rparr>]],
    old_sprout_tree_root = replicate 32 0\<rparr>"
  let ?s = "stream_init (\<lambda>_. True) 64"
  have wf: "wf_block_undo toy_parse toy_ser (\<lambda>_ _. True) ?u"
    by (simp add: wf_block_undo_def wf_tx_undo_def wf_tx_in_undo_def wf_ctxout_def toy_laws MoneyRange_def
        wf_script_def stable_script_def is_int32_def)
  have v: "varint_tmp 201 0 = [73, 128]" "varint_tmp 4 0 = [4]" "varint_tmp 9 0 = [9]" "varint_tmp 7 0 = [7]"
    by (simp_all add: varint_tmp.simps Let_def)
  have c: "compress_amount 100000000 = 9"
    by (simp add: compress_amount_def coins_math_compress_amount_def strip10.simps)
  have "block_undo_serialize toy_parse (\<lambda>_. True) ?u ?s =
      (?s\<lparr>sdata := [1, 1, 128, 73, 4, 9, 7, 0x6a] @ replicate 32 0\<rparr>, True)"
    by (simp add: block_undo_serialize_def tx_undo_serialize_def tx_in_undo_serialize_def
        compressed_txout_serialize_def script_compress_def coins_math_script_compress_def c
        stream_write_varint_def v stream_write_compact_size_def stream_write_bytes_def stream_write_u8_def
        seqw_def whenw_def okw_def stream_write_def stream_init_def)
  from block_undo_roundtrip [OF wf this, of "[]"] show ?thesis by simp
qed

text \<open>
  C34: the parity bit that the script compressor stores for an uncompressed public key is taken from
  the last byte but one of the key. Decompression gives the script back exactly when that byte and
  the last one have the same parity, so half of the uncompressed keys do not survive the round trip.
\<close>

theorem uncompressed_key_parity:
  assumes "secp_laws parse ser" "length x = 32" "length y = 32" "parse (0x04 # x @ y) = Some pt"
  shows "\<exists>t. script_compress parse (p2pk_uncompressed x y) = Some (t # x) \<and>
     (script_decompress parse ser (unat t) x = Some (p2pk_uncompressed x y) \<longleftrightarrow> y ! 30 AND 1 = y ! 31 AND 1)"
  using compress_uncompressed [of x y parse pt] decompress_uncompressed [of parse ser x y pt "y ! 30"] assms by blast

theorem uncompressed_key_parity_witness:
  "\<exists>t. script_compress toy_parse (p2pk_uncompressed (replicate 32 7) (replicate 31 0 @ [1])) = Some (t # replicate 32 7) \<and>
     script_decompress toy_parse toy_ser (unat t) (replicate 32 7) \<noteq> Some (p2pk_uncompressed (replicate 32 7) (replicate 31 0 @ [1]))"
proof -
  have "toy_parse (0x04 # replicate 32 7 @ replicate 31 0 @ [1]) = Some (replicate 32 7, 1)"
    by (simp add: toy_parse_def toy_ser_def nth_append)
  from uncompressed_key_parity [OF toy_laws _ _ this] show ?thesis by (simp add: nth_append)
qed

end
