(* ===== verification/Coins_Map.thy ===== *)
theory Coins_Map
  imports Coins
begin

text \<open>
  The open-addressed hash table of the UTXO cache: \<^verbatim>\<open>coins_map_*\<close> of
  \<^verbatim>\<open>lib/coins/include/coins/coins_view.h\<close> and \<^verbatim>\<open>lib/coins/src/coins_view.c\<close>.

  A table is a list of buckets with the stored \<^verbatim>\<open>size\<close>; \<^verbatim>\<open>num_buckets\<close> is the length of the list. The
  pointer the C functions return to an entry is the index of its bucket. Probing starts at the first
  eight bytes of the txid modulo the number of buckets and goes on linearly, around the end of the
  array. \<^verbatim>\<open>size_t\<close> counters of buckets are natural numbers: they are bounded by the memory the table
  occupies.

  The abstraction \<open>entries\<close> of a table is a finite map from txids to cache entries. The theorems show
  that find, insert, growth and erase implement lookup, insertion, identity and deletion on it, that
  the loop by which erase closes the gap ends for every table, and that the bucket order of the
  probes keeps the invariant that lookups rely on.
\<close>

section \<open>Model\<close>

record coins_cache_entry =
  e_coins :: coins
  e_flags :: u8

record coins_map_entry =
  b_txid :: bytes
  b_entry :: coins_cache_entry
  b_occupied :: bool

record coins_map =
  m_buckets :: "coins_map_entry list"
  m_size :: nat

abbreviation (input) COINS_CACHE_DIRTY :: u8 where "COINS_CACHE_DIRTY \<equiv> 1"
abbreviation (input) COINS_CACHE_FRESH :: u8 where "COINS_CACHE_FRESH \<equiv> 2"
abbreviation (input) COINS_MAP_INITIAL_BUCKETS :: nat where "COINS_MAP_INITIAL_BUCKETS \<equiv> 4096"

abbreviation num_buckets :: "coins_map \<Rightarrow> nat" where
  "num_buckets m \<equiv> length (m_buckets m)"

definition coins_map_hash :: "bytes \<Rightarrow> u64" where
  "coins_map_hash txid = foldl (\<lambda>v i. v OR push_bit (8 * i) (ucast (txid ! i))) 0 [0..<8]"

definition coins_map_init :: coins_map where
  "coins_map_init = \<lparr>m_buckets = [], m_size = 0\<rparr>"

definition coins_map_free :: "coins_map \<Rightarrow> coins_map" where
  "coins_map_free m = \<lparr>m_buckets = [], m_size = 0\<rparr>"

text \<open>The slots a probe visits, in order.\<close>

definition probe :: "nat \<Rightarrow> bytes \<Rightarrow> nat list" where
  "probe n txid = map (\<lambda>i. (unat (coins_map_hash txid) mod n + i) mod n) [0..<n]"

fun find_loop :: "coins_map_entry list \<Rightarrow> bytes \<Rightarrow> nat list \<Rightarrow> nat option" where
  "find_loop bs txid [] = None"
| "find_loop bs txid (slot # slots) =
     (if \<not> b_occupied (bs ! slot) then None
      else if b_txid (bs ! slot) = txid then Some slot
      else find_loop bs txid slots)"

definition coins_map_find :: "coins_map \<Rightarrow> bytes \<Rightarrow> nat option" where
  "coins_map_find m txid =
     (if num_buckets m = 0 then None else find_loop (m_buckets m) txid (probe (num_buckets m) txid))"

fun free_loop :: "coins_map_entry list \<Rightarrow> nat list \<Rightarrow> nat option" where
  "free_loop bs [] = None"
| "free_loop bs (slot # slots) = (if \<not> b_occupied (bs ! slot) then Some slot else free_loop bs slots)"

text \<open>The inner loop that puts an entry back into the first free slot of its probe run.\<close>

definition put_back :: "coins_map_entry list \<times> nat \<Rightarrow> coins_map_entry \<Rightarrow> coins_map_entry list \<times> nat" where
  "put_back st e =
     (case st of (bs, sz) \<Rightarrow>
      case free_loop bs (probe (length bs) (b_txid e)) of
        None \<Rightarrow> (bs, sz)
      | Some slot \<Rightarrow> (bs[slot := e], sz + 1))"

definition empty_bucket :: coins_map_entry where
  "empty_bucket = \<lparr>b_txid = replicate 32 0, b_entry = \<lparr>e_coins = coins_init, e_flags = 0\<rparr>, b_occupied = False\<rparr>"

definition coins_map_rehash :: "calloc \<Rightarrow> coins_map \<Rightarrow> nat \<Rightarrow> coins_map" where
  "coins_map_rehash calloc m new_num_buckets =
     (if \<not> calloc ''coins_map_buckets'' new_num_buckets then m
      else
        (case foldl put_back (replicate new_num_buckets empty_bucket, 0)
                (filter b_occupied (m_buckets m)) of
           (bs, sz) \<Rightarrow> \<lparr>m_buckets = bs, m_size = sz\<rparr>))"

text \<open>The growth step at the start of an insertion.\<close>

definition coins_map_grow :: "calloc \<Rightarrow> coins_map \<Rightarrow> coins_map" where
  "coins_map_grow calloc m =
     (if num_buckets m = 0 \<or> m_size m * 4 \<ge> num_buckets m * 3
      then coins_map_rehash calloc m
             (if num_buckets m = 0 then COINS_MAP_INITIAL_BUCKETS else num_buckets m * 2)
      else m)"

text \<open>
  The outer option is the execution in which the table is still empty after a failed allocation and
  the code computes a remainder by zero; the inner one is the pointer returned.
\<close>

definition coins_map_insert :: "calloc \<Rightarrow> coins_map \<Rightarrow> bytes \<Rightarrow> (coins_map \<times> nat option) option" where
  "coins_map_insert calloc m txid =
     (case (if num_buckets m > 0 then coins_map_find m txid else None) of
        Some slot \<Rightarrow> Some (m, Some slot)
      | None \<Rightarrow>
          (let m1 = coins_map_grow calloc m
           in if num_buckets m1 = 0 then None
              else
                case free_loop (m_buckets m1) (probe (num_buckets m1) txid) of
                  None \<Rightarrow> Some (m1, None)
                | Some slot \<Rightarrow>
                    Some (m1\<lparr>m_buckets := (m_buckets m1)[slot :=
                               \<lparr>b_txid = txid, b_entry = \<lparr>e_coins = coins_init, e_flags = 0\<rparr>, b_occupied = True\<rparr>],
                             m_size := m_size m1 + 1\<rparr>, Some slot)))"

text \<open>The loop over the rest of the cluster; \<open>None\<close> if it does not end.\<close>

definition clear_slot :: "coins_map_entry list \<Rightarrow> nat \<Rightarrow> coins_map_entry list" where
  "clear_slot bs slot = bs[slot := (bs ! slot)\<lparr>b_occupied := False\<rparr>]"

partial_function (option) erase_loop ::
  "coins_map_entry list \<Rightarrow> nat \<Rightarrow> nat \<Rightarrow> (coins_map_entry list \<times> nat) option" where
  "erase_loop bs sz next =
     (if b_occupied (bs ! next) then
        (case put_back (clear_slot bs next, sz - 1) (bs ! next) of
           (bs', sz') \<Rightarrow> erase_loop bs' sz' ((next + 1) mod length bs))
      else Some (bs, sz))"

definition coins_map_erase :: "coins_map \<Rightarrow> bytes \<Rightarrow> (coins_map \<times> bool) option" where
  "coins_map_erase m txid =
     (if num_buckets m = 0 then Some (m, False)
      else
        case find_loop (m_buckets m) txid (probe (num_buckets m) txid) of
          None \<Rightarrow> Some (m, False)
        | Some slot \<Rightarrow>
            (let b = m_buckets m ! slot;
                 bs = (m_buckets m)[slot := b\<lparr>b_entry := (b_entry b)\<lparr>e_coins := coins_free (e_coins (b_entry b))\<rparr>,
                                             b_occupied := False\<rparr>]
             in map_option (\<lambda>(bs', sz'). (\<lparr>m_buckets = bs', m_size = sz'\<rparr>, True))
                  (erase_loop bs (m_size m - 1) ((slot + 1) mod num_buckets m))))"

text \<open>Writing through the pointer to the entry in a bucket.\<close>

definition set_entry :: "coins_map \<Rightarrow> nat \<Rightarrow> coins_cache_entry \<Rightarrow> coins_map" where
  "set_entry m slot e = m\<lparr>m_buckets := (m_buckets m)[slot := (m_buckets m ! slot)\<lparr>b_entry := e\<rparr>]\<rparr>"

definition entry_at :: "coins_map \<Rightarrow> nat \<Rightarrow> coins_cache_entry" where
  "entry_at m slot = b_entry (m_buckets m ! slot)"

definition coins_map_count :: "coins_map \<Rightarrow> nat" where
  "coins_map_count m = m_size m"

section \<open>Distances around the table\<close>

definition home :: "nat \<Rightarrow> bytes \<Rightarrow> nat" where
  "home n k = unat (coins_map_hash k) mod n"

text \<open>The number of steps from slot \<open>a\<close> to slot \<open>b\<close>.\<close>

definition dist :: "nat \<Rightarrow> nat \<Rightarrow> nat \<Rightarrow> nat" where
  "dist n a b = (if a \<le> b then b - a else b + n - a)"

lemma home_less [simp]: "0 < n \<Longrightarrow> home n k < n"
  by (simp add: home_def)

lemma wrap_add: "a < n \<Longrightarrow> i < n \<Longrightarrow> (a + i) mod n = (if a + i < n then a + i else a + i - n)" for n :: nat
  by (simp add: mod_if)

lemma wrap_suc: "a < n \<Longrightarrow> Suc a mod n = (if Suc a < n then Suc a else 0)" for n :: nat
  by (simp add: mod_if)

lemma dist_self [simp]: "dist n a a = 0"
  by (simp add: dist_def)

lemma dist_less: "a < n \<Longrightarrow> b < n \<Longrightarrow> dist n a b < n"
  by (auto simp: dist_def)

lemma dist_step: "a < n \<Longrightarrow> i < n \<Longrightarrow> dist n a ((a + i) mod n) = i"
  by (auto simp: wrap_add dist_def)

lemma step_dist: "a < n \<Longrightarrow> b < n \<Longrightarrow> (a + dist n a b) mod n = b"
  by (auto simp: dist_def)

lemma dist_inj: "a < n \<Longrightarrow> b < n \<Longrightarrow> c < n \<Longrightarrow> dist n a b = dist n a c \<longleftrightarrow> b = c"
  by (auto simp: dist_def split: if_splits)

lemma dist_split: "a < n \<Longrightarrow> b < n \<Longrightarrow> c < n \<Longrightarrow> dist n a b \<le> dist n a c \<Longrightarrow> dist n a c = dist n a b + dist n b c"
  by (auto simp: dist_def split: if_splits)

lemma dist_add: "a < n \<Longrightarrow> b < n \<Longrightarrow> c < n \<Longrightarrow> dist n a b + dist n b c < n \<Longrightarrow> dist n a c = dist n a b + dist n b c"
  by (auto simp: dist_def split: if_splits)

lemma dist_suc: "a < n \<Longrightarrow> b < n \<Longrightarrow> a \<noteq> b \<Longrightarrow> dist n a b = Suc (dist n ((a + 1) mod n) b)"
  by (auto simp: dist_def wrap_suc)

lemma dist_suc_self: "a < n \<Longrightarrow> dist n ((a + 1) mod n) a = n - 1"
  by (auto simp: dist_def wrap_suc)

text \<open>What lies between a slot on the way to \<open>s\<close> and \<open>s\<close> is on the way to \<open>s\<close>.\<close>

lemma dist_between:
  assumes "h < n" "a < n" "u < n" "s < n" and a: "dist n h a < dist n h s"
    and u: "dist n ((a + 1) mod n) u \<le> dist n ((a + 1) mod n) s" and "u \<noteq> a"
  shows "dist n h u \<le> dist n h s"
proof -
  have "s \<noteq> a" using a by auto
  then have "dist n a u \<le> dist n a s" using dist_suc [of a n] u assms by simp
  moreover have "dist n h s = dist n h a + dist n a s" using dist_split [of h n a s] a assms by simp
  moreover have "dist n h s < n" using assms by (simp add: dist_less)
  ultimately show ?thesis using dist_add [of h n a u] assms by simp
qed

section \<open>The probe loops\<close>

lemma length_probe [simp]: "length (probe n k) = n"
  by (simp add: probe_def)

lemma nth_probe: "i < n \<Longrightarrow> probe n k ! i = (home n k + i) mod n"
  by (simp add: probe_def home_def)

lemma probe_dist: "s < n \<Longrightarrow> probe n k ! dist n (home n k) s = s"
  using dist_less [of "home n k" n s] step_dist [of "home n k" n s] by (simp add: nth_probe)

lemma free_loop_SomeD:
  "free_loop bs slots = Some f \<Longrightarrow>
     \<exists>i < length slots. slots ! i = f \<and> \<not> b_occupied (bs ! f) \<and> (\<forall>j < i. b_occupied (bs ! (slots ! j)))"
proof (induction slots)
  case (Cons s slots)
  show ?case
  proof (cases "b_occupied (bs ! s)")
    case True
    then obtain i where "i < length slots" "slots ! i = f" "\<not> b_occupied (bs ! f)" "\<forall>j < i. b_occupied (bs ! (slots ! j))"
      using Cons by auto
    then show ?thesis using True by (intro exI [of _ "Suc i"]) (auto simp: less_Suc_eq_0_disj)
  next
    case False
    then show ?thesis using Cons.prems by (intro exI [of _ 0]) simp
  qed
qed simp

lemma free_loop_NoneD: "free_loop bs slots = None \<Longrightarrow> s \<in> set slots \<Longrightarrow> b_occupied (bs ! s)"
  by (induction slots) (auto split: if_splits)

lemma find_loop_SomeD: "find_loop bs k slots = Some f \<Longrightarrow> f \<in> set slots \<and> b_occupied (bs ! f) \<and> b_txid (bs ! f) = k"
  by (induction slots) (auto split: if_splits)

lemma find_loop_hit:
  assumes "i < length slots" "slots ! i = f" "b_txid (bs ! f) = k"
    and "\<And>j. j \<le> i \<Longrightarrow> b_occupied (bs ! (slots ! j))"
  shows "find_loop bs k slots \<noteq> None"
  using assms
proof (induction slots arbitrary: i)
  case (Cons s slots)
  have s: "b_occupied (bs ! s)" using Cons.prems(4) [of 0] by simp
  show ?case
  proof (cases i)
    case 0
    then show ?thesis using Cons.prems s by simp
  next
    case (Suc j)
    then have "find_loop bs k slots \<noteq> None" using Cons.prems(1,2,3) Cons.prems(4) [of "Suc _"] by (intro Cons.IH [of j]) auto
    then show ?thesis using s by simp
  qed
qed simp

text \<open>In terms of distances from the home slot.\<close>

lemma set_probe: "set (probe n k) = {..<n}"
proof -
  have "s \<in> set (probe n k)" if "s < n" for s
    using probe_dist [OF that, of k] that dist_less [of "home n k" n s] nth_mem [of "dist n (home n k) s" "probe n k"] by simp
  moreover have "s < n" if "s \<in> set (probe n k)" for s using that by (auto simp: probe_def)
  ultimately show ?thesis by auto
qed

lemma free_loop_probe:
  assumes "free_loop bs (probe n k) = Some f"
  shows "f < n" "\<not> b_occupied (bs ! f)"
    "t < n \<Longrightarrow> dist n (home n k) t < dist n (home n k) f \<Longrightarrow> b_occupied (bs ! t)"
proof -
  obtain i where i: "i < n" "probe n k ! i = f" "\<not> b_occupied (bs ! f)" "\<forall>j < i. b_occupied (bs ! (probe n k ! j))"
    using free_loop_SomeD [OF assms] by auto
  then show f: "f < n" "\<not> b_occupied (bs ! f)" using nth_mem [of i "probe n k"] by (auto simp: set_probe)
  assume t: "t < n" "dist n (home n k) t < dist n (home n k) f"
  have "dist n (home n k) f = i" using i dist_step [of "home n k" n i] by (simp add: nth_probe)
  then show "b_occupied (bs ! t)" using i(4) t probe_dist [OF t(1), of k] by auto
qed

lemma free_loop_ex: "s < n \<Longrightarrow> \<not> b_occupied (bs ! s) \<Longrightarrow> \<exists>f. free_loop bs (probe n k) = Some f"
  using free_loop_NoneD [of bs "probe n k" s] by (cases "free_loop bs (probe n k)") (auto simp: set_probe)

section \<open>Well-formed tables and their content\<close>

definition occ :: "coins_map_entry list \<Rightarrow> nat \<Rightarrow> bool" where
  "occ bs s \<longleftrightarrow> s < length bs \<and> b_occupied (bs ! s)"

definition way :: "coins_map_entry list \<Rightarrow> nat \<Rightarrow> nat \<Rightarrow> nat" where
  "way bs s t = dist (length bs) (home (length bs) (b_txid (bs ! s))) t"

definition keys_distinct :: "coins_map_entry list \<Rightarrow> bool" where
  "keys_distinct bs \<longleftrightarrow> (\<forall>s t. occ bs s \<and> occ bs t \<and> b_txid (bs ! s) = b_txid (bs ! t) \<longrightarrow> s = t)"

text \<open>Every slot between the home slot of an entry and the entry is occupied.\<close>

definition probed :: "coins_map_entry list \<Rightarrow> bool" where
  "probed bs \<longleftrightarrow> (\<forall>s t. occ bs s \<and> t < length bs \<and> way bs s t < way bs s s \<longrightarrow> occ bs t)"

definition occ_count :: "coins_map_entry list \<Rightarrow> nat" where
  "occ_count bs = length (filter b_occupied bs)"

definition wf_map :: "coins_map \<Rightarrow> bool" where
  "wf_map m \<longleftrightarrow> keys_distinct (m_buckets m) \<and> probed (m_buckets m) \<and> m_size m = occ_count (m_buckets m)"

definition content :: "coins_map_entry list \<Rightarrow> (bytes \<times> coins_cache_entry) set" where
  "content bs = (\<lambda>b. (b_txid b, b_entry b)) ` {b \<in> set bs. b_occupied b}"

definition entries :: "coins_map \<Rightarrow> bytes \<Rightarrow> coins_cache_entry option" where
  "entries m = map_of (map (\<lambda>b. (b_txid b, b_entry b)) (filter b_occupied (m_buckets m)))"

lemma content_iff: "(k, e) \<in> content bs \<longleftrightarrow> (\<exists>s. occ bs s \<and> b_txid (bs ! s) = k \<and> b_entry (bs ! s) = e)"
  unfolding content_def occ_def by (auto simp: in_set_conv_nth image_iff)

lemma entries_iff:
  assumes "keys_distinct (m_buckets m)"
  shows "entries m k = Some e \<longleftrightarrow> (k, e) \<in> content (m_buckets m)"
proof
  assume "entries m k = Some e"
  then show "(k, e) \<in> content (m_buckets m)"
    unfolding entries_def content_def by (auto dest!: map_of_SomeD simp: image_iff)
next
  assume c: "(k, e) \<in> content (m_buckets m)"
  then have "k \<in> fst ` set (map (\<lambda>b. (b_txid b, b_entry b)) (filter b_occupied (m_buckets m)))"
    by (force simp: content_def)
  then obtain e' where e': "entries m k = Some e'" unfolding entries_def by (metis domD dom_map_of_conv_image_fst)
  then have "(k, e') \<in> content (m_buckets m)"
    unfolding entries_def content_def by (auto dest!: map_of_SomeD simp: image_iff)
  then have "e' = e" using c assms unfolding content_iff keys_distinct_def by metis
  then show "entries m k = Some e" using e' by simp
qed

lemma entries_eqI:
  assumes "keys_distinct (m_buckets m)" "\<And>e. f k = Some e \<longleftrightarrow> (k, e) \<in> content (m_buckets m)"
  shows "entries m k = f k"
  using entries_iff [OF assms(1), of k] assms(2) by (metis option.exhaust)

lemma occ_count_card: "occ_count bs = card {s. occ bs s}"
  by (simp add: occ_count_def length_filter_conv_card occ_def)

lemma finite_occ [simp]: "finite {s. occ bs s}"
  by (rule finite_subset [of _ "{..<length bs}"]) (auto simp: occ_def)

lemma occ_full: "occ_count bs < length bs \<Longrightarrow> \<exists>s < length bs. \<not> b_occupied (bs ! s)"
  unfolding occ_count_def using filter_id_conv [of b_occupied bs] by (metis nat_neq_iff in_set_conv_nth)

subsection \<open>Lookup\<close>

lemma find_iff:
  assumes "keys_distinct bs" "probed bs"
  shows "find_loop bs k (probe (length bs) k) = Some s \<longleftrightarrow> occ bs s \<and> b_txid (bs ! s) = k"
proof
  assume "find_loop bs k (probe (length bs) k) = Some s"
  from find_loop_SomeD [OF this] show "occ bs s \<and> b_txid (bs ! s) = k" by (auto simp: set_probe occ_def)
next
  assume s: "occ bs s \<and> b_txid (bs ! s) = k"
  then have n: "s < length bs" by (simp add: occ_def)
  have hn: "home (length bs) k < length bs" by (rule home_less) (rule le_less_trans [OF le0 n])
  let ?d = "dist (length bs) (home (length bs) k)"
  have "find_loop bs k (probe (length bs) k) \<noteq> None"
  proof (rule find_loop_hit [of "?d s"])
    show "?d s < length (probe (length bs) k)" using n hn dist_less by simp
    show "probe (length bs) k ! ?d s = s" by (rule probe_dist [OF n])
    fix j assume j: "j \<le> ?d s"
    then have jn: "j < length bs" using n dist_less [OF hn n] by simp
    define t where "t = probe (length bs) k ! j"
    have t: "t < length bs" "?d t = j"
      unfolding t_def nth_probe [OF jn] using dist_step [OF hn jn] mod_less_divisor [OF le_less_trans [OF le0 n]] by simp_all
    show "b_occupied (bs ! (probe (length bs) k ! j))"
    proof (cases "t = s")
      case False
      then have "?d t < ?d s" using j t n dist_inj [OF hn t(1) n] by simp
      then have "occ bs t" using assms(2) s t(1) unfolding probed_def way_def by blast
      then show ?thesis by (simp add: t_def occ_def)
    qed (use s in \<open>simp add: t_def occ_def\<close>)
  qed (use s in simp)
  then obtain f where f: "find_loop bs k (probe (length bs) k) = Some f" by blast
  from find_loop_SomeD [OF this] have "occ bs f \<and> b_txid (bs ! f) = k" by (auto simp: set_probe occ_def)
  then show "find_loop bs k (probe (length bs) k) = Some s" using f s assms(1) unfolding keys_distinct_def by metis
qed

lemma find_entries:
  assumes "wf_map m"
  shows "entries m k = map_option (\<lambda>s. b_entry (m_buckets m ! s)) (coins_map_find m k)"
proof (rule entries_eqI)
  show kd: "keys_distinct (m_buckets m)" using assms by (simp add: wf_map_def)
  fix e
  show "map_option (\<lambda>s. b_entry (m_buckets m ! s)) (coins_map_find m k) = Some e \<longleftrightarrow> (k, e) \<in> content (m_buckets m)"
    using find_iff [of "m_buckets m" k] assms
    by (auto simp: coins_map_find_def content_iff wf_map_def occ_def)
qed

subsection \<open>Filling a free slot\<close>

lemma occ_update: "f < length bs \<Longrightarrow> occ (bs[f := b]) s \<longleftrightarrow> (if s = f then b_occupied b else occ bs s)"
  by (auto simp: occ_def)

lemma fill_slot:
  assumes wf: "keys_distinct bs" "probed bs" and f: "free_loop bs (probe (length bs) (b_txid b)) = Some f"
    and b: "b_occupied b" and new: "\<And>s. occ bs s \<Longrightarrow> b_txid (bs ! s) \<noteq> b_txid b"
  shows "keys_distinct (bs[f := b])" "probed (bs[f := b])" "occ_count (bs[f := b]) = Suc (occ_count bs)"
    "content (bs[f := b]) = insert (b_txid b, b_entry b) (content bs)"
proof -
  note fr = free_loop_probe [OF f]
  have nocc: "\<not> occ bs f" using fr by (simp add: occ_def)
  note oc = occ_update [OF fr(1), of b]
  show "keys_distinct (bs[f := b])" using wf(1) new fr(1) nocc unfolding keys_distinct_def oc
    by (auto simp: nth_list_update) (metis+)
  show "probed (bs[f := b])"
    unfolding probed_def
  proof (intro allI impI, elim conjE)
    fix s t assume s: "occ (bs[f := b]) s" and t: "t < length (bs[f := b])" "way (bs[f := b]) s t < way (bs[f := b]) s s"
    show "occ (bs[f := b]) t"
    proof (cases "s = f")
      case True
      then have "b_occupied (bs ! t)" using fr(3) [of t] t fr(1) by (simp add: way_def)
      then show ?thesis using t b by (cases "t = f") (simp_all add: occ_def)
    next
      case False
      then have "occ bs t" using wf(2) s t oc unfolding probed_def way_def by auto
      then show ?thesis using oc b by simp
    qed
  qed
  have "{s. occ (bs[f := b]) s} = insert f {s. occ bs s}" using oc b by auto
  then show "occ_count (bs[f := b]) = Suc (occ_count bs)" using nocc by (simp add: occ_count_card)
  show "content (bs[f := b]) = insert (b_txid b, b_entry b) (content bs)"
    using oc b nocc fr(1) by (auto simp: content_iff nth_list_update split: if_splits) (metis+)
qed

subsection \<open>Growth\<close>

lemma rehash_fold:
  assumes "keys_distinct bs" "probed bs" "sz = occ_count bs" "distinct (map b_txid xs)" "list_all b_occupied xs"
    and "\<And>s. occ bs s \<Longrightarrow> b_txid (bs ! s) \<notin> b_txid ` set xs" "occ_count bs + length xs \<le> length bs"
    and "foldl put_back (bs, sz) xs = (bs', sz')"
  shows "keys_distinct bs' \<and> probed bs' \<and> sz' = occ_count bs' \<and> length bs' = length bs \<and>
     content bs' = content bs \<union> (\<lambda>b. (b_txid b, b_entry b)) ` set xs \<and> occ_count bs' = occ_count bs + length xs"
  using assms
proof (induction xs arbitrary: bs sz)
  case (Cons x xs)
  obtain s where "s < length bs" "\<not> b_occupied (bs ! s)" using occ_full [of bs] Cons.prems(7) by auto
  then obtain f where f: "free_loop bs (probe (length bs) (b_txid x)) = Some f" using free_loop_ex by blast
  have new: "b_txid (bs ! s) \<noteq> b_txid x" if "occ bs s" for s using Cons.prems(6) [OF that] by auto
  have x: "b_occupied x" using Cons.prems(5) by simp
  note fill = fill_slot [OF Cons.prems(1,2) f x new]
  have fl: "f < length bs" using free_loop_probe(1) [OF f] .
  have pb: "put_back (bs, sz) x = (bs[f := x], sz + 1)" using f by (simp add: put_back_def)
  have other: "b_txid (bs[f := x] ! s) \<notin> b_txid ` set xs" if "occ (bs[f := x]) s" for s
    using that Cons.prems(4) Cons.prems(6) [of s] fl by (cases "s = f") (auto simp: occ_update)
  have "keys_distinct bs' \<and> probed bs' \<and> sz' = occ_count bs' \<and> length bs' = length (bs[f := x]) \<and>
     content bs' = content (bs[f := x]) \<union> (\<lambda>b. (b_txid b, b_entry b)) ` set xs \<and>
     occ_count bs' = occ_count (bs[f := x]) + length xs"
  proof (rule Cons.IH [OF fill(1,2) refl])
    show "foldl put_back (bs[f := x], occ_count (bs[f := x])) xs = (bs', sz')"
      using Cons.prems(3,8) fill(3) pb by simp
  qed (use Cons.prems fill(3) other in auto)
  then show ?case using fill(3,4) by auto
qed simp

lemma occ_replicate [simp]: "\<not> occ (replicate n empty_bucket) s"
  by (simp add: occ_def empty_bucket_def)

lemma keys_distinct_filter: "keys_distinct bs \<Longrightarrow> distinct (map b_txid (filter b_occupied bs))"
  unfolding keys_distinct_def
proof (induction bs)
  case (Cons b bs)
  have "distinct (map b_txid (filter b_occupied bs))"
  proof (rule Cons.IH, intro allI impI)
    fix s t assume "occ bs s \<and> occ bs t \<and> b_txid (bs ! s) = b_txid (bs ! t)"
    then show "s = t" using Cons.prems [rule_format, of "Suc s" "Suc t"] by (simp add: occ_def)
  qed
  moreover have "b_txid b \<noteq> b_txid (bs ! t)" if "b_occupied b" "occ bs t" for t
    using Cons.prems [rule_format, of 0 "Suc t"] that by (auto simp: occ_def)
  ultimately show ?case by (auto simp: in_set_conv_nth occ_def)
qed simp

lemma rehash_wf:
  assumes wf: "wf_map m" and n: "occ_count (m_buckets m) \<le> n"
  shows "wf_map (coins_map_rehash calloc m n) \<and> entries (coins_map_rehash calloc m n) = entries m \<and>
    (calloc ''coins_map_buckets'' n \<longrightarrow> num_buckets (coins_map_rehash calloc m n) = n \<and>
       m_size (coins_map_rehash calloc m n) = m_size m)"
proof (cases "calloc ''coins_map_buckets'' n")
  case True
  let ?e = "replicate n empty_bucket" and ?xs = "filter b_occupied (m_buckets m)"
  obtain bs sz where fl: "foldl put_back (?e, 0) ?xs = (bs, sz)" by fastforce
  have e: "keys_distinct ?e" "probed ?e" "0 = occ_count ?e" "content ?e = {}"
    by (auto simp: keys_distinct_def probed_def occ_count_card content_iff)
  have "keys_distinct bs \<and> probed bs \<and> sz = occ_count bs \<and> length bs = length ?e \<and>
      content bs = content ?e \<union> (\<lambda>b. (b_txid b, b_entry b)) ` set ?xs \<and> occ_count bs = occ_count ?e + length ?xs"
    by (rule rehash_fold [OF e(1-3) _ _ _ _ fl])
      (use wf n e in \<open>auto simp: wf_map_def keys_distinct_filter list_all_iff occ_count_def\<close>)
  moreover have "(\<lambda>b. (b_txid b, b_entry b)) ` set ?xs = content (m_buckets m)" by (auto simp: content_def)
  ultimately have r: "wf_map \<lparr>m_buckets = bs, m_size = sz\<rparr>" "content bs = content (m_buckets m)"
    "length bs = n" "sz = m_size m"
    using e(3,4) wf by (auto simp: wf_map_def occ_count_def)
  have "entries \<lparr>m_buckets = bs, m_size = sz\<rparr> k = entries m k" for k
    by (rule entries_eqI) (use r wf entries_iff [of m] in \<open>auto simp: wf_map_def\<close>)
  then show ?thesis using True r fl by (auto simp: coins_map_rehash_def)
qed (use wf in \<open>simp add: coins_map_rehash_def\<close>)

lemma occ_count_le: "occ_count bs \<le> length bs"
  by (simp add: occ_count_def)

lemma grow_cases:
  assumes "wf_map m"
  obtains "coins_map_grow calloc m = m" "m_size m < num_buckets m"
  | n where "coins_map_grow calloc m = coins_map_rehash calloc m n" "m_size m < n" "occ_count (m_buckets m) \<le> n"
proof -
  have le: "m_size m = occ_count (m_buckets m)" "m_size m \<le> num_buckets m"
    using assms occ_count_le by (simp_all add: wf_map_def)
  consider "num_buckets m = 0" | "num_buckets m \<noteq> 0" "m_size m * 4 \<ge> num_buckets m * 3" | "m_size m * 4 < num_buckets m * 3"
    by linarith
  then show thesis
  proof cases
    case 1
    then show ?thesis using that(2) [of 4096] le by (simp add: coins_map_grow_def)
  next
    case 2
    have lt: "m_size m < num_buckets m * 2" using 2(1) le(2) by linarith
    show ?thesis using 2 lt that(2) [of "num_buckets m * 2"] le by (simp add: coins_map_grow_def)
  next
    case 3
    then have "num_buckets m \<noteq> 0" "\<not> m_size m * 4 \<ge> num_buckets m * 3" by linarith+
    then show ?thesis using that(1) 3 by (simp add: coins_map_grow_def)
  qed
qed

lemma grow_wf: "wf_map m \<Longrightarrow> wf_map (coins_map_grow calloc m) \<and> entries (coins_map_grow calloc m) = entries m"
  by (rule grow_cases [of m calloc]) (simp_all add: rehash_wf)

lemma grow_room:
  assumes "wf_map m" "\<forall>n. calloc ''coins_map_buckets'' n"
  shows "m_size (coins_map_grow calloc m) < num_buckets (coins_map_grow calloc m)"
  using assms(1) by (rule grow_cases [of _ calloc]) (use assms rehash_wf [OF assms(1)] in simp_all)

subsection \<open>Insertion\<close>

text \<open>The slot an insertion returns holds the key; a new entry is empty, an old one is kept.\<close>

lemma insert_spec:
  assumes wf: "wf_map m" and ins: "coins_map_insert calloc m k = Some (m', Some s)"
  shows "wf_map m'" "s < num_buckets m'" "b_occupied (m_buckets m' ! s)" "b_txid (m_buckets m' ! s) = k"
    "b_entry (m_buckets m' ! s) = (case entries m k of None \<Rightarrow> \<lparr>e_coins = coins_init, e_flags = 0\<rparr> | Some e \<Rightarrow> e)"
    "entries m' = (entries m)(k \<mapsto> b_entry (m_buckets m' ! s))"
proof -
  have *: "wf_map m' \<and> occ (m_buckets m') s \<and> b_txid (m_buckets m' ! s) = k \<and>
    b_entry (m_buckets m' ! s) = (case entries m k of None \<Rightarrow> \<lparr>e_coins = coins_init, e_flags = 0\<rparr> | Some e \<Rightarrow> e) \<and>
    entries m' = (entries m)(k \<mapsto> b_entry (m_buckets m' ! s))"
  proof (cases "coins_map_find m k")
    case (Some f)
    then have "num_buckets m > 0" by (auto simp: coins_map_find_def split: if_splits)
    then have mf: "m' = m" "s = f" using ins Some by (simp_all add: coins_map_insert_def)
    have "occ (m_buckets m) f \<and> b_txid (m_buckets m ! f) = k"
      using Some find_iff [of "m_buckets m" k f] wf by (auto simp: coins_map_find_def wf_map_def split: if_splits)
    moreover have "entries m k = Some (b_entry (m_buckets m ! f))" using find_entries [OF wf, of k] Some by simp
    ultimately show ?thesis using mf wf by auto
  next
    case None
    let ?m = "coins_map_grow calloc m"
    have g: "wf_map ?m" "entries ?m = entries m" using grow_wf [OF wf] by simp_all
    have nk: "entries m k = None" using find_entries [OF wf, of k] None by simp
    let ?b = "\<lparr>b_txid = k, b_entry = \<lparr>e_coins = coins_init, e_flags = 0\<rparr>, b_occupied = True\<rparr>"
    have f: "free_loop (m_buckets ?m) (probe (num_buckets ?m) k) = Some s"
      and m': "m' = ?m\<lparr>m_buckets := (m_buckets ?m)[s := ?b], m_size := m_size ?m + 1\<rparr>"
      using ins None by (auto simp: coins_map_insert_def Let_def split: if_splits option.splits)
    have kd: "keys_distinct (m_buckets ?m)" "probed (m_buckets ?m)" using g by (simp_all add: wf_map_def)
    have new: "b_txid (m_buckets ?m ! t) \<noteq> b_txid ?b" if "occ (m_buckets ?m) t" for t
      using entries_iff [OF kd(1), of k] that nk g(2) by (auto simp: content_iff)
    have f': "free_loop (m_buckets ?m) (probe (num_buckets ?m) (b_txid ?b)) = Some s" using f by simp
    note fill = fill_slot [OF kd f' _ new, simplified]
    have s: "s < num_buckets ?m" using free_loop_probe(1) [OF f] .
    have wf': "wf_map m'" using fill g by (simp add: wf_map_def m')
    have nc: "(k, e) \<notin> content (m_buckets ?m)" for e using entries_iff [OF kd(1), of k e] nk g(2) by simp
    have "entries m' j = ((entries m)(k \<mapsto> b_entry ?b)) j" for j
      by (rule entries_eqI) (use fill g entries_iff [OF kd(1)] nc in \<open>auto simp: m' wf_map_def\<close>)
    then show ?thesis using wf' s nk by (auto simp: m' occ_def)
  qed
  then show "wf_map m'" "s < num_buckets m'" "b_occupied (m_buckets m' ! s)" "b_txid (m_buckets m' ! s) = k"
    "b_entry (m_buckets m' ! s) = (case entries m k of None \<Rightarrow> \<lparr>e_coins = coins_init, e_flags = 0\<rparr> | Some e \<Rightarrow> e)"
    "entries m' = (entries m)(k \<mapsto> b_entry (m_buckets m' ! s))"
    by (auto simp: occ_def)
qed

subsection \<open>Closing the gap\<close>

text \<open>
  While the loop is at \<open>nx\<close> only one free slot, the hole, can lie on the way to an entry, and only to
  an entry of the cluster that starts at \<open>nx\<close>.
\<close>

definition shift_inv :: "coins_map_entry list \<Rightarrow> nat \<Rightarrow> nat \<Rightarrow> bool" where
  "shift_inv bs hole nx \<longleftrightarrow>
     keys_distinct bs \<and> hole < length bs \<and> nx < length bs \<and> \<not> occ bs hole \<and>
     (\<forall>s t. occ bs s \<and> t < length bs \<and> \<not> occ bs t \<and> way bs s t < way bs s s \<longrightarrow>
        t = hole \<and> (\<forall>u < length bs. dist (length bs) nx u \<le> dist (length bs) nx s \<longrightarrow> occ bs u))"

lemma shift_invD:
  assumes "shift_inv bs hole nx"
  shows "keys_distinct bs" "hole < length bs" "nx < length bs" "\<not> occ bs hole"
    "occ bs s \<Longrightarrow> t < length bs \<Longrightarrow> \<not> occ bs t \<Longrightarrow> way bs s t < way bs s s \<Longrightarrow> t = hole"
    "occ bs s \<Longrightarrow> t < length bs \<Longrightarrow> \<not> occ bs t \<Longrightarrow> way bs s t < way bs s s \<Longrightarrow>
       u < length bs \<Longrightarrow> dist (length bs) nx u \<le> dist (length bs) nx s \<Longrightarrow> occ bs u"
  using assms unfolding shift_inv_def by blast+

lemma home_pos: "s < n \<Longrightarrow> home n k < n"
  by (rule home_less) (rule le_less_trans [OF le0])

lemma way_less: "s < length bs \<Longrightarrow> t < length bs \<Longrightarrow> way bs s t < length bs"
  unfolding way_def by (rule dist_less [OF home_pos])

lemma way_inj: "s < length bs \<Longrightarrow> t < length bs \<Longrightarrow> u < length bs \<Longrightarrow> way bs s t = way bs s u \<longleftrightarrow> t = u"
  unfolding way_def by (rule dist_inj [OF home_pos])

lemma way_between:
  assumes "a < length bs" "u < length bs" "s < length bs" "way bs s a < way bs s s"
    and "dist (length bs) ((a + 1) mod length bs) u \<le> dist (length bs) ((a + 1) mod length bs) s" "u \<noteq> a" "u \<noteq> s"
  shows "way bs s u < way bs s s"
proof -
  have "way bs s u \<le> way bs s s"
    unfolding way_def by (rule dist_between [OF home_pos [OF assms(1)] assms(1,2,3) assms(4) [unfolded way_def] assms(5,6)])
  then show ?thesis using way_inj [of s bs u s] assms by auto
qed

lemma shift_target:
  assumes inv: "shift_inv bs hole nx" and nx: "occ bs nx"
  shows "free_loop (clear_slot bs nx) (probe (length bs) (b_txid (bs ! nx))) =
    Some (if way bs nx hole < way bs nx nx then hole else nx)"
proof -
  let ?c = "clear_slot bs nx" and ?p = "probe (length bs) (b_txid (bs ! nx))"
  have n: "nx < length bs" "hole < length bs" "\<not> occ bs hole" using shift_invD(2-4) [OF inv] by blast+
  have c: "b_occupied (?c ! t) \<longleftrightarrow> t \<noteq> nx \<and> b_occupied (bs ! t)" if "t < length bs" for t
    using that n(1) by (cases "t = nx") (simp_all add: clear_slot_def)
  have "\<not> b_occupied (?c ! nx)" using c [OF n(1)] by simp
  from free_loop_ex [OF n(1) this] obtain f where f: "free_loop ?c ?p = Some f" by blast
  have fl: "f < length bs" by (rule free_loop_probe(1) [OF f])
  have ff: "f = nx \<or> \<not> occ bs f" using free_loop_probe(2) [OF f] c [OF fl] by (simp add: occ_def)
  have w: "t \<noteq> nx \<and> occ bs t" if "way bs nx t < way bs nx f" "t < length bs" for t
  proof -
    have "b_occupied (?c ! t)" by (rule free_loop_probe(3) [OF f that(2)]) (use that(1) in \<open>simp only: way_def\<close>)
    then show ?thesis using c [OF that(2)] that(2) by (simp add: occ_def)
  qed
  have nn: "\<not> way bs nx nx < way bs nx f" using w [of nx] n(1) by blast
  have nh: "\<not> way bs nx hole < way bs nx f" using w [of hole] n(2,3) by blast
  have "f = nx \<or> f = hole \<and> way bs nx f < way bs nx nx"
  proof (cases "f = nx")
    case False
    then have "way bs nx f < way bs nx nx" using nn way_inj [OF n(1) fl n(1)] by linarith
    moreover from this have "f = hole" using shift_invD(5) [OF inv nx fl] ff False by blast
    ultimately show ?thesis by simp
  qed simp
  then show ?thesis
  proof
    assume "f = nx"
    then show ?thesis using f nh by simp
  next
    assume "f = hole \<and> way bs nx f < way bs nx nx"
    then show ?thesis using f by auto
  qed
qed

text \<open>An entry that the hole cuts off from its home moves into the hole.\<close>

definition moved :: "coins_map_entry list \<Rightarrow> nat \<Rightarrow> nat \<Rightarrow> coins_map_entry list" where
  "moved bs hole nx = (clear_slot bs nx)[hole := bs ! nx]"

lemma length_moved [simp]: "length (moved bs hole nx) = length bs"
  by (simp add: moved_def clear_slot_def)

lemma moved_slots:
  assumes "hole < length bs" "nx < length bs" "hole \<noteq> nx" "b_occupied (bs ! nx)"
  shows "occ (moved bs hole nx) s \<longleftrightarrow> s = hole \<or> occ bs s \<and> s \<noteq> nx"
    "b_txid (moved bs hole nx ! s) = b_txid (bs ! (if s = hole then nx else s))"
    "s \<noteq> nx \<Longrightarrow> b_entry (moved bs hole nx ! s) = b_entry (bs ! (if s = hole then nx else s))"
proof -
  have "moved bs hole nx ! s = (if s = hole then bs ! nx else if s = nx then (bs ! nx)\<lparr>b_occupied := False\<rparr> else bs ! s)"
    using assms by (auto simp: moved_def clear_slot_def nth_list_update)
  then show "occ (moved bs hole nx) s \<longleftrightarrow> s = hole \<or> occ bs s \<and> s \<noteq> nx"
    "b_txid (moved bs hole nx ! s) = b_txid (bs ! (if s = hole then nx else s))"
    "s \<noteq> nx \<Longrightarrow> b_entry (moved bs hole nx ! s) = b_entry (bs ! (if s = hole then nx else s))"
    using assms by (auto simp: occ_def)
qed

lemma moved_keys:
  assumes "keys_distinct bs" "hole < length bs" "occ bs nx" "\<not> occ bs hole"
  shows "keys_distinct (moved bs hole nx)" "content (moved bs hole nx) = content bs"
    "occ_count (moved bs hole nx) = occ_count bs"
proof -
  have h: "nx < length bs" "hole \<noteq> nx" "b_occupied (bs ! nx)" using assms by (auto simp: occ_def)
  note m = moved_slots [OF assms(2) h]
  show "keys_distinct (moved bs hole nx)"
    unfolding keys_distinct_def
  proof (intro allI impI, elim conjE)
    fix s t assume st: "occ (moved bs hole nx) s" "occ (moved bs hole nx) t"
      "b_txid (moved bs hole nx ! s) = b_txid (moved bs hole nx ! t)"
    let ?f = "\<lambda>s. if s = hole then nx else s"
    have "occ bs (?f s)" "occ bs (?f t)" using st assms(3) unfolding m(1) by auto
    moreover have "b_txid (bs ! ?f s) = b_txid (bs ! ?f t)" using st(3) unfolding m(2) .
    ultimately have "?f s = ?f t" using assms(1) unfolding keys_distinct_def by blast
    then show "s = t" using st unfolding m(1) by (auto split: if_splits)
  qed
  have "(k, e) \<in> content (moved bs hole nx) \<longleftrightarrow> (k, e) \<in> content bs" for k e
  proof
    assume "(k, e) \<in> content (moved bs hole nx)"
    then obtain s where s: "occ (moved bs hole nx) s" "b_txid (moved bs hole nx ! s) = k" "b_entry (moved bs hole nx ! s) = e"
      unfolding content_iff by blast
    then have "s \<noteq> nx" using m(1) h(2) by auto
    then show "(k, e) \<in> content bs" unfolding content_iff using s assms(3) m [of s]
      by (intro exI [of _ "if s = hole then nx else s"]) auto
  next
    assume "(k, e) \<in> content bs"
    then obtain s where s: "occ bs s" "b_txid (bs ! s) = k" "b_entry (bs ! s) = e" unfolding content_iff by blast
    then show "(k, e) \<in> content (moved bs hole nx)" unfolding content_iff
      using assms(4) h(2) m [of "if s = nx then hole else s"] by (intro exI [of _ "if s = nx then hole else s"]) auto
  qed
  then show "content (moved bs hole nx) = content bs" by auto
  have "{s. occ (moved bs hole nx) s} = insert hole ({s. occ bs s} - {nx})" using m(1) h(2) by auto
  then show "occ_count (moved bs hole nx) = occ_count bs"
    using assms(3,4) by (simp add: occ_count_card card.insert_remove card_Diff_singleton)
      (metis One_nat_def Suc_pred card_gt_0_iff empty_iff finite_occ mem_Collect_eq)
qed

lemma moved_inv:
  assumes inv: "shift_inv bs hole nx" and nx: "occ bs nx" and cut: "way bs nx hole < way bs nx nx"
  shows "shift_inv (moved bs hole nx) nx ((nx + 1) mod length bs)"
proof -
  let ?b = "moved bs hole nx" and ?n = "length bs" and ?x = "(nx + 1) mod length bs"
  note d = shift_invD [OF inv]
  have h: "nx < length bs" "hole \<noteq> nx" "b_occupied (bs ! nx)" using nx d(4) by (auto simp: occ_def)
  note m = moved_slots [OF d(2) h]
  have w: "way ?b s t = way bs (if s = hole then nx else s) t" for s t unfolding way_def m(2) length_moved ..
  have "t = nx \<and> (\<forall>u < ?n. dist ?n ?x u \<le> dist ?n ?x s \<longrightarrow> occ ?b u)"
    if s: "occ ?b s" and t: "t < ?n" "\<not> occ ?b t" "way ?b s t < way ?b s s" for s t
  proof (cases "s = hole")
    case True
    then have w': "way bs nx t < way bs nx hole" using t(3) unfolding w by simp
    then have "t \<noteq> nx" using cut by auto
    then have "\<not> occ bs t" using t(2) m(1) by blast
    moreover have "t \<noteq> hole" using w' by auto
    ultimately have False using d(5) [OF nx t(1)] w' cut by (meson less_trans)
    then show ?thesis ..
  next
    case False
    then have sb: "occ bs s" "s \<noteq> nx" and w': "way bs s t < way bs s s" using s t(3) unfolding m(1) w by auto
    have tn: "t = nx"
      using d(5) [OF sb(1) t(1)] w' t(2) m(1) by blast
    have "occ ?b u" if u: "u < ?n" "dist ?n ?x u \<le> dist ?n ?x s" for u
    proof (rule ccontr)
      assume nu: "\<not> occ ?b u"
      have sn: "s < ?n" using sb(1) by (simp add: occ_def)
      have "u \<noteq> nx"
        using dist_suc_self [OF h(1)] u(2) dist_suc [OF h(1) sn sb(2) [symmetric]] dist_less [OF h(1) sn] by auto
      moreover from this have "u \<noteq> s" "\<not> occ bs u" "u \<noteq> hole" using nu sb(1) m(1) by auto
      moreover from calculation have "way bs s u < way bs s s"
        using way_between [OF h(1) u(1) sn] w' tn u(2) by blast
      ultimately show False using d(5) [OF sb(1) u(1)] by blast
    qed
    then show ?thesis using tn by blast
  qed
  moreover have "\<not> occ ?b nx" using m(1) h(2) by auto
  moreover have "?x < ?n" by (rule mod_less_divisor [OF le_less_trans [OF le0 h(1)]])
  ultimately show ?thesis
    unfolding shift_inv_def length_moved using moved_keys(1) [OF d(1,2) nx d(4)] h(1) by blast
qed

lemma stay_inv:
  assumes inv: "shift_inv bs hole nx" and nx: "occ bs nx" and stay: "\<not> way bs nx hole < way bs nx nx"
  shows "shift_inv bs hole ((nx + 1) mod length bs)"
proof -
  let ?n = "length bs" and ?x = "(nx + 1) mod length bs"
  note d = shift_invD [OF inv]
  have "t = hole \<and> (\<forall>u < ?n. dist ?n ?x u \<le> dist ?n ?x s \<longrightarrow> occ bs u)"
    if s: "occ bs s" and t: "t < ?n" "\<not> occ bs t" "way bs s t < way bs s s" for s t
  proof -
    have th: "t = hole" by (rule d(5) [OF s t])
    have sn: "s < ?n" "s \<noteq> nx" using s t(3) stay th by (auto simp: occ_def)
    have "occ bs u" if u: "u < ?n" "dist ?n ?x u \<le> dist ?n ?x s" for u
    proof (cases "u = nx")
      case False
      then have "dist ?n nx u \<le> dist ?n nx s" using dist_suc [OF d(3)] u sn by simp
      then show ?thesis using d(6) [OF s t u(1)] by blast
    qed (use nx in simp)
    then show ?thesis using th by blast
  qed
  moreover have "?x < ?n" by (rule mod_less_divisor [OF le_less_trans [OF le0 d(3)]])
  ultimately show ?thesis unfolding shift_inv_def using d(1,2,4) by blast
qed

text \<open>
  Termination: a move shortens the way of one entry and leaves the others; otherwise the loop gets
  one step nearer to the hole.
\<close>

definition total_way :: "coins_map_entry list \<Rightarrow> nat" where
  "total_way bs = (\<Sum>s \<in> {s. occ bs s}. way bs s s)"

lemma moved_total_way:
  assumes "hole < length bs" "occ bs nx" "\<not> occ bs hole" "way bs nx hole < way bs nx nx"
  shows "total_way (moved bs hole nx) < total_way bs"
proof -
  let ?b = "moved bs hole nx" and ?S = "{s. occ bs s} - {nx}"
  have h: "nx < length bs" "hole \<noteq> nx" "b_occupied (bs ! nx)" using assms by (auto simp: occ_def)
  note m = moved_slots [OF assms(1) h]
  have w: "way ?b s t = way bs (if s = hole then nx else s) t" for s t unfolding way_def m(2) length_moved ..
  have "{s. occ ?b s} = insert hole ?S" using m(1) h(2) by auto
  moreover have "hole \<notin> ?S" using assms(3) by simp
  ultimately have "total_way ?b = way bs nx hole + (\<Sum>s \<in> ?S. way ?b s s)" by (simp add: total_way_def w)
  also have "(\<Sum>s \<in> ?S. way ?b s s) = (\<Sum>s \<in> ?S. way bs s s)" by (rule sum.cong) (use assms(3) in \<open>auto simp: w\<close>)
  also have "way bs nx hole + (\<Sum>s \<in> ?S. way bs s s) < way bs nx nx + (\<Sum>s \<in> ?S. way bs s s)" using assms(4) by simp
  also have "\<dots> = total_way bs" unfolding total_way_def using assms(2) by (simp add: sum.remove [of _ nx])
  finally show ?thesis .
qed

lemma clear_put [simp]: "nx < length bs \<Longrightarrow> (clear_slot bs nx)[nx := bs ! nx] = bs"
  by (simp add: clear_slot_def)

lemma occ_pos: "occ bs s \<Longrightarrow> 0 < occ_count bs"
  unfolding occ_count_card by (auto simp: card_gt_0_iff)

lemma length_clear_slot [simp]: "length (clear_slot bs s) = length bs"
  by (simp add: clear_slot_def)

lemma put_back_step:
  assumes "shift_inv bs hole nx" "occ bs nx"
  shows "put_back (clear_slot bs nx, occ_count bs - 1) (bs ! nx) =
    (if way bs nx hole < way bs nx nx then moved bs hole nx else bs, occ_count bs)"
  using shift_target [OF assms] occ_pos [OF assms(2)] shift_invD(3) [OF assms(1)]
  by (simp add: put_back_def moved_def)

lemma erase_loop_spec:
  assumes "shift_inv bs hole nx"
  shows "\<exists>bs'. erase_loop bs (occ_count bs) nx = Some (bs', occ_count bs') \<and> keys_distinct bs' \<and> probed bs' \<and>
    content bs' = content bs"
  using assms
proof (induction "(total_way bs, dist (length bs) nx hole)" arbitrary: bs hole nx
    rule: wf_induct_rule [OF wf_lex_prod [OF wf_less_than wf_less_than]])
  case 1
  note inv = shift_invD [OF "1.prems"]
  show ?case
  proof (cases "occ bs nx")
    case True
    then have b: "b_occupied (bs ! nx)" by (simp add: occ_def)
    show ?thesis
    proof (cases "way bs nx hole < way bs nx nx")
      case cut: True
      note mk = moved_keys [OF inv(1,2) True inv(4)]
      have "erase_loop bs (occ_count bs) nx =
          erase_loop (moved bs hole nx) (occ_count (moved bs hole nx)) ((nx + 1) mod length bs)"
        using b put_back_step [OF "1.prems" True] cut mk(3) by (subst erase_loop.simps) simp
      moreover note "1.hyps" [OF _ moved_inv [OF "1.prems" True cut]]
      ultimately show ?thesis using moved_total_way [OF inv(2) True inv(4) cut] mk(2) by simp
    next
      case False
      have "nx \<noteq> hole" using True inv(4) by auto
      then have "dist (length bs) ((nx + 1) mod length bs) hole < dist (length bs) nx hole"
        using dist_suc [OF inv(3,2)] by simp
      moreover have "erase_loop bs (occ_count bs) nx = erase_loop bs (occ_count bs) ((nx + 1) mod length bs)"
        using b put_back_step [OF "1.prems" True] False by (subst erase_loop.simps) simp
      ultimately show ?thesis using "1.hyps" [OF _ stay_inv [OF "1.prems" True False]] by simp
    qed
  next
    case False
    then have "erase_loop bs (occ_count bs) nx = Some (bs, occ_count bs)"
      using inv(3) by (subst erase_loop.simps) (simp add: occ_def)
    moreover have "probed bs" unfolding probed_def
      using inv(6) [of _ _ nx] inv(3) False by (metis dist_self le0)
    ultimately show ?thesis using inv(1) by blast
  qed
qed

subsection \<open>Deletion\<close>

lemma erase_start:
  assumes wf: "keys_distinct bs" "probed bs" and s: "occ bs s" and b: "\<not> b_occupied b" "b_txid b = b_txid (bs ! s)"
  shows "shift_inv (bs[s := b]) s ((s + 1) mod length bs)" "occ_count (bs[s := b]) = occ_count bs - 1"
    "(k, e) \<in> content (bs[s := b]) \<longleftrightarrow> (k, e) \<in> content bs \<and> k \<noteq> b_txid (bs ! s)"
proof -
  let ?b = "bs[s := b]" and ?n = "length bs" and ?x = "(s + 1) mod length bs"
  have sn: "s < ?n" using s by (simp add: occ_def)
  have o: "occ ?b t \<longleftrightarrow> occ bs t \<and> t \<noteq> s" for t using occ_update [OF sn, of b t] b by auto
  have w: "way ?b t u = way bs t u" for t u using b(2) sn by (cases "t = s") (simp_all add: way_def)
  have kd: "keys_distinct ?b" using wf(1) unfolding keys_distinct_def o by (metis nth_list_update_neq)
  have "t = s \<and> (\<forall>u < ?n. dist ?n ?x u \<le> dist ?n ?x r \<longrightarrow> occ ?b u)"
    if r: "occ ?b r" and t: "t < ?n" "\<not> occ ?b t" "way ?b r t < way ?b r r" for r t
  proof -
    have rb: "occ bs r" "r \<noteq> s" "r < ?n" using r o by (auto simp: occ_def)
    have ts: "t = s" using wf(2) rb t unfolding probed_def w o by blast
    have "occ ?b u" if u: "u < ?n" "dist ?n ?x u \<le> dist ?n ?x r" for u
    proof (cases "u = r")
      case False
      have "u \<noteq> s" using dist_suc_self [OF sn] u(2) dist_suc [OF sn rb(3) rb(2) [symmetric]] dist_less [OF sn rb(3)] by auto
      then have "way bs r u < way bs r r" using way_between [OF sn u(1) rb(3)] t(3) ts w u(2) False by simp
      then show ?thesis using wf(2) rb(1) u(1) o \<open>u \<noteq> s\<close> unfolding probed_def by blast
    qed (use r in simp)
    then show ?thesis using ts by blast
  qed
  moreover have "?x < ?n" by (rule mod_less_divisor [OF le_less_trans [OF le0 sn]])
  ultimately show "shift_inv ?b s ?x" unfolding shift_inv_def length_list_update using kd sn o by blast
  have "{t. occ ?b t} = {t. occ bs t} - {s}" using o by auto
  then show "occ_count ?b = occ_count bs - 1" using s by (simp add: occ_count_card)
  show "(k, e) \<in> content ?b \<longleftrightarrow> (k, e) \<in> content bs \<and> k \<noteq> b_txid (bs ! s)"
    unfolding content_iff o using wf(1) s unfolding keys_distinct_def by (metis nth_list_update_neq)
qed

lemma erase_spec:
  assumes wf: "wf_map m"
  shows "\<exists>m'. coins_map_erase m k = Some (m', entries m k \<noteq> None) \<and> wf_map m' \<and> entries m' = (entries m)(k := None)"
proof (cases "coins_map_find m k")
  case None
  then have "entries m k = None" using find_entries [OF wf, of k] by simp
  moreover have "coins_map_erase m k = Some (m, False)"
    using None by (auto simp: coins_map_erase_def coins_map_find_def split: if_splits)
  ultimately show ?thesis using wf by (auto simp: fun_upd_idem)
next
  case (Some s)
  let ?bs = "m_buckets m"
  have kd: "keys_distinct ?bs" "probed ?bs" "m_size m = occ_count ?bs" using wf by (simp_all add: wf_map_def)
  have n: "num_buckets m \<noteq> 0" and f: "find_loop ?bs k (probe (num_buckets m) k) = Some s"
    using Some by (auto simp: coins_map_find_def split: if_splits)
  have s: "occ ?bs s" "b_txid (?bs ! s) = k" using find_iff [OF kd(1,2)] f by blast+
  let ?b = "(?bs ! s)\<lparr>b_entry := (b_entry (?bs ! s))\<lparr>e_coins := coins_free (e_coins (b_entry (?bs ! s)))\<rparr>, b_occupied := False\<rparr>"
  have b: "\<not> b_occupied ?b" "b_txid ?b = b_txid (?bs ! s)" by simp_all
  note st = erase_start [OF kd(1,2) s(1) b]
  obtain bs' where l: "erase_loop (?bs[s := ?b]) (occ_count (?bs[s := ?b])) ((s + 1) mod length ?bs) = Some (bs', occ_count bs')"
      "keys_distinct bs'" "probed bs'" "content bs' = content (?bs[s := ?b])"
    using erase_loop_spec [OF st(1)] by auto
  let ?m = "\<lparr>m_buckets = bs', m_size = occ_count bs'\<rparr>"
  have "coins_map_erase m k = Some (?m, True)"
    using n f l(1) kd(3) st(2) by (simp add: coins_map_erase_def Let_def)
  moreover have "entries m k \<noteq> None" using find_entries [OF wf, of k] Some by simp
  moreover have "wf_map ?m" using l by (simp add: wf_map_def)
  moreover have "entries ?m j = ((entries m)(k := None)) j" for j
    by (rule entries_eqI) (use l st(3) s(2) entries_iff [OF kd(1)] in \<open>auto split: if_splits\<close>)
  ultimately show ?thesis by auto
qed

subsection \<open>Writing through a pointer\<close>

lemma set_entry_spec:
  assumes wf: "wf_map m" and s: "s < num_buckets m" "b_occupied (m_buckets m ! s)"
  shows "wf_map (set_entry m s e)" "entries (set_entry m s e) = (entries m)(b_txid (m_buckets m ! s) \<mapsto> e)"
    "num_buckets (set_entry m s e) = num_buckets m" "entry_at (set_entry m s e) s = e"
proof -
  let ?bs = "m_buckets m" and ?b = "(m_buckets m ! s)\<lparr>b_entry := e\<rparr>"
  have o: "occ (?bs[s := ?b]) t \<longleftrightarrow> occ ?bs t" for t using occ_update [OF s(1)] s by (simp add: occ_def)
  have k: "b_txid (?bs[s := ?b] ! t) = b_txid (?bs ! t)" for t using s(1) by (cases "t = s") simp_all
  have w: "way (?bs[s := ?b]) t u = way ?bs t u" for t u by (simp add: way_def k)
  have kd: "keys_distinct ?bs" "probed ?bs" "m_size m = occ_count ?bs" using wf by (simp_all add: wf_map_def)
  then have kd': "keys_distinct (?bs[s := ?b])" unfolding keys_distinct_def o k by blast
  show wf': "wf_map (set_entry m s e)"
    using kd kd' by (simp add: wf_map_def set_entry_def probed_def occ_count_card o w)
  have "entries (set_entry m s e) j = ((entries m)(b_txid (?bs ! s) \<mapsto> e)) j" for j
  proof (rule entries_eqI)
    show "keys_distinct (m_buckets (set_entry m s e))" using kd' by (simp add: set_entry_def)
    fix v
    have "(j, v) \<in> content (?bs[s := ?b]) \<longleftrightarrow> (if j = b_txid (?bs ! s) then v = e else (j, v) \<in> content ?bs)"
      using s kd(1) unfolding content_iff o k keys_distinct_def occ_def
      by (auto simp: nth_list_update)
    then show "((entries m)(b_txid (?bs ! s) \<mapsto> e)) j = Some v \<longleftrightarrow> (j, v) \<in> content (m_buckets (set_entry m s e))"
      using entries_iff [OF kd(1), of j v] by (auto simp: set_entry_def)
  qed
  then show "entries (set_entry m s e) = (entries m)(b_txid (?bs ! s) \<mapsto> e)" by auto
  show "num_buckets (set_entry m s e) = num_buckets m" "entry_at (set_entry m s e) s = e"
    using s(1) by (simp_all add: set_entry_def entry_at_def)
qed

text \<open>With memory to grow, an insertion always finds a slot.\<close>

lemma insert_succeeds:
  assumes wf: "wf_map m" and mem: "\<forall>n. calloc ''coins_map_buckets'' n"
  shows "\<exists>m' s. coins_map_insert calloc m k = Some (m', Some s)"
proof (cases "coins_map_find m k")
  case (Some s)
  then show ?thesis by (auto simp: coins_map_insert_def coins_map_find_def split: if_splits)
next
  case None
  let ?m = "coins_map_grow calloc m"
  have g: "wf_map ?m" "entries ?m = entries m" using grow_wf [OF wf] by simp_all
  have "occ_count (m_buckets ?m) < num_buckets ?m" using grow_room [of m calloc] wf mem g(1) by (simp add: wf_map_def)
  then obtain f where "free_loop (m_buckets ?m) (probe (num_buckets ?m) k) = Some f"
    using occ_full [of "m_buckets ?m"] free_loop_ex by blast
  moreover have "num_buckets ?m \<noteq> 0" using \<open>occ_count (m_buckets ?m) < num_buckets ?m\<close> by linarith
  ultimately show ?thesis using None by (simp add: coins_map_insert_def Let_def)
qed

section \<open>The table as a finite map\<close>

text \<open>
  The interface a finite map offers: an implementation with an invariant and an abstraction, whose
  operations do to the abstract map what their names say. A sequence of operations then has the same
  effect on both, whatever its length and order.
\<close>

datatype ('k, 'v) map_op = Put 'k 'v | Del 'k

fun spec_ops :: "('k \<rightharpoonup> 'v) \<Rightarrow> ('k, 'v) map_op list \<Rightarrow> 'k \<rightharpoonup> 'v" where
  "spec_ops f [] = f"
| "spec_ops f (Put k v # ops) = spec_ops (f(k \<mapsto> v)) ops"
| "spec_ops f (Del k # ops) = spec_ops (f(k := None)) ops"

fun run_ops :: "('m \<Rightarrow> 'k \<Rightarrow> 'v \<Rightarrow> 'm option) \<Rightarrow> ('m \<Rightarrow> 'k \<Rightarrow> 'm option) \<Rightarrow> 'm \<Rightarrow> ('k, 'v) map_op list \<Rightarrow> 'm option" where
  "run_ops put del m [] = Some m"
| "run_ops put del m (Put k v # ops) = Option.bind (put m k v) (\<lambda>m. run_ops put del m ops)"
| "run_ops put del m (Del k # ops) = Option.bind (del m k) (\<lambda>m. run_ops put del m ops)"

locale finite_map_impl =
  fixes wf :: "'m \<Rightarrow> bool" and amap :: "'m \<Rightarrow> 'k \<rightharpoonup> 'v" and empty :: 'm
    and put :: "'m \<Rightarrow> 'k \<Rightarrow> 'v \<Rightarrow> 'm option" and del :: "'m \<Rightarrow> 'k \<Rightarrow> 'm option" and get :: "'m \<Rightarrow> 'k \<Rightarrow> 'v option"
  assumes wf_empty: "wf empty" and abs_empty: "amap empty k = None"
    and put_law: "wf m \<Longrightarrow> \<exists>m'. put m k v = Some m' \<and> wf m' \<and> amap m' = (amap m)(k \<mapsto> v)"
    and del_law: "wf m \<Longrightarrow> \<exists>m'. del m k = Some m' \<and> wf m' \<and> amap m' = (amap m)(k := None)"
    and get_law: "wf m \<Longrightarrow> get m k = amap m k"
begin

lemma run_simulates:
  "wf m \<Longrightarrow> \<exists>m'. run_ops put del m ops = Some m' \<and> wf m' \<and> amap m' = spec_ops (amap m) ops"
proof (induction ops arbitrary: m)
  case (Cons op ops)
  show ?case
  proof (cases op)
    case (Put k v)
    obtain m' where m': "put m k v = Some m'" "wf m'" "amap m' = (amap m)(k \<mapsto> v)" using put_law [OF Cons.prems] by blast
    obtain m'' where r: "run_ops put del m' ops = Some m''" "wf m''" "amap m'' = spec_ops (amap m') ops"
      using Cons.IH [OF m'(2)] by blast
    have "run_ops put del m (op # ops) = Some m''" using m'(1) r(1) Put by simp
    moreover have "amap m'' = spec_ops (amap m) (op # ops)" unfolding Put r(3) m'(3) by simp
    ultimately show ?thesis using r(2) by blast
  next
    case (Del k)
    obtain m' where m': "del m k = Some m'" "wf m'" "amap m' = (amap m)(k := None)" using del_law [OF Cons.prems] by blast
    obtain m'' where r: "run_ops put del m' ops = Some m''" "wf m''" "amap m'' = spec_ops (amap m') ops"
      using Cons.IH [OF m'(2)] by blast
    have "run_ops put del m (op # ops) = Some m''" using m'(1) r(1) Del by simp
    moreover have "amap m'' = spec_ops (amap m) (op # ops)" unfolding Del r(3) m'(3) by simp
    ultimately show ?thesis using r(2) by blast
  qed
qed simp

lemma run_from_empty: "\<exists>m. run_ops put del empty ops = Some m \<and> wf m \<and> get m = spec_ops (\<lambda>_. None) ops"
proof -
  have "amap empty = (\<lambda>_. None)" using abs_empty by auto
  then obtain m where m: "run_ops put del empty ops = Some m" "wf m" "amap m = spec_ops (\<lambda>_. None) ops"
    using run_simulates [OF wf_empty, of ops] by auto
  moreover have "get m = amap m" using get_law [OF m(2)] by auto
  ultimately show ?thesis by simp
qed

end

text \<open>A caller's assignment through the pointer an insertion returns, deletion, and the entry found.\<close>

definition store_entry :: "calloc \<Rightarrow> coins_map \<Rightarrow> bytes \<Rightarrow> coins_cache_entry \<Rightarrow> coins_map option" where
  "store_entry calloc m txid e =
     (case coins_map_insert calloc m txid of
        Some (m', Some slot) \<Rightarrow> Some (set_entry m' slot e)
      | _ \<Rightarrow> None)"

definition drop_entry :: "coins_map \<Rightarrow> bytes \<Rightarrow> coins_map option" where
  "drop_entry m txid = map_option fst (coins_map_erase m txid)"

definition found_entry :: "coins_map \<Rightarrow> bytes \<Rightarrow> coins_cache_entry option" where
  "found_entry m txid = map_option (entry_at m) (coins_map_find m txid)"

interpretation table: finite_map_impl wf_map entries coins_map_init "store_entry (\<lambda>_ _. True)" drop_entry found_entry
proof unfold_locales
  show "wf_map coins_map_init"
    by (simp add: wf_map_def coins_map_init_def keys_distinct_def probed_def occ_def occ_count_def)
  show "entries coins_map_init k = None" for k by (simp add: entries_def coins_map_init_def)
  fix m k v assume wf: "wf_map m"
  obtain m' s where i: "coins_map_insert (\<lambda>_ _. True) m k = Some (m', Some s)"
    using insert_succeeds [of m "\<lambda>_ _. True" k] wf by blast
  note sp = insert_spec [OF wf i]
  show "\<exists>m'. store_entry (\<lambda>_ _. True) m k v = Some m' \<and> wf_map m' \<and> entries m' = (entries m)(k \<mapsto> v)"
  proof (intro exI conjI)
    show "store_entry (\<lambda>_ _. True) m k v = Some (set_entry m' s v)" using i by (simp add: store_entry_def)
    show "wf_map (set_entry m' s v)" by (rule set_entry_spec(1) [OF sp(1,2,3)])
    show "entries (set_entry m' s v) = (entries m)(k \<mapsto> v)"
      unfolding set_entry_spec(2) [OF sp(1,2,3)] sp(4) unfolding sp(6) by simp
  qed
  show "\<exists>m'. drop_entry m k = Some m' \<and> wf_map m' \<and> entries m' = (entries m)(k := None)"
  proof -
    obtain m' where e: "coins_map_erase m k = Some (m', entries m k \<noteq> None)" "wf_map m'" "entries m' = (entries m)(k := None)"
      using erase_spec [OF wf, of k] by blast
    have "drop_entry m k = Some m'" unfolding drop_entry_def e(1) by simp
    then show ?thesis using e(2,3) by blast
  qed
  show "found_entry m k = entries m k"
    using find_entries [OF wf, of k] by (simp add: found_entry_def entry_at_def [abs_def])
qed

section \<open>Properties\<close>

text \<open>
  C10: the hash table refines a finite map. After any sequence of insertions (with assignment through
  the returned pointer) and erasures from the empty table, with growth whenever the load factor asks
  for it and memory to grow, every lookup finds what the same sequence puts into a finite map.
\<close>

theorem coins_map_refines_map:
  "\<exists>m. run_ops (store_entry (\<lambda>_ _. True)) drop_entry coins_map_init ops = Some m \<and> wf_map m \<and>
       found_entry m = spec_ops (\<lambda>_. None) ops"
  by (rule table.run_from_empty)

text \<open>
  C35: the loop by which \<^verbatim>\<open>coins_map_erase\<close> closes the gap in a probe run ends, on every well-formed
  table, a completely full one included. Its result is well formed, the return value says
  whether the key was present, and exactly that key is gone.
\<close>

theorem erase_terminates:
  assumes "wf_map m"
  shows "\<exists>m'. coins_map_erase m k = Some (m', entries m k \<noteq> None) \<and> wf_map m' \<and> entries m' = (entries m)(k := None)"
  by (rule erase_spec [OF assms])

theorem erase_terminates_witness:
  "\<exists>m'. coins_map_erase \<lparr>m_buckets = [\<lparr>b_txid = replicate 32 1, b_entry = \<lparr>e_coins = coins_init, e_flags = 1\<rparr>, b_occupied = True\<rparr>],
           m_size = 1\<rparr> (replicate 32 1) = Some (m', True) \<and> wf_map m' \<and> entries m' (replicate 32 1) = None"
proof -
  let ?m = "\<lparr>m_buckets = [\<lparr>b_txid = replicate 32 1, b_entry = \<lparr>e_coins = coins_init, e_flags = 1\<rparr>, b_occupied = True\<rparr>], m_size = 1\<rparr>"
  have "wf_map ?m" by (simp add: wf_map_def keys_distinct_def probed_def occ_def occ_count_def)
  moreover have "entries ?m (replicate 32 1) \<noteq> None" by (simp add: entries_def)
  ultimately show ?thesis using erase_terminates [of ?m "replicate 32 1"] by auto
qed

end
