(* ===== verification/Coins_View.thy ===== *)
theory Coins_View
  imports Coins_Map Block
begin

text \<open>
  The UTXO cache over a backing store, its incremental commitment, and the transaction-level updates:
  \<^verbatim>\<open>coins_view_*\<close> of \<^verbatim>\<open>lib/coins\<close>, \<^verbatim>\<open>lib/coins/src/utxo_commitment.c\<close> (the accumulator),
  \<^verbatim>\<open>lib/validation/src/update_coins.c\<close> and \<^verbatim>\<open>disconnect_block\<close> of
  \<^verbatim>\<open>lib/validation/src/connect_block.c\<close>.

  The store behind the vtable is the record \<open>coins_view\<close> of its answers, each hook possibly NULL. A
  function that returns a pointer to a cache entry returns the bucket index. A function that inserts
  into the table has an outer option, as \<open>coins_map_insert\<close>. \<open>calloc label n\<close> is the outcome of the
  allocation with that label, \<open>sha256\<close> the hash of one output, \<open>skip\<close> the global
  \<^verbatim>\<open>g_utxo_commitment_skip\<close>.
\<close>

section \<open>Model\<close>

subsection \<open>The commitment\<close>

record utxo_commitment =
  uc_accumulator :: bytes
  uc_count :: u64

definition hash_utxo :: "hashfun \<Rightarrow> bytes \<Rightarrow> u32 \<Rightarrow> int \<Rightarrow> int \<Rightarrow> bytes" where
  "hash_utxo sha256 txid n v h = sha256 (txid @ enc_u32 n @ enc_u64 (word_of_int v) @ enc_u32 (word_of_int h))"

definition xor32 :: "bytes \<Rightarrow> bytes \<Rightarrow> bytes" where
  "xor32 dst src = map2 (XOR) dst src"

definition utxo_commitment_init :: utxo_commitment where
  "utxo_commitment_init = \<lparr>uc_accumulator = replicate 32 0, uc_count = 0\<rparr>"

definition utxo_commitment_add ::
  "hashfun \<Rightarrow> bool \<Rightarrow> utxo_commitment \<Rightarrow> bytes \<Rightarrow> u32 \<Rightarrow> int \<Rightarrow> int \<Rightarrow> utxo_commitment" where
  "utxo_commitment_add sha256 skip uc txid n v h =
     (if skip then uc
      else \<lparr>uc_accumulator = xor32 (uc_accumulator uc) (hash_utxo sha256 txid n v h),
            uc_count = uc_count uc + 1\<rparr>)"

definition utxo_commitment_remove ::
  "hashfun \<Rightarrow> bool \<Rightarrow> utxo_commitment \<Rightarrow> bytes \<Rightarrow> u32 \<Rightarrow> int \<Rightarrow> int \<Rightarrow> utxo_commitment" where
  "utxo_commitment_remove sha256 skip uc txid n v h =
     (if skip then uc
      else \<lparr>uc_accumulator = xor32 (uc_accumulator uc) (hash_utxo sha256 txid n v h),
            uc_count = (if uc_count uc > 0 then uc_count uc - 1 else uc_count uc)\<rparr>)"

definition utxo_commitment_merge :: "utxo_commitment \<Rightarrow> utxo_commitment \<Rightarrow> utxo_commitment" where
  "utxo_commitment_merge dst src =
     \<lparr>uc_accumulator = xor32 (uc_accumulator dst) (uc_accumulator src), uc_count = uc_count dst + uc_count src\<rparr>"

definition utxo_commitment_serialize :: "utxo_commitment \<Rightarrow> bytes" where
  "utxo_commitment_serialize uc = uc_accumulator uc @ map (\<lambda>i. ucast (drop_bit (8 * i) (uc_count uc))) [0..<8]"

definition utxo_commitment_deserialize :: "bytes \<Rightarrow> utxo_commitment option" where
  "utxo_commitment_deserialize buf =
     (if length buf < 40 then None
      else Some \<lparr>uc_accumulator = take 32 buf,
                 uc_count = foldl (\<lambda>c i. c OR push_bit (8 * i) (ucast (buf ! (32 + i)))) 0 [0..<8]\<rparr>)"

definition utxo_commitment_equal :: "utxo_commitment \<Rightarrow> utxo_commitment \<Rightarrow> bool" where
  "utxo_commitment_equal a b \<longleftrightarrow> uc_count a = uc_count b \<and> uc_accumulator a = uc_accumulator b"

subsection \<open>The cache\<close>

record coins_view =
  cv_get_coins :: "(bytes \<Rightarrow> coins option) option"
  cv_have_coins :: "(bytes \<Rightarrow> bool) option"
  cv_get_best_block :: "bytes option option"

definition coins_view_get_coins :: "coins_view \<Rightarrow> bytes \<Rightarrow> coins option" where
  "coins_view_get_coins cv txid = (case cv_get_coins cv of None \<Rightarrow> None | Some get \<Rightarrow> get txid)"

definition coins_view_have_coins :: "coins_view \<Rightarrow> bytes \<Rightarrow> bool" where
  "coins_view_have_coins cv txid = (case cv_have_coins cv of None \<Rightarrow> False | Some have \<Rightarrow> have txid)"

definition coins_view_get_best_block :: "coins_view \<Rightarrow> bytes option" where
  "coins_view_get_best_block cv = (case cv_get_best_block cv of None \<Rightarrow> None | Some h \<Rightarrow> h)"

record coins_view_cache =
  cc_base :: coins_view
  cc_coins :: coins_map
  cc_hash_block :: bytes
  cc_usage :: nat
  cc_commitment :: utxo_commitment

definition coins_view_cache_init :: "coins_view \<Rightarrow> coins_view_cache" where
  "coins_view_cache_init backing = \<lparr>cc_base = backing, cc_coins = coins_map_init,
     cc_hash_block = replicate 32 0, cc_usage = 0, cc_commitment = utxo_commitment_init\<rparr>"

definition coins_view_cache_free :: "coins_view_cache \<Rightarrow> coins_view_cache" where
  "coins_view_cache_free c = c\<lparr>cc_coins := coins_map_free (cc_coins c)\<rparr>"

definition put_coins :: "coins_view_cache \<Rightarrow> nat \<Rightarrow> coins \<Rightarrow> coins_view_cache" where
  "put_coins c slot co =
     c\<lparr>cc_coins := set_entry (cc_coins c) slot ((entry_at (cc_coins c) slot)\<lparr>e_coins := co\<rparr>)\<rparr>"

definition or_flags :: "coins_view_cache \<Rightarrow> nat \<Rightarrow> u8 \<Rightarrow> coins_view_cache" where
  "or_flags c slot fl =
     (let e = entry_at (cc_coins c) slot
      in c\<lparr>cc_coins := set_entry (cc_coins c) slot (e\<lparr>e_flags := e_flags e OR fl\<rparr>)\<rparr>)"

text \<open>Insertion into the cache's table; the inner option is the pointer.\<close>

definition cache_insert :: "calloc \<Rightarrow> coins_view_cache \<Rightarrow> bytes \<Rightarrow> (coins_view_cache \<times> nat option) option" where
  "cache_insert calloc c txid =
     map_option (\<lambda>(m, slot). (c\<lparr>cc_coins := m\<rparr>, slot)) (coins_map_insert calloc (cc_coins c) txid)"

definition coins_view_cache_get_coins ::
  "calloc \<Rightarrow> coins_view_cache \<Rightarrow> bytes \<Rightarrow> (coins_view_cache \<times> coins option) option" where
  "coins_view_cache_get_coins calloc c txid =
     (case coins_map_find (cc_coins c) txid of
        Some slot \<Rightarrow>
          (let co = e_coins (entry_at (cc_coins c) slot)
           in Some (c, if coins_is_pruned (Some co) then None else Some (coins_copy calloc co)))
      | None \<Rightarrow>
          (case coins_view_get_coins (cc_base c) txid of
             None \<Rightarrow> Some (c, None)
           | Some fetched \<Rightarrow>
               (case cache_insert calloc c txid of
                  None \<Rightarrow> None
                | Some (c1, None) \<Rightarrow> Some (c1, None)
                | Some (c1, Some slot) \<Rightarrow>
                    Some (put_coins c1 slot fetched,
                          if coins_is_pruned (Some fetched) then None else Some (coins_copy calloc fetched)))))"

definition coins_view_cache_have_coins :: "coins_view_cache \<Rightarrow> bytes \<Rightarrow> bool" where
  "coins_view_cache_have_coins c txid =
     (case coins_map_find (cc_coins c) txid of
        Some slot \<Rightarrow> \<not> coins_is_pruned (Some (e_coins (entry_at (cc_coins c) slot)))
      | None \<Rightarrow> coins_view_get_coins (cc_base c) txid \<noteq> None)"

definition coins_view_cache_get_best_block :: "coins_view_cache \<Rightarrow> coins_view_cache \<times> bytes" where
  "coins_view_cache_get_best_block c =
     (let c1 = (if uint256_is_null (cc_hash_block c)
                then (case coins_view_get_best_block (cc_base c) of None \<Rightarrow> c | Some h \<Rightarrow> c\<lparr>cc_hash_block := h\<rparr>)
                else c)
      in (c1, cc_hash_block c1))"

definition coins_view_cache_set_best_block :: "coins_view_cache \<Rightarrow> bytes \<Rightarrow> coins_view_cache" where
  "coins_view_cache_set_best_block c h = c\<lparr>cc_hash_block := h\<rparr>"

definition coins_view_cache_modify ::
  "calloc \<Rightarrow> coins_view_cache \<Rightarrow> bytes \<Rightarrow> (coins_view_cache \<times> nat option) option" where
  "coins_view_cache_modify calloc c txid =
     (case coins_map_find (cc_coins c) txid of
        Some slot \<Rightarrow> Some (or_flags c slot COINS_CACHE_DIRTY, Some slot)
      | None \<Rightarrow>
          (case cache_insert calloc c txid of
             None \<Rightarrow> None
           | Some (c1, None) \<Rightarrow> Some (c1, None)
           | Some (c1, Some slot) \<Rightarrow>
               (let c2 = (case coins_view_get_coins (cc_base c1) txid of None \<Rightarrow> c1 | Some co \<Rightarrow> put_coins c1 slot co)
                in Some (or_flags c2 slot COINS_CACHE_DIRTY, Some slot))))"

definition coins_view_cache_modify_new ::
  "calloc \<Rightarrow> coins_view_cache \<Rightarrow> bytes \<Rightarrow> (coins_view_cache \<times> nat option) option" where
  "coins_view_cache_modify_new calloc c txid =
     (case cache_insert calloc c txid of
        None \<Rightarrow> None
      | Some (c1, None) \<Rightarrow> Some (c1, None)
      | Some (c1, Some slot) \<Rightarrow> Some (or_flags c1 slot (COINS_CACHE_DIRTY OR COINS_CACHE_FRESH), Some slot))"

text \<open>
  \<^verbatim>\<open>cvc_batch_write\<close>: the dirty entries of the child's buckets move into the parent, in bucket order;
  the result has the parent and the child's buckets, whose moved coins are reset.
\<close>

fun batch_loop ::
  "calloc \<Rightarrow> coins_view_cache \<Rightarrow> coins_map_entry list \<Rightarrow> (coins_view_cache \<times> coins_map_entry list \<times> bool) option" where
  "batch_loop calloc parent [] = Some (parent, [], True)"
| "batch_loop calloc parent (b # bs) =
     (if \<not> b_occupied b \<or> e_flags (b_entry b) AND COINS_CACHE_DIRTY = 0 then
        map_option (\<lambda>(p, bs', ok). (p, b # bs', ok)) (batch_loop calloc parent bs)
      else
        (case cache_insert calloc parent (b_txid b) of
           None \<Rightarrow> None
         | Some (p1, None) \<Rightarrow> Some (p1, b # bs, False)
         | Some (p1, Some slot) \<Rightarrow>
             (let p2 = or_flags (put_coins p1 slot (e_coins (b_entry b))) slot COINS_CACHE_DIRTY
              in map_option (\<lambda>(p, bs', ok). (p, b\<lparr>b_entry := (b_entry b)\<lparr>e_coins := coins_init\<rparr>\<rparr> # bs', ok))
                   (batch_loop calloc p2 bs))))"

definition cvc_batch_write ::
  "calloc \<Rightarrow> coins_view_cache \<Rightarrow> coins_map \<Rightarrow> bytes \<Rightarrow> (coins_view_cache \<times> coins_map \<times> bool) option" where
  "cvc_batch_write calloc parent m hash_block =
     map_option (\<lambda>(p, bs, ok).
         (if ok \<and> \<not> uint256_is_null hash_block then p\<lparr>cc_hash_block := hash_block\<rparr> else p,
          m\<lparr>m_buckets := bs\<rparr>, ok))
       (batch_loop calloc parent (m_buckets m))"

text \<open>The flush into a parent that is itself a cache; the parent also absorbs the commitment.\<close>

definition coins_view_cache_flush_for_testing ::
  "calloc \<Rightarrow> coins_view_cache \<Rightarrow> coins_view_cache \<Rightarrow> (coins_view_cache \<times> coins_view_cache \<times> bool) option" where
  "coins_view_cache_flush_for_testing calloc c parent =
     map_option (\<lambda>(p, m, ok).
         if ok then (c\<lparr>cc_coins := coins_map_init, cc_commitment := utxo_commitment_init\<rparr>,
                     p\<lparr>cc_commitment := utxo_commitment_merge (cc_commitment p) (cc_commitment c)\<rparr>, True)
         else (c\<lparr>cc_coins := m\<rparr>, p, False))
       (cvc_batch_write calloc parent (cc_coins c) (cc_hash_block c))"

definition coins_view_cache_clear :: "coins_view_cache \<Rightarrow> coins_view_cache" where
  "coins_view_cache_clear c = c\<lparr>cc_coins := coins_map_init, cc_commitment := utxo_commitment_init\<rparr>"

text \<open>The outputs of one record, from index \<open>i\<close> on, added to a commitment.\<close>

fun commit_outs ::
  "hashfun \<Rightarrow> bool \<Rightarrow> bytes \<Rightarrow> int \<Rightarrow> nat \<Rightarrow> tx_out list \<Rightarrow> utxo_commitment \<Rightarrow> utxo_commitment" where
  "commit_outs sha256 skip txid h i [] uc = uc"
| "commit_outs sha256 skip txid h i (out # outs) uc =
     commit_outs sha256 skip txid h (Suc i) outs
       (if tx_out_is_null out then uc else utxo_commitment_add sha256 skip uc txid (of_nat i) (out_value out) h)"

definition commit_bucket :: "hashfun \<Rightarrow> bool \<Rightarrow> utxo_commitment \<Rightarrow> coins_map_entry \<Rightarrow> utxo_commitment" where
  "commit_bucket sha256 skip uc b =
     (if \<not> b_occupied b then uc
      else
        (let co = e_coins (b_entry b)
         in if coins_is_pruned (Some co) then uc
            else commit_outs sha256 skip (b_txid b) (c_height co) 0 (c_vout co) uc))"

definition coins_view_cache_recompute_commitment :: "hashfun \<Rightarrow> bool \<Rightarrow> coins_view_cache \<Rightarrow> utxo_commitment" where
  "coins_view_cache_recompute_commitment sha256 skip c =
     foldl (commit_bucket sha256 skip) utxo_commitment_init (m_buckets (cc_coins c))"

definition coins_view_cache_get_output_for ::
  "calloc \<Rightarrow> coins_view_cache \<Rightarrow> tx_in \<Rightarrow> (coins_view_cache \<times> tx_out option) option" where
  "coins_view_cache_get_output_for calloc c inp =
     (let txid = op_hash (prevout inp); n = unat (op_n (prevout inp));
          look = (\<lambda>co. if n \<ge> length (c_vout co) then None
                       else if tx_out_is_null (c_vout co ! n) then None else Some (c_vout co ! n))
      in case coins_map_find (cc_coins c) txid of
           Some slot \<Rightarrow> Some (c, look (e_coins (entry_at (cc_coins c) slot)))
         | None \<Rightarrow>
             (case coins_view_get_coins (cc_base c) txid of
                None \<Rightarrow> Some (c, None)
              | Some co \<Rightarrow>
                  (case cache_insert calloc c txid of
                     None \<Rightarrow> None
                   | Some (c1, None) \<Rightarrow> Some (c1, None)
                   | Some (c1, Some slot) \<Rightarrow>
                       Some (c1\<lparr>cc_coins := set_entry (cc_coins c1) slot \<lparr>e_coins = co, e_flags = 0\<rparr>\<rparr>, look co))))"

fun have_inputs_loop :: "calloc \<Rightarrow> coins_view_cache \<Rightarrow> tx_in list \<Rightarrow> (coins_view_cache \<times> bool) option" where
  "have_inputs_loop calloc c [] = Some (c, True)"
| "have_inputs_loop calloc c (i # is) =
     (case coins_view_cache_get_output_for calloc c i of
        None \<Rightarrow> None
      | Some (c1, None) \<Rightarrow> Some (c1, False)
      | Some (c1, Some _) \<Rightarrow> have_inputs_loop calloc c1 is)"

definition coins_view_cache_have_inputs ::
  "calloc \<Rightarrow> coins_view_cache \<Rightarrow> transaction \<Rightarrow> (coins_view_cache \<times> bool) option" where
  "coins_view_cache_have_inputs calloc c tx =
     (if transaction_is_coinbase tx then Some (c, True) else have_inputs_loop calloc c (vin tx))"

text \<open>The running total of the inputs; \<open>None\<close> in the second component is the value -1.\<close>

fun value_in_loop :: "calloc \<Rightarrow> coins_view_cache \<Rightarrow> int \<Rightarrow> tx_in list \<Rightarrow> (coins_view_cache \<times> int option) option" where
  "value_in_loop calloc c acc [] = Some (c, Some acc)"
| "value_in_loop calloc c acc (i # is) =
     (case coins_view_cache_get_output_for calloc c i of
        None \<Rightarrow> None
      | Some (c1, None) \<Rightarrow> Some (c1, None)
      | Some (c1, Some out) \<Rightarrow>
          if \<not> MoneyRange (out_value out) then Some (c1, None)
          else (case ck64 (acc + out_value out) of
                  None \<Rightarrow> None
                | Some acc' \<Rightarrow> if \<not> MoneyRange acc' then Some (c1, None) else value_in_loop calloc c1 acc' is))"

text \<open>The amounts added after the inputs, each followed by a range check on the total only.\<close>

fun add_range :: "int \<Rightarrow> int list \<Rightarrow> int option option" where
  "add_range acc [] = Some (Some acc)"
| "add_range acc (v # vs) =
     (case ck64 (acc + v) of
        None \<Rightarrow> None
      | Some acc' \<Rightarrow> if \<not> MoneyRange acc' then Some None else add_range acc' vs)"

definition coins_view_cache_get_value_in ::
  "calloc \<Rightarrow> coins_view_cache \<Rightarrow> transaction \<Rightarrow> (coins_view_cache \<times> int) option" where
  "coins_view_cache_get_value_in calloc c tx =
     (if transaction_is_coinbase tx then Some (c, 0)
      else
        do { (c1, r) \<leftarrow> value_in_loop calloc c 0 (vin tx);
             case r of
               None \<Rightarrow> Some (c1, -1)
             | Some acc \<Rightarrow>
                 do { t \<leftarrow> add_range acc ((if value_balance tx \<ge> 0 then [value_balance tx] else []) @
                                          map vpub_new (v_joinsplit tx));
                      Some (c1, case t of None \<Rightarrow> -1 | Some v \<Rightarrow> v) } })"

definition coins_view_cache_have_joinsplit_requirements :: "coins_view_cache \<Rightarrow> transaction \<Rightarrow> bool" where
  "coins_view_cache_have_joinsplit_requirements c tx = True"

subsection \<open>Connecting a transaction\<close>

text \<open>
  One round of the input loop of \<^verbatim>\<open>update_coins_with_undo\<close>. The new length \<^verbatim>\<open>nPos + 1\<close> is computed in
  32 bits; a request for no memory, after it has wrapped to zero, has no defined outcome. The result
  carries the undo record and the return value.
\<close>

definition grow_vout :: "calloc \<Rightarrow> string \<Rightarrow> coins \<Rightarrow> u32 \<Rightarrow> coins option option" where
  "grow_vout calloc label co n =
     (if unat n \<ge> length (c_vout co) then
        (let new_size = unat (n + 1)
         in if new_size = 0 then None
            else if \<not> calloc label new_size then Some None
            else Some (Some (co\<lparr>c_vout := c_vout co @ replicate (new_size - length (c_vout co)) tx_out_set_null\<rparr>)))
      else Some (Some co))"

definition spend_input ::
  "hashfun \<Rightarrow> bool \<Rightarrow> calloc \<Rightarrow> coins_view_cache \<Rightarrow> tx_in \<Rightarrow> tx_in_undo \<Rightarrow> (coins_view_cache \<times> tx_in_undo \<times> bool) option" where
  "spend_input sha256 skip calloc inputs i undo =
     (let txid = op_hash (prevout i); nPos = op_n (prevout i)
      in case coins_view_cache_modify calloc inputs txid of
           None \<Rightarrow> None
         | Some (c1, None) \<Rightarrow> Some (c1, undo, False)
         | Some (c1, Some slot) \<Rightarrow>
             (case grow_vout calloc ''coins_vout_grow'' (e_coins (entry_at (cc_coins c1) slot)) nPos of
                None \<Rightarrow> None
              | Some None \<Rightarrow> Some (c1, undo, False)
              | Some (Some co) \<Rightarrow>
                  (let c2 = put_coins c1 slot co; out = c_vout co ! unat nPos
                   in if tx_out_is_null out then Some (c2, undo, False)
                      else if \<not> MoneyRange (out_value out) then Some (c2, undo, False)
                      else
                        (let c3 = c2\<lparr>cc_commitment := utxo_commitment_remove sha256 skip (cc_commitment c2) txid nPos
                                                          (out_value out) (c_height co)\<rparr>
                         in case coins_math_capture_undo (Some co) nPos (Some undo) of
                              Inl _ \<Rightarrow> Some (c3, undo, False)
                            | Inr (co', undo') \<Rightarrow> Some (put_coins c3 slot co', undo', True)))))"

fun spend_inputs ::
  "hashfun \<Rightarrow> bool \<Rightarrow> calloc \<Rightarrow> coins_view_cache \<Rightarrow> tx_in list \<Rightarrow> tx_undo \<Rightarrow> (coins_view_cache \<times> tx_undo \<times> bool) option" where
  "spend_inputs sha256 skip calloc c (i # is) (u # us) =
     (case spend_input sha256 skip calloc c i u of
        None \<Rightarrow> None
      | Some (c1, u1, ok) \<Rightarrow>
          if \<not> ok then Some (c1, u1 # us, False)
          else map_option (\<lambda>(c2, us2, ok2). (c2, u1 # us2, ok2)) (spend_inputs sha256 skip calloc c1 is us))"
| "spend_inputs sha256 skip calloc c is us = Some (c, us, True)"

text \<open>The loop over the new outputs: range check and commitment.\<close>

fun commit_new ::
  "hashfun \<Rightarrow> bool \<Rightarrow> bytes \<Rightarrow> int \<Rightarrow> nat \<Rightarrow> tx_out list \<Rightarrow> utxo_commitment \<Rightarrow> utxo_commitment \<times> bool" where
  "commit_new sha256 skip txid h i [] uc = (uc, True)"
| "commit_new sha256 skip txid h i (out # outs) uc =
     (if tx_out_is_null out then commit_new sha256 skip txid h (Suc i) outs uc
      else if \<not> MoneyRange (out_value out) then (uc, False)
      else commit_new sha256 skip txid h (Suc i) outs
             (utxo_commitment_add sha256 skip uc txid (of_nat i) (out_value out) h))"

definition create_outputs ::
  "hashfun \<Rightarrow> bool \<Rightarrow> calloc \<Rightarrow> coins_view_cache \<Rightarrow> transaction \<Rightarrow> int \<Rightarrow> (coins_view_cache \<times> bool) option" where
  "create_outputs sha256 skip calloc c tx nHeight =
     (case coins_view_cache_modify_new calloc c (tx_hash tx) of
        None \<Rightarrow> None
      | Some (c1, None) \<Rightarrow> Some (c1, False)
      | Some (c1, Some slot) \<Rightarrow>
          (case coins_from_transaction calloc (e_coins (entry_at (cc_coins c1) slot)) tx nHeight of
             (co, ok) \<Rightarrow>
               let c2 = put_coins c1 slot co
               in if \<not> ok then Some (c2, False)
                  else
                    (case commit_new sha256 skip (tx_hash tx) nHeight 0 (c_vout co) (cc_commitment c2) of
                       (uc, ok2) \<Rightarrow> Some (c2\<lparr>cc_commitment := uc\<rparr>, ok2))))"

definition update_coins_with_undo ::
  "hashfun \<Rightarrow> bool \<Rightarrow> calloc \<Rightarrow> transaction \<Rightarrow> coins_view_cache \<Rightarrow> tx_undo \<Rightarrow> int \<Rightarrow>
   (coins_view_cache \<times> tx_undo \<times> bool) option" where
  "update_coins_with_undo sha256 skip calloc tx inputs txundo nHeight =
     (if \<not> transaction_is_coinbase tx then
        (case tx_undo_alloc calloc (length (vin tx)) of
           None \<Rightarrow> Some (inputs, txundo, False)
         | Some us \<Rightarrow>
             (case spend_inputs sha256 skip calloc inputs (vin tx) us of
                None \<Rightarrow> None
              | Some (c1, us1, ok) \<Rightarrow>
                  if \<not> ok then Some (c1, us1, False)
                  else map_option (\<lambda>(c2, ok2). (c2, us1, ok2)) (create_outputs sha256 skip calloc c1 tx nHeight)))
      else map_option (\<lambda>(c2, ok2). (c2, txundo, ok2)) (create_outputs sha256 skip calloc inputs tx nHeight))"

definition update_coins :: "hashfun \<Rightarrow> bool \<Rightarrow> calloc \<Rightarrow> transaction \<Rightarrow> coins_view_cache \<Rightarrow> int \<Rightarrow> coins_view_cache option" where
  "update_coins sha256 skip calloc tx inputs nHeight =
     map_option fst (update_coins_with_undo sha256 skip calloc tx inputs tx_undo_init nHeight)"

text \<open>
  The part of the transaction loop of \<^verbatim>\<open>connect_block\<close> that updates the UTXO set. The undo records of
  the first transaction go to a dummy; the others are the block's undo data.
\<close>

fun connect_txs ::
  "hashfun \<Rightarrow> bool \<Rightarrow> calloc \<Rightarrow> coins_view_cache \<Rightarrow> transaction list \<Rightarrow> int \<Rightarrow> (coins_view_cache \<times> tx_undo list \<times> bool) option" where
  "connect_txs sha256 skip calloc view [] nHeight = Some (view, [], True)"
| "connect_txs sha256 skip calloc view (tx # txs) nHeight =
     (case update_coins_with_undo sha256 skip calloc tx view tx_undo_init nHeight of
        None \<Rightarrow> None
      | Some (c1, us, ok) \<Rightarrow>
          if \<not> ok then Some (c1, [us], False)
          else map_option (\<lambda>(c2, uss, ok2). (c2, us # uss, ok2)) (connect_txs sha256 skip calloc c1 txs nHeight))"

subsection \<open>Disconnecting a block\<close>

definition restore_input ::
  "calloc \<Rightarrow> coins_view_cache \<Rightarrow> tx_in \<Rightarrow> tx_in_undo \<Rightarrow> (coins_view_cache \<times> bool) option" where
  "restore_input calloc view i undo =
     (let txid = op_hash (prevout i); n = op_n (prevout i)
      in case coins_view_cache_modify calloc view txid of
           None \<Rightarrow> None
         | Some (c1, None) \<Rightarrow> Some (c1, False)
         | Some (c1, Some slot) \<Rightarrow>
             (let co = e_coins (entry_at (cc_coins c1) slot)
              in if unat n \<ge> length (c_vout co) \<and> unat n \<ge> MAX_BLOCK_SIZE then Some (c1, False)
                 else case grow_vout calloc ''disconnect_vout'' co n of
                        None \<Rightarrow> None
                      | Some None \<Rightarrow> Some (c1, False)
                      | Some (Some co1) \<Rightarrow>
                          (let co2 = (if u_height undo > 0
                                      then co1\<lparr>c_is_coinbase := u_coinbase undo, c_height := sint (u_height undo),
                                               c_version := u_version undo\<rparr>
                                      else co1);
                               co3 = co2\<lparr>c_vout := (c_vout co2)[unat n := u_txout undo]\<rparr>
                           in Some (or_flags (put_coins c1 slot co3) slot COINS_CACHE_DIRTY, True))))"

fun restore_inputs :: "calloc \<Rightarrow> coins_view_cache \<Rightarrow> (tx_in \<times> tx_in_undo) list \<Rightarrow> (coins_view_cache \<times> bool) option" where
  "restore_inputs calloc view [] = Some (view, True)"
| "restore_inputs calloc view ((i, u) # ius) =
     (case restore_input calloc view i u of
        None \<Rightarrow> None
      | Some (c1, ok) \<Rightarrow> if \<not> ok then Some (c1, False) else restore_inputs calloc c1 ius)"

definition ghost_outputs :: "calloc \<Rightarrow> coins_view_cache \<Rightarrow> transaction \<Rightarrow> coins_view_cache option" where
  "ghost_outputs calloc view tx =
     (case coins_view_cache_modify calloc view (tx_hash tx) of
        None \<Rightarrow> None
      | Some (c1, None) \<Rightarrow> Some c1
      | Some (c1, Some slot) \<Rightarrow> Some (or_flags (put_coins c1 slot coins_init) slot COINS_CACHE_DIRTY))"

text \<open>One transaction, with its undo records unless it is the first of the block.\<close>

definition disconnect_tx ::
  "calloc \<Rightarrow> coins_view_cache \<Rightarrow> transaction \<Rightarrow> tx_undo option \<Rightarrow> (coins_view_cache \<times> bool) option" where
  "disconnect_tx calloc view tx txundo =
     (case (case txundo of
              None \<Rightarrow> Some (view, True)
            | Some us \<Rightarrow> if length us \<noteq> length (vin tx) then Some (view, False)
                         else restore_inputs calloc view (rev (zip (vin tx) us))) of
        None \<Rightarrow> None
      | Some (c1, ok) \<Rightarrow>
          if \<not> ok then Some (c1, False)
          else map_option (\<lambda>c2. (c2, True)) (ghost_outputs calloc c1 tx))"

fun disconnect_txs ::
  "calloc \<Rightarrow> coins_view_cache \<Rightarrow> (transaction \<times> tx_undo option) list \<Rightarrow> (coins_view_cache \<times> bool) option" where
  "disconnect_txs calloc view [] = Some (view, True)"
| "disconnect_txs calloc view ((tx, us) # rest) =
     (case disconnect_tx calloc view tx us of
        None \<Rightarrow> None
      | Some (c1, ok) \<Rightarrow> if \<not> ok then Some (c1, False) else disconnect_txs calloc c1 rest)"

definition disconnect_block ::
  "calloc \<Rightarrow> transaction list \<Rightarrow> bytes option \<Rightarrow> coins_view_cache \<Rightarrow> block_undo \<Rightarrow> (coins_view_cache \<times> bool) option" where
  "disconnect_block calloc txs prev_hash view blockundo =
     (if txs = [] \<or> length (vtxundo blockundo) \<noteq> length txs - 1 then Some (view, False)
      else
        (case disconnect_txs calloc view (rev (zip txs (None # map Some (vtxundo blockundo)))) of
           None \<Rightarrow> None
         | Some (c1, ok) \<Rightarrow>
             if \<not> ok then Some (c1, False)
             else Some (case prev_hash of None \<Rightarrow> c1 | Some h \<Rightarrow> coins_view_cache_set_best_block c1 h, True)))"

section \<open>The coins a cache presents\<close>

definition wf_cache :: "coins_view_cache \<Rightarrow> bool" where
  "wf_cache c \<longleftrightarrow> wf_map (cc_coins c)"

definition view_coins :: "coins_view_cache \<Rightarrow> bytes \<Rightarrow> coins option" where
  "view_coins c k = (case entries (cc_coins c) k of Some e \<Rightarrow> Some (e_coins e) | None \<Rightarrow> coins_view_get_coins (cc_base c) k)"

text \<open>The record of a transaction, empty if there is none.\<close>

definition coin_at :: "coins_view_cache \<Rightarrow> bytes \<Rightarrow> coins" where
  "coin_at c k = (case view_coins c k of None \<Rightarrow> coins_init | Some co \<Rightarrow> co)"

text \<open>Slot \<open>s\<close> of the table holds the entry of \<open>k\<close>.\<close>

definition holds :: "coins_view_cache \<Rightarrow> nat \<Rightarrow> bytes \<Rightarrow> bool" where
  "holds c s k \<longleftrightarrow> s < num_buckets (cc_coins c) \<and> b_occupied (m_buckets (cc_coins c) ! s) \<and>
     b_txid (m_buckets (cc_coins c) ! s) = k"

lemma holds_entries:
  assumes "wf_cache c" "holds c s k"
  shows "entries (cc_coins c) k = Some (entry_at (cc_coins c) s)"
proof -
  have "coins_map_find (cc_coins c) k = Some s"
    using assms find_iff [of "m_buckets (cc_coins c)" k s] unfolding wf_cache_def wf_map_def holds_def coins_map_find_def occ_def
    by auto
  then show ?thesis using find_entries [of "cc_coins c" k] assms by (simp add: wf_cache_def entry_at_def)
qed

lemma holds_coin: "wf_cache c \<Longrightarrow> holds c s k \<Longrightarrow> coin_at c k = e_coins (entry_at (cc_coins c) s)"
  by (simp add: coin_at_def view_coins_def holds_entries)

lemma find_cases:
  assumes "wf_cache c"
  shows "coins_map_find (cc_coins c) k = Some s \<Longrightarrow> holds c s k"
    and "coins_map_find (cc_coins c) k = None \<Longrightarrow> entries (cc_coins c) k = None"
proof -
  show "holds c s k" if "coins_map_find (cc_coins c) k = Some s"
    using that assms find_iff [of "m_buckets (cc_coins c)" k s]
    unfolding wf_cache_def wf_map_def holds_def coins_map_find_def occ_def by (auto split: if_splits)
  show "entries (cc_coins c) k = None" if "coins_map_find (cc_coins c) k = None"
    using that find_entries [of "cc_coins c" k] assms by (simp add: wf_cache_def)
qed

text \<open>Writing an entry in place.\<close>

lemma set_entry_cache:
  fixes e :: coins_cache_entry
  assumes wf: "wf_cache c" and h: "holds c s k"
  defines "c' \<equiv> c\<lparr>cc_coins := set_entry (cc_coins c) s e\<rparr>"
  shows "wf_cache c'" "holds c' s k" "coin_at c' = (coin_at c)(k := e_coins e)" "entry_at (cc_coins c') s = e"
    "dom (entries (cc_coins c')) = dom (entries (cc_coins c))" "cc_base c' = cc_base c"
proof -
  have s: "s < num_buckets (cc_coins c)" "b_occupied (m_buckets (cc_coins c) ! s)" "b_txid (m_buckets (cc_coins c) ! s) = k"
    using h by (simp_all add: holds_def)
  note sp = set_entry_spec [OF wf [unfolded wf_cache_def] s(1,2), of e, unfolded s(3)]
  show "wf_cache c'" using sp(1) by (simp add: wf_cache_def c'_def)
  show "holds c' s k" using s by (simp add: holds_def c'_def set_entry_def)
  show "coin_at c' = (coin_at c)(k := e_coins e)"
    by (rule ext) (simp add: coin_at_def view_coins_def c'_def sp(2) cong: option.case_cong)
  show "entry_at (cc_coins c') s = e" using sp(4) by (simp add: c'_def)
  show "dom (entries (cc_coins c')) = dom (entries (cc_coins c))"
    using sp(2) holds_entries [OF wf h] by (auto simp: c'_def)
  show "cc_base c' = cc_base c" by (simp add: c'_def)
qed

lemma put_coins_spec:
  assumes "wf_cache c" "holds c s k"
  shows "wf_cache (put_coins c s co)" "holds (put_coins c s co) s k" "coin_at (put_coins c s co) = (coin_at c)(k := co)"
    "dom (entries (cc_coins (put_coins c s co))) = dom (entries (cc_coins c))" "cc_base (put_coins c s co) = cc_base c"
    "e_coins (entry_at (cc_coins (put_coins c s co)) s) = co"
  using set_entry_cache [OF assms] by (simp_all add: put_coins_def)

lemma or_flags_spec:
  assumes "wf_cache c" "holds c s k"
  shows "wf_cache (or_flags c s fl)" "holds (or_flags c s fl) s k" "coin_at (or_flags c s fl) = coin_at c"
    "dom (entries (cc_coins (or_flags c s fl))) = dom (entries (cc_coins c))" "cc_base (or_flags c s fl) = cc_base c"
    "e_coins (entry_at (cc_coins (or_flags c s fl)) s) = e_coins (entry_at (cc_coins c) s)"
  using set_entry_cache [OF assms] holds_coin [OF assms] by (simp_all add: or_flags_def Let_def fun_upd_idem)

lemma cache_insert_spec:
  assumes wf: "wf_cache c" and i: "cache_insert calloc c k = Some (c', Some s)"
    and new: "entries (cc_coins c) k = None"
  shows "wf_cache c'" "holds c' s k" "e_coins (entry_at (cc_coins c') s) = coins_init"
    "coin_at c' = (coin_at c)(k := coins_init)" "dom (entries (cc_coins c')) = insert k (dom (entries (cc_coins c)))"
    "cc_base c' = cc_base c" "cc_commitment c' = cc_commitment c"
proof -
  obtain m where m: "coins_map_insert calloc (cc_coins c) k = Some (m, Some s)" "c' = c\<lparr>cc_coins := m\<rparr>"
    using i by (auto simp: cache_insert_def)
  note sp = insert_spec [OF wf [unfolded wf_cache_def] m(1)]
  show "wf_cache c'" "holds c' s k" "e_coins (entry_at (cc_coins c') s) = coins_init"
    using sp new by (simp_all add: wf_cache_def m(2) holds_def entry_at_def)
  show "coin_at c' = (coin_at c)(k := coins_init)"
    by (rule ext) (use sp(5,6) new in \<open>simp add: coin_at_def view_coins_def m(2) cong: option.case_cong\<close>)
  show "dom (entries (cc_coins c')) = insert k (dom (entries (cc_coins c)))" using sp(6) by (auto simp: m(2))
  show "cc_base c' = cc_base c" "cc_commitment c' = cc_commitment c" by (simp_all add: m(2))
qed

lemma commitment_simps [simp]:
  "cc_commitment (put_coins c s co) = cc_commitment c" "cc_commitment (or_flags c s fl) = cc_commitment c"
  by (simp_all add: put_coins_def or_flags_def Let_def)

lemma coin_at_commitment: "coin_at (c\<lparr>cc_commitment := uc\<rparr>) = coin_at c"
  by (rule ext) (simp add: coin_at_def view_coins_def cong: option.case_cong)

lemma coin_at_best_block: "coin_at (c\<lparr>cc_hash_block := h\<rparr>) = coin_at c"
  by (rule ext) (simp add: coin_at_def view_coins_def cong: option.case_cong)

text \<open>\<^verbatim>\<open>coins_view_cache_modify\<close> changes no coin; its pointer is to the entry of the key.\<close>

lemma modify_spec:
  assumes wf: "wf_cache c" and m: "coins_view_cache_modify calloc c k = Some (c', Some s)"
  shows "wf_cache c'" "holds c' s k" "coin_at c' = coin_at c" "e_coins (entry_at (cc_coins c') s) = coin_at c k"
    "dom (entries (cc_coins c')) = insert k (dom (entries (cc_coins c)))" "cc_base c' = cc_base c"
    "cc_commitment c' = cc_commitment c"
proof -
  have *: "wf_cache c' \<and> holds c' s k \<and> coin_at c' = coin_at c \<and> cc_base c' = cc_base c \<and>
      dom (entries (cc_coins c')) = insert k (dom (entries (cc_coins c))) \<and> cc_commitment c' = cc_commitment c"
  proof (cases "coins_map_find (cc_coins c) k")
    case (Some f)
    then have c': "c' = or_flags c s COINS_CACHE_DIRTY" "s = f" using m by (auto simp: coins_view_cache_modify_def)
    have h: "holds c s k" using find_cases(1) [OF wf Some] c' by simp
    then have "k \<in> dom (entries (cc_coins c))" using holds_entries [OF wf] by auto
    then show ?thesis using or_flags_spec [OF wf h, of COINS_CACHE_DIRTY] c' by (auto simp: insert_absorb)
  next
    case None
    then have new: "entries (cc_coins c) k = None" by (rule find_cases(2) [OF wf])
    obtain c1 where c1: "cache_insert calloc c k = Some (c1, Some s)"
        and c': "c' = or_flags (case coins_view_get_coins (cc_base c1) k of None \<Rightarrow> c1 | Some co \<Rightarrow> put_coins c1 s co) s COINS_CACHE_DIRTY"
      using m None by (auto simp: coins_view_cache_modify_def Let_def split: option.splits prod.splits)
    note i = cache_insert_spec [OF wf c1 new]
    note pc = put_coins_spec [OF i(1,2)]
    have base: "coin_at c k = (case coins_view_get_coins (cc_base c) k of None \<Rightarrow> coins_init | Some co \<Rightarrow> co)"
      by (simp add: coin_at_def view_coins_def new)
    show ?thesis
    proof (cases "coins_view_get_coins (cc_base c1) k")
      case None
      then have "coin_at c k = coins_init" using base i(6) by simp
      then show ?thesis using or_flags_spec [OF i(1,2), of COINS_CACHE_DIRTY] i None c' by (auto simp: fun_upd_idem)
    next
      case (Some co)
      then have "coin_at c k = co" using base i(6) by simp
      then show ?thesis using or_flags_spec [OF pc(1,2), of co COINS_CACHE_DIRTY] pc [of co] i Some c' by (auto simp: fun_upd_idem)
    qed
  qed
  then show "wf_cache c'" "holds c' s k" "coin_at c' = coin_at c" "cc_base c' = cc_base c"
    "dom (entries (cc_coins c')) = insert k (dom (entries (cc_coins c)))" "cc_commitment c' = cc_commitment c" by blast+
  then show "e_coins (entry_at (cc_coins c') s) = coin_at c k" using holds_coin by metis
qed

text \<open>The table can always grow.\<close>

definition table_memory :: "calloc \<Rightarrow> bool" where
  "table_memory calloc \<longleftrightarrow> (\<forall>n. calloc ''coins_map_buckets'' n)"

lemma modify_succeeds:
  assumes wf: "wf_cache c" and mem: "table_memory calloc"
  shows "\<exists>c' s. coins_view_cache_modify calloc c k = Some (c', Some s)"
proof -
  obtain m s where "coins_map_insert calloc (cc_coins c) k = Some (m, Some s)"
    using insert_succeeds [of "cc_coins c" calloc k] wf mem by (auto simp: wf_cache_def table_memory_def)
  then show ?thesis
    by (cases "coins_map_find (cc_coins c) k") (auto simp: coins_view_cache_modify_def cache_insert_def Let_def)
qed

section \<open>Spending\<close>

lemma grow_vout_spec:
  assumes "grow_vout calloc label co n = Some (Some co1)"
  shows "unat n < length (c_vout co1)" "avail co1 = avail co" "unat n < length (c_vout co) \<Longrightarrow> co1 = co"
proof -
  have "unat n < length (c_vout co1) \<and> avail co1 = avail co \<and> (unat n < length (c_vout co) \<longrightarrow> co1 = co)"
  proof (cases "unat n < length (c_vout co)")
    case True
    then show ?thesis using assms by (simp add: grow_vout_def)
  next
    case False
    then have nz: "unat (n + 1) \<noteq> 0" and co1: "co1 = co\<lparr>c_vout := c_vout co @ replicate (unat (n + 1) - length (c_vout co)) tx_out_set_null\<rparr>"
      using assms by (auto simp: grow_vout_def Let_def split: if_splits)
    have "n + 1 \<noteq> 0" using nz by auto
    then have u: "unat (n + 1) = Suc (unat n)" by (metis Suc_eq_plus1 add.commute unatSuc)
    have "avail co1 m = avail co m" for m
      by (cases "m < length (c_vout co)") (auto simp: avail_def co1 nth_append)
    then show ?thesis using False u by (auto simp: co1)
  qed
  then show "unat n < length (c_vout co1)" "avail co1 = avail co" "unat n < length (c_vout co) \<Longrightarrow> co1 = co" by blast+
qed

definition spent :: "coins \<Rightarrow> nat \<Rightarrow> coins" where
  "spent co n = co\<lparr>c_vout := (c_vout co)[n := tx_out_set_null]\<rparr>"

lemma avail_spent: "n < length (c_vout co) \<Longrightarrow> avail (spent co n) = (avail co)(n := None)"
  by (rule ext) (auto simp: avail_def spent_def nth_list_update)

definition undo_of :: "coins \<Rightarrow> nat \<Rightarrow> tx_in_undo \<Rightarrow> tx_in_undo" where
  "undo_of co n u =
     (if coins_is_pruned (Some (spent co n))
      then u\<lparr>u_txout := c_vout co ! n, u_height := word_of_int (c_height co), u_coinbase := c_is_coinbase co, u_version := c_version co\<rparr>
      else u\<lparr>u_txout := c_vout co ! n\<rparr>)"

lemma capture_undo_avail:
  assumes "avail co (unat n) = Some out"
  shows "coins_math_capture_undo (Some co) n (Some u) = Inr (spent co (unat n), undo_of co (unat n) u)"
  using assms by (auto simp: coins_math_capture_undo_def coins_math_spend_def spent_def undo_of_def avail_def Let_def split: if_splits)

lemma spend_input_spec:
  assumes wf: "wf_cache c" and sp: "spend_input sha256 skip calloc c i u = Some (c', u', True)"
  defines "k \<equiv> op_hash (prevout i)" and "n \<equiv> unat (op_n (prevout i))"
  shows "\<exists>out. avail (coin_at c k) n = Some out \<and> MoneyRange (out_value out) \<and>
      cc_commitment c' = utxo_commitment_remove sha256 skip (cc_commitment c) k (op_n (prevout i)) (out_value out) (c_height (coin_at c k))"
    and "wf_cache c'" "coin_at c' = (coin_at c)(k := spent (coin_at c k) n)" "u' = undo_of (coin_at c k) n u"
    and "dom (entries (cc_coins c')) = insert k (dom (entries (cc_coins c)))" "cc_base c' = cc_base c"
proof -
  obtain c1 s co where m: "coins_view_cache_modify calloc c k = Some (c1, Some s)"
      and g: "grow_vout calloc ''coins_vout_grow'' (e_coins (entry_at (cc_coins c1) s)) (op_n (prevout i)) = Some (Some co)"
      and nn: "\<not> tx_out_is_null (c_vout co ! n)" "MoneyRange (out_value (c_vout co ! n))"
    using sp by (auto simp: spend_input_def k_def n_def Let_def split: option.splits prod.splits if_splits)
  note mo = modify_spec [OF wf m]
  note gr = grow_vout_spec [OF g, unfolded mo(4)]
  have av: "avail (coin_at c k) n = Some (c_vout co ! n)"
    using gr(1,2) nn(1) unfolding n_def by (metis (no_types, lifting) avail_def)
  then have "n < length (c_vout (coin_at c k))" by (auto simp: avail_def split: if_splits)
  then have co: "co = coin_at c k" using gr(3) by (simp add: n_def)
  let ?c2 = "put_coins c1 s co"
  let ?c3 = "?c2\<lparr>cc_commitment := utxo_commitment_remove sha256 skip (cc_commitment ?c2) k (op_n (prevout i))
      (out_value (c_vout co ! n)) (c_height co)\<rparr>"
  have cu: "coins_math_capture_undo (Some co) (op_n (prevout i)) (Some u) = Inr (spent co n, undo_of co n u)"
    using capture_undo_avail av unfolding co n_def by blast
  have c': "c' = put_coins ?c3 s (spent co n)" "u' = undo_of co n u"
    using sp m g nn cu by (auto simp: spend_input_def k_def n_def Let_def)
  note p2 = put_coins_spec [OF mo(1,2), of co]
  have h3: "wf_cache ?c3" "holds ?c3 s k" using p2(1,2) by (simp_all add: wf_cache_def holds_def)
  have ca: "coin_at ?c3 = coin_at ?c2" by (rule coin_at_commitment)
  note p3 = put_coins_spec [OF h3, of "spent co n"]
  have "coin_at ?c2 = coin_at c" using p2(3) mo(3) co by (simp add: fun_upd_idem)
  then show "coin_at c' = (coin_at c)(k := spent (coin_at c k) n)" using p3(3) ca c'(1) co by simp
  show "\<exists>out. avail (coin_at c k) n = Some out \<and> MoneyRange (out_value out) \<and>
      cc_commitment c' = utxo_commitment_remove sha256 skip (cc_commitment c) k (op_n (prevout i)) (out_value out) (c_height (coin_at c k))"
    using av nn(2) mo(7) co by (intro exI [of _ "c_vout co ! n"]) (simp add: c'(1))
  show "wf_cache c'" using p3(1) c'(1) by simp
  show "u' = undo_of (coin_at c k) n u" using c'(2) co by simp
  show "dom (entries (cc_coins c')) = insert k (dom (entries (cc_coins c)))" using p3(4) p2(4) mo(5) c'(1) by simp
  show "cc_base c' = cc_base c" using p3(5) p2(5) mo(6) c'(1) by simp
qed

lemma modify_new_spec:
  assumes wf: "wf_cache c" and m: "coins_view_cache_modify_new calloc c k = Some (c', Some s)"
  shows "wf_cache c'" "holds c' s k" "j \<noteq> k \<Longrightarrow> coin_at c' j = coin_at c j" "cc_base c' = cc_base c"
    "dom (entries (cc_coins c')) = insert k (dom (entries (cc_coins c)))" "cc_commitment c' = cc_commitment c"
proof -
  obtain m1 where i: "coins_map_insert calloc (cc_coins c) k = Some (m1, Some s)"
      and c': "c' = or_flags (c\<lparr>cc_coins := m1\<rparr>) s (COINS_CACHE_DIRTY OR COINS_CACHE_FRESH)"
    using m by (auto simp: coins_view_cache_modify_new_def cache_insert_def split: option.splits prod.splits)
  note sp = insert_spec [OF wf [unfolded wf_cache_def] i]
  have h: "wf_cache (c\<lparr>cc_coins := m1\<rparr>)" "holds (c\<lparr>cc_coins := m1\<rparr>) s k" using sp by (simp_all add: wf_cache_def holds_def)
  note o = or_flags_spec [OF h, of "COINS_CACHE_DIRTY OR COINS_CACHE_FRESH", folded c']
  show "wf_cache c'" "holds c' s k" using o by simp_all
  show "coin_at c' j = coin_at c j" if "j \<noteq> k"
    unfolding o(3) using sp(6) that by (simp add: coin_at_def view_coins_def cong: option.case_cong)
  show "cc_base c' = cc_base c" "dom (entries (cc_coins c')) = insert k (dom (entries (cc_coins c)))"
    using o sp(6) by auto
  show "cc_commitment c' = cc_commitment c" by (simp add: c')
qed

lemma create_outputs_spec:
  assumes wf: "wf_cache c" and cr: "create_outputs sha256 skip calloc c tx h = Some (c', True)"
  shows "wf_cache c'" "j \<noteq> tx_hash tx \<Longrightarrow> coin_at c' j = coin_at c j" "cc_base c' = cc_base c"
    "dom (entries (cc_coins c')) = insert (tx_hash tx) (dom (entries (cc_coins c)))"
    "\<exists>co co0. coin_at c' (tx_hash tx) = co \<and> coins_from_transaction calloc co0 tx h = (co, True) \<and>
        commit_new sha256 skip (tx_hash tx) h 0 (c_vout co) (cc_commitment c) = (cc_commitment c', True)"
proof -
  obtain c1 s where m: "coins_view_cache_modify_new calloc c (tx_hash tx) = Some (c1, Some s)"
    using cr by (auto simp: create_outputs_def split: option.splits prod.splits)
  let ?co0 = "e_coins (entry_at (cc_coins c1) s)"
  obtain co uc where f: "coins_from_transaction calloc ?co0 tx h = (co, True)"
      and cn: "commit_new sha256 skip (tx_hash tx) h 0 (c_vout co) (cc_commitment (put_coins c1 s co)) = (uc, True)"
      and c': "c' = (put_coins c1 s co)\<lparr>cc_commitment := uc\<rparr>"
    using cr m by (auto simp: create_outputs_def Let_def split: option.splits prod.splits if_splits)
  note mo = modify_new_spec [OF wf m]
  note pc = put_coins_spec [OF mo(1,2), of co]
  show "wf_cache c'" using pc(1) by (simp add: c' wf_cache_def)
  show "coin_at c' j = coin_at c j" if "j \<noteq> tx_hash tx" using that pc(3) mo(3) by (simp add: c' coin_at_commitment)
  show "cc_base c' = cc_base c" "dom (entries (cc_coins c')) = insert (tx_hash tx) (dom (entries (cc_coins c)))"
    using pc(4,5) mo(4,5) by (simp_all add: c')
  show "\<exists>co co0. coin_at c' (tx_hash tx) = co \<and> coins_from_transaction calloc co0 tx h = (co, True) \<and>
        commit_new sha256 skip (tx_hash tx) h 0 (c_vout co) (cc_commitment c) = (cc_commitment c', True)"
    using f cn pc(3) mo(6) by (intro exI [of _ co] exI [of _ ?co0]) (simp add: c' coin_at_commitment)
qed

section \<open>Undoing\<close>

definition restored :: "coins \<Rightarrow> nat \<Rightarrow> tx_in_undo \<Rightarrow> coins" where
  "restored co n u =
     (let co2 = (if u_height u > 0 then co\<lparr>c_is_coinbase := u_coinbase u, c_height := sint (u_height u), c_version := u_version u\<rparr>
                 else co)
      in co2\<lparr>c_vout := (c_vout co2)[n := u_txout u]\<rparr>)"

lemma restored_spent:
  assumes "n < length (c_vout co)" "is_int32 (c_height co)"
  shows "restored (spent co n) n (undo_of co n tx_in_undo_init) = co"
proof -
  have "c_vout co = (c_vout co)[n := c_vout co ! n]" by simp
  then show ?thesis using assms(2)
    by (cases co) (auto simp: restored_def spent_def undo_of_def tx_in_undo_init_def Let_def sint_of_int32)
qed

lemma restore_input_spec:
  assumes wf: "wf_cache c" and mem: "table_memory calloc"
    and n: "unat (op_n (prevout i)) < length (c_vout (coin_at c (op_hash (prevout i))))"
  defines "k \<equiv> op_hash (prevout i)"
  shows "\<exists>c'. restore_input calloc c i u = Some (c', True) \<and> wf_cache c' \<and>
    coin_at c' = (coin_at c)(k := restored (coin_at c k) (unat (op_n (prevout i))) u)"
proof -
  obtain c1 s where m: "coins_view_cache_modify calloc c k = Some (c1, Some s)"
    using modify_succeeds [OF wf mem] by blast
  note mo = modify_spec [OF wf m]
  let ?co = "restored (coin_at c k) (unat (op_n (prevout i))) u"
  have g: "grow_vout calloc ''disconnect_vout'' (coin_at c k) (op_n (prevout i)) = Some (Some (coin_at c k))"
    using n by (simp add: grow_vout_def k_def)
  have r: "restore_input calloc c i u = Some (or_flags (put_coins c1 s ?co) s COINS_CACHE_DIRTY, True)"
    using m mo(4) g n by (simp add: restore_input_def k_def Let_def restored_def)
  note pc = put_coins_spec [OF mo(1,2), of ?co]
  note o = or_flags_spec [OF pc(1,2), of COINS_CACHE_DIRTY]
  show ?thesis using r o(1,3) pc(3) mo(3) by auto
qed

lemma restore_inputs_append:
  "restore_inputs calloc c (xs @ ys) =
     (case restore_inputs calloc c xs of
        None \<Rightarrow> None
      | Some (c1, ok) \<Rightarrow> if ok then restore_inputs calloc c1 ys else Some (c1, False))"
  by (induction xs arbitrary: c) (auto split: option.splits prod.splits if_splits)

text \<open>The keys outside \<open>H\<close> on which two caches present the same coins.\<close>

definition agree :: "bytes set \<Rightarrow> coins_view_cache \<Rightarrow> coins_view_cache \<Rightarrow> bool" where
  "agree H c d \<longleftrightarrow> (\<forall>k. k \<notin> H \<longrightarrow> coin_at d k = coin_at c k)"

definition unspent_free :: "bytes set \<Rightarrow> coins_view_cache \<Rightarrow> bool" where
  "unspent_free H c \<longleftrightarrow> (\<forall>k \<in> H. \<forall>n. avail (coin_at c k) n = None)"

definition heights_ok :: "coins_view_cache \<Rightarrow> bool" where
  "heights_ok c \<longleftrightarrow> (\<forall>k. is_int32 (c_height (coin_at c k)))"

lemma restore_undoes_spend:
  assumes "wf_cache c" "spend_inputs sha256 skip calloc c is us = Some (c', us', True)"
    and "length us = length is" "set us \<subseteq> {tx_in_undo_init}" "unspent_free H c" "heights_ok c"
    and mem: "table_memory calloc'"
  shows "wf_cache c' \<and> length us' = length is \<and> (\<forall>k \<in> H. coin_at c' k = coin_at c k) \<and> heights_ok c' \<and>
    (\<forall>d. wf_cache d \<and> agree H c' d \<longrightarrow>
       (\<exists>d'. restore_inputs calloc' d (rev (zip is us')) = Some (d', True) \<and> wf_cache d' \<and> agree H c d' \<and>
             (\<forall>k \<in> H. coin_at d' k = coin_at d k)))"
  using assms
proof (induction "is" arbitrary: us c us')
  case Nil
  then show ?case by auto
next
  case (Cons i "is")
  obtain u us0 where us: "us = u # us0" using Cons.prems(3) by (cases us) auto
  then have u: "u = tx_in_undo_init" using Cons.prems(4) by simp
  obtain c1 u1 us1 where s1: "spend_input sha256 skip calloc c i u = Some (c1, u1, True)"
      and s2: "spend_inputs sha256 skip calloc c1 is us0 = Some (c', us1, True)" and us': "us' = u1 # us1"
    using Cons.prems(2) us by (auto split: option.splits prod.splits if_splits)
  let ?k = "op_hash (prevout i)" and ?n = "unat (op_n (prevout i))"
  note sp = spend_input_spec [OF Cons.prems(1) s1]
  obtain out where av: "avail (coin_at c ?k) ?n = Some out" using sp(1) by blast
  then have len: "?n < length (c_vout (coin_at c ?k))" by (auto simp: avail_def split: if_splits)
  have kH: "?k \<notin> H" using av Cons.prems(5) by (auto simp: unspent_free_def)
  have h1: "heights_ok c1" using Cons.prems(6) by (simp add: heights_ok_def sp(3) spent_def)
  have f1: "unspent_free H c1" using Cons.prems(5) kH by (auto simp: unspent_free_def sp(3))
  have "length us0 = length is" "set us0 \<subseteq> {tx_in_undo_init}" using Cons.prems(3,4) us by auto
  note ih = Cons.IH [OF sp(2) s2 this f1 h1 mem]
  have "\<exists>d'. restore_inputs calloc' d (rev (zip (i # is) us')) = Some (d', True) \<and> wf_cache d' \<and> agree H c d' \<and>
      (\<forall>k \<in> H. coin_at d' k = coin_at d k)" if d: "wf_cache d" "agree H c' d" for d
  proof -
    obtain d1 where d1: "restore_inputs calloc' d (rev (zip is us1)) = Some (d1, True)" "wf_cache d1" "agree H c1 d1"
        "\<forall>k \<in> H. coin_at d1 k = coin_at d k" using ih d by blast
    have dk: "coin_at d1 ?k = spent (coin_at c ?k) ?n" using d1(3) kH sp(3) by (simp add: agree_def)
    then have "?n < length (c_vout (coin_at d1 ?k))" using len by (simp add: spent_def)
    then obtain d2 where d2: "restore_input calloc' d1 i u1 = Some (d2, True)" "wf_cache d2"
        "coin_at d2 = (coin_at d1)(?k := restored (coin_at d1 ?k) ?n u1)"
      using restore_input_spec [OF d1(2) mem, of i u1] by blast
    have "restored (coin_at d1 ?k) ?n u1 = coin_at c ?k"
      unfolding dk sp(4) u using restored_spent [OF len] Cons.prems(6) by (simp add: heights_ok_def)
    then have "agree H c d2" using d1(3) by (auto simp: agree_def d2(3) sp(3))
    moreover have "\<forall>k \<in> H. coin_at d2 k = coin_at d k" using d1(4) kH by (auto simp: d2(3))
    ultimately show ?thesis using d1(1) d2(1,2) by (simp add: us' restore_inputs_append)
  qed
  moreover have "\<forall>k \<in> H. coin_at c' k = coin_at c k" using ih kH by (auto simp: sp(3))
  ultimately show ?case using ih us' by simp
qed

lemma ghost_spec:
  assumes wf: "wf_cache c" and mem: "table_memory calloc"
  shows "\<exists>c'. ghost_outputs calloc c tx = Some c' \<and> wf_cache c' \<and> coin_at c' = (coin_at c)(tx_hash tx := coins_init)"
proof -
  obtain c1 s where m: "coins_view_cache_modify calloc c (tx_hash tx) = Some (c1, Some s)"
    using modify_succeeds [OF wf mem] by blast
  note mo = modify_spec [OF wf m]
  note pc = put_coins_spec [OF mo(1,2), of coins_init]
  note o = or_flags_spec [OF pc(1,2), of COINS_CACHE_DIRTY]
  show ?thesis using m o(1,3) pc(3) mo(3) by (simp add: ghost_outputs_def)
qed

text \<open>The undo records of a transaction as \<^verbatim>\<open>disconnect_block\<close> sees them.\<close>

definition undo_slot :: "transaction \<Rightarrow> tx_undo \<Rightarrow> tx_undo option" where
  "undo_slot tx us = (if transaction_is_coinbase tx then None else Some us)"

lemma heights_from_create:
  assumes "heights_ok c" "is_int32 h" "wf_cache c" "create_outputs sha256 skip calloc c tx h = Some (c', True)"
  shows "heights_ok c'"
  unfolding heights_ok_def
proof
  fix k
  note cs = create_outputs_spec [OF assms(3,4)]
  obtain co co0 where "coin_at c' (tx_hash tx) = co" "coins_from_transaction calloc co0 tx h = (co, True)" using cs(5) by blast
  then show "is_int32 (c_height (coin_at c' k))"
    using from_transaction_avail(2) cs(2) [of k] assms(1,2) by (cases "k = tx_hash tx") (auto simp: heights_ok_def)
qed

lemma disconnect_tx_spec:
  assumes wf: "wf_cache c" and up: "update_coins_with_undo sha256 skip calloc tx c tx_undo_init h = Some (c', us, True)"
    and free: "unspent_free (insert (tx_hash tx) H) c" and ht: "heights_ok c" "is_int32 h"
    and mem: "table_memory calloc'" and new: "tx_hash tx \<notin> H"
  shows "wf_cache c'" "heights_ok c'" "\<forall>k \<in> H. coin_at c' k = coin_at c k"
    and "wf_cache d \<Longrightarrow> agree H c' d \<Longrightarrow>
      \<exists>d'. disconnect_tx calloc' d tx (undo_slot tx us) = Some (d', True) \<and> wf_cache d' \<and>
           agree (insert (tx_hash tx) H) c d' \<and> coin_at d' (tx_hash tx) = coins_init \<and> (\<forall>k \<in> H. coin_at d' k = coin_at d k)"
proof -
  let ?H = "insert (tx_hash tx) H"
  have "wf_cache c' \<and> heights_ok c' \<and> (\<forall>k \<in> H. coin_at c' k = coin_at c k) \<and>
    (wf_cache d \<and> agree H c' d \<longrightarrow>
      (\<exists>d'. disconnect_tx calloc' d tx (undo_slot tx us) = Some (d', True) \<and> wf_cache d' \<and>
           agree ?H c d' \<and> coin_at d' (tx_hash tx) = coins_init \<and> (\<forall>k \<in> H. coin_at d' k = coin_at d k)))" for d
  proof (cases "transaction_is_coinbase tx")
    case True
    then have cr: "create_outputs sha256 skip calloc c tx h = Some (c', True)"
      using up by (auto simp: update_coins_with_undo_def)
    note cs = create_outputs_spec [OF wf cr]
    have "\<exists>d'. disconnect_tx calloc' d tx (undo_slot tx us) = Some (d', True) \<and> wf_cache d' \<and>
           agree ?H c d' \<and> coin_at d' (tx_hash tx) = coins_init \<and> (\<forall>k \<in> H. coin_at d' k = coin_at d k)"
      if d: "wf_cache d" "agree H c' d"
    proof -
      obtain d' where "ghost_outputs calloc' d tx = Some d'" "wf_cache d'" "coin_at d' = (coin_at d)(tx_hash tx := coins_init)"
        using ghost_spec [OF d(1) mem] by blast
      then show ?thesis using True d(2) cs(2) new by (auto simp: disconnect_tx_def undo_slot_def agree_def)
    qed
    moreover have "\<forall>k \<in> H. coin_at c' k = coin_at c k" using cs(2) new by metis
    ultimately show ?thesis using cs(1) heights_from_create [OF ht wf cr] by blast
  next
    case False
    then obtain us0 c1 where al: "tx_undo_alloc calloc (length (vin tx)) = Some us0"
        and sp: "spend_inputs sha256 skip calloc c (vin tx) us0 = Some (c1, us, True)"
        and cr: "create_outputs sha256 skip calloc c1 tx h = Some (c', True)"
      using up by (auto simp: update_coins_with_undo_def split: option.splits prod.splits if_splits)
    have "us0 = replicate (length (vin tx)) tx_in_undo_init" using al by (auto simp: tx_undo_alloc_def split: if_splits)
    then have "length us0 = length (vin tx)" "set us0 \<subseteq> {tx_in_undo_init}" by auto
    note rs = restore_undoes_spend [OF wf sp this free ht(1) mem]
    then have wf1: "wf_cache c1" and h1: "heights_ok c1" and l: "length us = length (vin tx)" by blast+
    note cs = create_outputs_spec [OF wf1 cr]
    have "\<exists>d'. disconnect_tx calloc' d tx (undo_slot tx us) = Some (d', True) \<and> wf_cache d' \<and>
           agree ?H c d' \<and> coin_at d' (tx_hash tx) = coins_init \<and> (\<forall>k \<in> H. coin_at d' k = coin_at d k)"
      if d: "wf_cache d" "agree H c' d"
    proof -
      have "agree ?H c1 d" using d(2) cs(2) by (auto simp: agree_def)
      then obtain d1 where d1: "restore_inputs calloc' d (rev (zip (vin tx) us)) = Some (d1, True)" "wf_cache d1"
          "agree ?H c d1" "\<forall>k \<in> ?H. coin_at d1 k = coin_at d k" using rs d(1) by blast
      obtain d' where "ghost_outputs calloc' d1 tx = Some d'" "wf_cache d'" "coin_at d' = (coin_at d1)(tx_hash tx := coins_init)"
        using ghost_spec [OF d1(2) mem] by blast
      then show ?thesis using False d1 l new by (auto simp: disconnect_tx_def undo_slot_def agree_def)
    qed
    moreover have "\<forall>k \<in> H. coin_at c' k = coin_at c k" using cs(2) new rs by (metis insertI2)
    ultimately show ?thesis using cs(1) heights_from_create [OF h1 ht(2) wf1 cr] by blast
  qed
  then show "wf_cache c'" "heights_ok c'" "\<forall>k \<in> H. coin_at c' k = coin_at c k"
    "wf_cache d \<Longrightarrow> agree H c' d \<Longrightarrow>
      \<exists>d'. disconnect_tx calloc' d tx (undo_slot tx us) = Some (d', True) \<and> wf_cache d' \<and>
           agree ?H c d' \<and> coin_at d' (tx_hash tx) = coins_init \<and> (\<forall>k \<in> H. coin_at d' k = coin_at d k)" by blast+
qed

lemma disconnect_txs_append:
  "disconnect_txs calloc c (xs @ ys) =
     (case disconnect_txs calloc c xs of
        None \<Rightarrow> None
      | Some (c1, ok) \<Rightarrow> if ok then disconnect_txs calloc c1 ys else Some (c1, False))"
  by (induction xs arbitrary: c) (auto split: option.splits prod.splits if_splits)

lemma disconnect_undoes_connect_txs:
  assumes "wf_cache c" "connect_txs sha256 skip calloc c txs h = Some (c', uss, True)" "distinct (map tx_hash txs)"
    and "unspent_free (tx_hash ` set txs) c" "heights_ok c" "is_int32 h" and mem: "table_memory calloc'"
    and "wf_cache d" "coin_at d = coin_at c'"
  shows "length uss = length txs \<and>
    (\<exists>d'. disconnect_txs calloc' d (rev (zip txs (map2 undo_slot txs uss))) = Some (d', True) \<and> wf_cache d' \<and>
       agree (tx_hash ` set txs) c d' \<and> (\<forall>k \<in> tx_hash ` set txs. coin_at d' k = coins_init))"
  using assms
proof (induction txs arbitrary: c uss)
  case Nil
  then show ?case by (auto simp: agree_def)
next
  case (Cons tx txs)
  let ?H = "tx_hash ` set txs"
  obtain c1 us uss1 where up: "update_coins_with_undo sha256 skip calloc tx c tx_undo_init h = Some (c1, us, True)"
      and cn: "connect_txs sha256 skip calloc c1 txs h = Some (c', uss1, True)" and uss: "uss = us # uss1"
    using Cons.prems(2) by (auto split: option.splits prod.splits if_splits)
  have free: "unspent_free (insert (tx_hash tx) ?H) c" and new: "tx_hash tx \<notin> ?H" using Cons.prems(3,4) by auto
  note ds = disconnect_tx_spec [OF Cons.prems(1) up free Cons.prems(5,6) mem new]
  have "unspent_free ?H c1" using free ds(3) by (auto simp: unspent_free_def)
  then obtain d1 where l: "length uss1 = length txs"
      and d1: "disconnect_txs calloc' d (rev (zip txs (map2 undo_slot txs uss1))) = Some (d1, True)" "wf_cache d1"
        "agree ?H c1 d1" "\<forall>k \<in> ?H. coin_at d1 k = coins_init"
    using Cons.IH [OF ds(1) cn] Cons.prems(3,6,8,9) ds(2) mem by auto
  obtain d2 where d2: "disconnect_tx calloc' d1 tx (undo_slot tx us) = Some (d2, True)" "wf_cache d2"
      "agree (insert (tx_hash tx) ?H) c d2" "coin_at d2 (tx_hash tx) = coins_init" "\<forall>k \<in> ?H. coin_at d2 k = coin_at d1 k"
    using ds(4) [OF d1(2,3)] by blast
  then show ?case using l d1 by (simp add: uss disconnect_txs_append)
qed

lemma undo_slots:
  assumes "length uss = length txs" "txs \<noteq> []" "transaction_is_coinbase (hd txs)" "list_all (\<lambda>tx. \<not> transaction_is_coinbase tx) (tl txs)"
  shows "map2 undo_slot txs uss = None # map Some (tl uss)"
proof -
  obtain tx txs' us uss' where e: "txs = tx # txs'" "uss = us # uss'" using assms(1,2) by (cases txs; cases uss) auto
  have "map2 undo_slot txs' uss' = map Some uss'"
    using assms(1,4) unfolding e by (auto simp: list_eq_iff_nth_eq list_all_length undo_slot_def)
  then show ?thesis using assms(3) by (simp add: e undo_slot_def)
qed

subsection \<open>Progress\<close>

lemma spend_input_succeeds:
  assumes wf: "wf_cache c" and mem: "table_memory calloc"
    and av: "avail (coin_at c (op_hash (prevout i))) (unat (op_n (prevout i))) = Some out" "MoneyRange (out_value out)"
  shows "\<exists>c' u'. spend_input sha256 skip calloc c i u = Some (c', u', True)"
proof -
  let ?k = "op_hash (prevout i)" and ?n = "op_n (prevout i)"
  obtain c1 s where m: "coins_view_cache_modify calloc c ?k = Some (c1, Some s)" using modify_succeeds [OF wf mem] by blast
  have len: "unat ?n < length (c_vout (coin_at c ?k))" and o: "c_vout (coin_at c ?k) ! unat ?n = out" "\<not> tx_out_is_null out"
    using av(1) by (auto simp: avail_def split: if_splits)
  have "grow_vout calloc ''coins_vout_grow'' (coin_at c ?k) ?n = Some (Some (coin_at c ?k))" using len by (simp add: grow_vout_def)
  then show ?thesis using m modify_spec(4) [OF wf m] o av(2) capture_undo_avail [OF av(1), of u]
    by (simp add: spend_input_def Let_def)
qed

text \<open>The inputs name different outputs, each available and in the money range.\<close>

definition inputs_ok :: "coins_view_cache \<Rightarrow> tx_in list \<Rightarrow> bool" where
  "inputs_ok c is \<longleftrightarrow> distinct (map prevout is) \<and>
     (\<forall>i \<in> set is. \<exists>out. avail (coin_at c (op_hash (prevout i))) (unat (op_n (prevout i))) = Some out \<and> MoneyRange (out_value out))"

lemma spend_inputs_succeeds:
  "wf_cache c \<Longrightarrow> table_memory calloc \<Longrightarrow> inputs_ok c is \<Longrightarrow> length us = length is \<Longrightarrow>
   \<exists>c' us'. spend_inputs sha256 skip calloc c is us = Some (c', us', True) \<and> wf_cache c' \<and>
     (\<forall>k. k \<notin> (op_hash \<circ> prevout) ` set is \<longrightarrow> coin_at c' k = coin_at c k)"
proof (induction "is" arbitrary: c us)
  case (Cons i "is")
  obtain u us0 where us: "us = u # us0" "length us0 = length is" using Cons.prems(4) by (cases us) auto
  let ?k = "op_hash (prevout i)" and ?n = "unat (op_n (prevout i))"
  obtain out where av: "avail (coin_at c ?k) ?n = Some out" "MoneyRange (out_value out)"
    using Cons.prems(3) by (auto simp: inputs_ok_def)
  obtain c1 u1 where s: "spend_input sha256 skip calloc c i u = Some (c1, u1, True)"
    using spend_input_succeeds [OF Cons.prems(1,2) av] by blast
  note sp = spend_input_spec [OF Cons.prems(1) s]
  have "?n < length (c_vout (coin_at c ?k))" using av(1) by (auto simp: avail_def split: if_splits)
  note as = avail_spent [OF this]
  have "inputs_ok c1 is" unfolding inputs_ok_def
  proof (intro conjI ballI)
    show "distinct (map prevout is)" using Cons.prems(3) by (simp add: inputs_ok_def)
    fix j assume j: "j \<in> set is"
    then obtain out where o: "avail (coin_at c (op_hash (prevout j))) (unat (op_n (prevout j))) = Some out" "MoneyRange (out_value out)"
      using Cons.prems(3) by (auto simp: inputs_ok_def)
    have "prevout i \<notin> prevout ` set is" using Cons.prems(3) by (simp add: inputs_ok_def)
    then have "prevout j \<noteq> prevout i" using j by (metis image_eqI)
    then have "op_hash (prevout j) \<noteq> ?k \<or> unat (op_n (prevout j)) \<noteq> ?n"
      by (cases "prevout i"; cases "prevout j") (auto simp: word_unat_eq_iff)
    then show "\<exists>out. avail (coin_at c1 (op_hash (prevout j))) (unat (op_n (prevout j))) = Some out \<and> MoneyRange (out_value out)"
      using o by (auto simp: sp(3) as)
  qed
  from Cons.IH [OF sp(2) Cons.prems(2) this us(2)] obtain c2 us2 where
    "spend_inputs sha256 skip calloc c1 is us0 = Some (c2, us2, True)" "wf_cache c2"
    "\<forall>k. k \<notin> (op_hash \<circ> prevout) ` set is \<longrightarrow> coin_at c2 k = coin_at c1 k" by blast
  then show ?case using s us(1) by (auto simp: sp(3))
qed auto

lemma commit_new_succeeds:
  "list_all (\<lambda>out. tx_out_is_null out \<or> MoneyRange (out_value out)) outs \<Longrightarrow>
   \<exists>uc'. commit_new sha256 skip txid h i outs uc = (uc', True)"
  by (induction outs arbitrary: i uc) auto

text \<open>Memory for everything that is allocated, and outputs a transaction may have.\<close>

definition all_memory :: "calloc \<Rightarrow> bool" where
  "all_memory calloc \<longleftrightarrow> (\<forall>l n. calloc l n)"

definition outputs_ok :: "transaction \<Rightarrow> bool" where
  "outputs_ok tx \<longleftrightarrow> length (vout tx) \<le> 65536 \<and>
     list_all (\<lambda>out. script_is_unspendable (script_pub_key out) \<or> MoneyRange (out_value out)) (vout tx)"

lemma create_outputs_succeeds:
  assumes wf: "wf_cache c" and mem: "all_memory calloc" and o: "outputs_ok tx"
  shows "\<exists>c'. create_outputs sha256 skip calloc c tx h = Some (c', True)"
proof -
  obtain m s where i: "coins_map_insert calloc (cc_coins c) (tx_hash tx) = Some (m, Some s)"
    using insert_succeeds [of "cc_coins c" calloc "tx_hash tx"] wf mem by (auto simp: wf_cache_def all_memory_def)
  let ?c1 = "or_flags (c\<lparr>cc_coins := m\<rparr>) s (COINS_CACHE_DIRTY OR COINS_CACHE_FRESH)"
  have mn: "coins_view_cache_modify_new calloc c (tx_hash tx) = Some (?c1, Some s)"
    using i by (simp add: coins_view_cache_modify_new_def cache_insert_def)
  let ?co0 = "e_coins (entry_at (cc_coins ?c1) s)"
  obtain co where co: "coins_from_transaction calloc ?co0 tx h = (co, True)"
    using o mem by (auto simp: all_memory_def coins_from_transaction_def coins_alloc_def outputs_ok_def Let_def)
  have "\<exists>uc'. commit_new sha256 skip (tx_hash tx) h 0 (c_vout co) (cc_commitment (put_coins ?c1 s co)) = (uc', True)"
  proof (rule commit_new_succeeds, unfold list_all_length, intro allI impI)
    fix n assume n: "n < length (c_vout co)"
    show "tx_out_is_null (c_vout co ! n) \<or> MoneyRange (out_value (c_vout co ! n))"
    proof (cases "avail co n")
      case None
      then show ?thesis using n by (auto simp: avail_def split: if_splits)
    next
      case (Some out)
      then have "out = c_vout co ! n" by (auto simp: avail_def split: if_splits)
      moreover have "n < length (vout tx) \<and> \<not> script_is_unspendable (script_pub_key (vout tx ! n)) \<and> out = vout tx ! n"
        using Some from_transaction_avail(1) [OF co, of n] by (auto split: if_splits)
      ultimately show ?thesis using o by (auto simp: outputs_ok_def list_all_length)
    qed
  qed
  then obtain uc where "commit_new sha256 skip (tx_hash tx) h 0 (c_vout co) (cc_commitment (put_coins ?c1 s co)) = (uc, True)" by blast
  then show ?thesis using mn co by (simp add: create_outputs_def Let_def)
qed

lemma update_succeeds:
  assumes wf: "wf_cache c" and mem: "all_memory calloc" and o: "outputs_ok tx"
    and i: "transaction_is_coinbase tx \<or> inputs_ok c (vin tx)"
  shows "\<exists>c' us. update_coins_with_undo sha256 skip calloc tx c txundo h = Some (c', us, True)"
proof (cases "transaction_is_coinbase tx")
  case True
  then show ?thesis using create_outputs_succeeds [OF wf mem o, of sha256 skip h] by (auto simp: update_coins_with_undo_def)
next
  case False
  let ?us = "replicate (length (vin tx)) tx_in_undo_init"
  have tm: "table_memory calloc" using mem by (simp add: table_memory_def all_memory_def)
  obtain c1 us1 where s: "spend_inputs sha256 skip calloc c (vin tx) ?us = Some (c1, us1, True)" "wf_cache c1"
    using spend_inputs_succeeds [OF wf tm, of "vin tx" ?us sha256 skip] i False by (metis length_replicate)
  moreover obtain c2 where "create_outputs sha256 skip calloc c1 tx h = Some (c2, True)"
    using create_outputs_succeeds [OF s(2) mem o] by blast
  moreover have "tx_undo_alloc calloc (length (vin tx)) = Some ?us" using mem by (simp add: tx_undo_alloc_def all_memory_def)
  ultimately show ?thesis using False by (simp add: update_coins_with_undo_def)
qed

lemma spend_inputs_wf: "wf_cache c \<Longrightarrow> spend_inputs sha256 skip calloc c is us = Some (c', us', True) \<Longrightarrow> wf_cache c'"
proof (induction sha256 skip calloc c "is" us arbitrary: us' rule: spend_inputs.induct)
  case (1 sha256 skip calloc c i "is" u us)
  then show ?case using spend_input_spec(2) [OF "1.prems"(1)]
    by (auto split: option.splits prod.splits if_splits)
qed auto

lemma connect_txs_wf: "wf_cache c \<Longrightarrow> connect_txs sha256 skip calloc c txs h = Some (c', uss, True) \<Longrightarrow> wf_cache c'"
proof (induction txs arbitrary: c uss)
  case (Cons tx txs)
  obtain c1 us uss1 where up: "update_coins_with_undo sha256 skip calloc tx c tx_undo_init h = Some (c1, us, True)"
      and cn: "connect_txs sha256 skip calloc c1 txs h = Some (c', uss1, True)"
    using Cons.prems(2) by (auto split: option.splits prod.splits if_splits)
  have "wf_cache c1" using up Cons.prems(1)
    by (auto simp: update_coins_with_undo_def split: if_splits option.splits)
      (metis spend_inputs_wf create_outputs_spec(1))+
  then show ?case using Cons.IH cn by blast
qed simp

section \<open>Flushing\<close>

text \<open>The dirty entries of a list of buckets.\<close>

definition dirty :: "coins_map_entry list \<Rightarrow> bytes \<Rightarrow> coins option" where
  "dirty bs = map_of (map (\<lambda>b. (b_txid b, e_coins (b_entry b)))
     (filter (\<lambda>b. b_occupied b \<and> e_flags (b_entry b) AND COINS_CACHE_DIRTY \<noteq> 0) bs))"

lemma cache_insert_any:
  assumes wf: "wf_cache c" and i: "cache_insert calloc c k = Some (c', Some s)"
  shows "wf_cache c'" "holds c' s k" "j \<noteq> k \<Longrightarrow> coin_at c' j = coin_at c j" "cc_base c' = cc_base c"
proof -
  obtain m where m: "coins_map_insert calloc (cc_coins c) k = Some (m, Some s)" "c' = c\<lparr>cc_coins := m\<rparr>"
    using i by (auto simp: cache_insert_def)
  note sp = insert_spec [OF wf [unfolded wf_cache_def] m(1)]
  show "wf_cache c'" "holds c' s k" "cc_base c' = cc_base c" using sp by (simp_all add: wf_cache_def m(2) holds_def)
  show "j \<noteq> k \<Longrightarrow> coin_at c' j = coin_at c j"
    using sp(6) by (simp add: coin_at_def view_coins_def m(2) cong: option.case_cong)
qed

lemma batch_loop_spec:
  "wf_cache p \<Longrightarrow> distinct (map b_txid (filter b_occupied bs)) \<Longrightarrow> batch_loop calloc p bs = Some (p', bs', True) \<Longrightarrow>
   wf_cache p' \<and> (\<forall>k. coin_at p' k = (case dirty bs k of None \<Rightarrow> coin_at p k | Some co \<Rightarrow> co)) \<and> cc_hash_block p' = cc_hash_block p"
proof (induction bs arbitrary: p bs')
  case Nil
  then show ?case by (simp add: dirty_def)
next
  case (Cons b bs)
  have dis: "distinct (map b_txid (filter b_occupied bs))" using Cons.prems(2) by (simp split: if_splits)
  show ?case
  proof (cases "b_occupied b \<and> e_flags (b_entry b) AND COINS_CACHE_DIRTY \<noteq> 0")
    case False
    then have "\<exists>bs1. batch_loop calloc p bs = Some (p', bs1, True)" using Cons.prems(3) by (auto split: if_splits)
    then show ?thesis using Cons.IH [OF Cons.prems(1) dis] False by (auto simp: dirty_def)
  next
    case True
    then obtain p1 s bs1 where i: "cache_insert calloc p (b_txid b) = Some (p1, Some s)"
        and l: "batch_loop calloc (or_flags (put_coins p1 s (e_coins (b_entry b))) s COINS_CACHE_DIRTY) bs = Some (p', bs1, True)"
      using Cons.prems(3) by (auto simp: Let_def split: option.splits prod.splits)
    let ?p2 = "or_flags (put_coins p1 s (e_coins (b_entry b))) s COINS_CACHE_DIRTY"
    note ci = cache_insert_any [OF Cons.prems(1) i]
    note pc = put_coins_spec [OF ci(1,2), of "e_coins (b_entry b)"]
    note o = or_flags_spec [OF pc(1,2), of COINS_CACHE_DIRTY]
    have hb: "cc_hash_block ?p2 = cc_hash_block p"
      using i by (auto simp: or_flags_def put_coins_def Let_def cache_insert_def)
    have k2: "coin_at ?p2 k = (if k = b_txid b then e_coins (b_entry b) else coin_at p k)" for k
      unfolding o(3) pc(3) using ci(3) by simp
    have nb: "dirty bs (b_txid b) = None"
    proof -
      have "b_txid b \<notin> b_txid ` {c \<in> set bs. b_occupied c}" using Cons.prems(2) True by auto
      then show ?thesis by (auto simp: dirty_def map_of_eq_None_iff)
    qed
    note ih = Cons.IH [OF o(1) dis l]
    have "coin_at p' k = (case dirty (b # bs) k of None \<Rightarrow> coin_at p k | Some co \<Rightarrow> co)" for k
    proof (cases "k = b_txid b")
      case False
      then have "dirty (b # bs) k = dirty bs k" using True by (simp add: dirty_def)
      then show ?thesis using ih k2 [of k] False by (cases "dirty bs k") simp_all
    next
      case eq: True
      then show ?thesis using ih k2 [of k] nb True by (simp add: dirty_def)
    qed
    then show ?thesis using ih hb by simp
  qed
qed

lemma dirty_entries:
  assumes "wf_map m"
  shows "dirty (m_buckets m) k = (case entries m k of None \<Rightarrow> None
    | Some e \<Rightarrow> if e_flags e AND COINS_CACHE_DIRTY \<noteq> 0 then Some (e_coins e) else None)"
proof -
  let ?occ = "filter b_occupied (m_buckets m)"
  have "distinct (map b_txid ?occ)" using assms by (intro keys_distinct_filter) (simp add: wf_map_def)
  then have "map_of (map (\<lambda>b. (b_txid b, e_coins (b_entry b))) (filter (\<lambda>b. e_flags (b_entry b) AND COINS_CACHE_DIRTY \<noteq> 0) xs)) k =
      (case map_of (map (\<lambda>b. (b_txid b, b_entry b)) xs) k of None \<Rightarrow> None
       | Some e \<Rightarrow> if e_flags e AND COINS_CACHE_DIRTY \<noteq> 0 then Some (e_coins e) else None)" if "xs = ?occ" for xs
    using that
  proof -
    have "distinct (map b_txid xs) \<Longrightarrow> ?thesis"
      by (induction xs) (auto simp: map_of_eq_None_iff split: option.splits)
    then show ?thesis using that \<open>distinct (map b_txid ?occ)\<close> by simp
  qed
  from this [OF refl] show ?thesis unfolding dirty_def entries_def filter_filter .
qed

lemma batch_loop_succeeds:
  "wf_cache p \<Longrightarrow> table_memory calloc \<Longrightarrow> \<exists>p' bs'. batch_loop calloc p bs = Some (p', bs', True)"
proof (induction bs arbitrary: p)
  case (Cons b bs)
  obtain p1 s where i: "cache_insert calloc p (b_txid b) = Some (p1, Some s)"
    using insert_succeeds [of "cc_coins p" calloc "b_txid b"] Cons.prems
    by (auto simp: wf_cache_def table_memory_def cache_insert_def)
  let ?p2 = "or_flags (put_coins p1 s (e_coins (b_entry b))) s COINS_CACHE_DIRTY"
  note ci = cache_insert_any [OF Cons.prems(1) i]
  note pc = put_coins_spec [OF ci(1,2), of "e_coins (b_entry b)"]
  note o = or_flags_spec [OF pc(1,2), of COINS_CACHE_DIRTY]
  obtain q bs1 where "batch_loop calloc p bs = Some (q, bs1, True)" using Cons.IH [OF Cons.prems] by blast
  moreover obtain q2 bs2 where "batch_loop calloc ?p2 bs = Some (q2, bs2, True)" using Cons.IH [OF o(1) Cons.prems(2)] by blast
  ultimately show ?case using i by (simp add: Let_def)
qed simp

section \<open>Properties\<close>

text \<open>
  C5: disconnecting a block undoes connecting it. Let a block, one coinbase followed by other
  transactions, all with different txids of which no output is unspent, be applied to a cache, and
  let \<open>d\<close> be any cache that presents the resulting coins. Then \<^verbatim>\<open>disconnect_block\<close> with the undo data
  recorded on the way succeeds on \<open>d\<close>, gives every other transaction the record it had before,
  outputs and metadata included, leaves no output of the block's transactions, and sets the best block.
\<close>

theorem disconnect_undoes_connect:
  assumes "wf_cache c" "connect_txs sha256 skip calloc c txs h = Some (c', uss, True)"
    and "distinct (map tx_hash txs)" "\<forall>tx \<in> set txs. \<forall>n. avail (coin_at c (tx_hash tx)) n = None"
    and "txs \<noteq> []" "transaction_is_coinbase (hd txs)" "list_all (\<lambda>tx. \<not> transaction_is_coinbase tx) (tl txs)"
    and "heights_ok c" "is_int32 h" "table_memory calloc'" "wf_cache d" "coin_at d = coin_at c'"
  shows "\<exists>d'. disconnect_block calloc' txs (Some prev) d \<lparr>vtxundo = tl uss, old_sprout_tree_root = root\<rparr> = Some (d', True) \<and>
     (\<forall>k. coin_at d' k = (if k \<in> tx_hash ` set txs then coins_init else coin_at c k)) \<and> cc_hash_block d' = prev"
proof -
  have "unspent_free (tx_hash ` set txs) c" using assms(4) by (auto simp: unspent_free_def)
  note du = disconnect_undoes_connect_txs [OF assms(1-3) this assms(8-12)]
  have l: "length uss = length txs" using du by blast
  obtain d1 where d1: "disconnect_txs calloc' d (rev (zip txs (map2 undo_slot txs uss))) = Some (d1, True)"
      "agree (tx_hash ` set txs) c d1" "\<forall>k \<in> tx_hash ` set txs. coin_at d1 k = coins_init"
    using du by blast
  have "disconnect_block calloc' txs (Some prev) d \<lparr>vtxundo = tl uss, old_sprout_tree_root = root\<rparr> =
      Some (d1\<lparr>cc_hash_block := prev\<rparr>, True)"
    using d1(1) l assms(5) undo_slots [OF l assms(5-7)]
    by (simp add: disconnect_block_def coins_view_cache_set_best_block_def)
  moreover have "coin_at (d1\<lparr>cc_hash_block := prev\<rparr>) k = (if k \<in> tx_hash ` set txs then coins_init else coin_at c k)" for k
    using d1(2,3) by (auto simp: coin_at_best_block agree_def)
  ultimately show ?thesis by (intro exI [of _ "d1\<lparr>cc_hash_block := prev\<rparr>"]) simp
qed

text \<open>
  C12: flushing a cache into its parent keeps what the child presents. If the child's backing view
  presents the parent's unspent outputs, and so does every entry of the child that is not dirty, then
  after the flush the parent presents exactly the unspent outputs of the child, the child is empty
  and the parent is at the child's best block, unless that is null; with memory the flush succeeds.
\<close>

theorem flush_preserves_view:
  assumes "wf_cache c" "wf_cache p" "table_memory calloc"
    and "\<forall>k. avail (case coins_view_get_coins (cc_base c) k of None \<Rightarrow> coins_init | Some co \<Rightarrow> co) = avail (coin_at p k)"
    and "\<forall>k e. entries (cc_coins c) k = Some e \<and> e_flags e AND COINS_CACHE_DIRTY = 0 \<longrightarrow> avail (e_coins e) = avail (coin_at p k)"
  shows "\<exists>c' p'. coins_view_cache_flush_for_testing calloc c p = Some (c', p', True) \<and> wf_cache p' \<and>
     (\<forall>k. avail (coin_at p' k) = avail (coin_at c k)) \<and> cc_coins c' = coins_map_init \<and>
     cc_hash_block p' = (if uint256_is_null (cc_hash_block c) then cc_hash_block p else cc_hash_block c)"
proof -
  let ?bs = "m_buckets (cc_coins c)"
  obtain p1 bs' where b: "batch_loop calloc p ?bs = Some (p1, bs', True)"
    using batch_loop_succeeds [OF assms(2,3)] by blast
  have "distinct (map b_txid (filter b_occupied ?bs))"
    using assms(1) by (intro keys_distinct_filter) (simp add: wf_cache_def wf_map_def)
  note sp = batch_loop_spec [OF assms(2) this b]
  have d: "dirty ?bs k = (case entries (cc_coins c) k of None \<Rightarrow> None
      | Some e \<Rightarrow> if e_flags e AND COINS_CACHE_DIRTY \<noteq> 0 then Some (e_coins e) else None)" for k
    using assms(1) by (intro dirty_entries) (simp add: wf_cache_def)
  have v: "avail (coin_at p1 k) = avail (coin_at c k)" for k
  proof (cases "entries (cc_coins c) k")
    case None
    then have "coin_at p1 k = coin_at p k" using sp d [of k] by simp
    then show ?thesis using assms(4) None by (simp add: coin_at_def view_coins_def)
  next
    case (Some e)
    then have "avail (coin_at p1 k) = avail (e_coins e)" using sp d [of k] assms(5) by (simp split: if_splits)
    then show ?thesis using Some by (simp add: coin_at_def view_coins_def)
  qed
  define p2 where "p2 = (if uint256_is_null (cc_hash_block c) then p1 else p1\<lparr>cc_hash_block := cc_hash_block c\<rparr>)"
  define p3 where "p3 = p2\<lparr>cc_commitment := utxo_commitment_merge (cc_commitment p2) (cc_commitment c)\<rparr>"
  have "coins_view_cache_flush_for_testing calloc c p =
      Some (c\<lparr>cc_coins := coins_map_init, cc_commitment := utxo_commitment_init\<rparr>, p3, True)"
    by (simp add: coins_view_cache_flush_for_testing_def cvc_batch_write_def b p2_def p3_def)
  moreover have "wf_cache p3" using sp by (simp add: wf_cache_def p2_def p3_def)
  moreover have "coin_at p3 = coin_at p1"
    by (simp add: coin_at_def view_coins_def fun_eq_iff p2_def p3_def cong: option.case_cong)
  moreover have "cc_hash_block p3 = (if uint256_is_null (cc_hash_block c) then cc_hash_block p else cc_hash_block c)"
    using sp by (simp add: p2_def p3_def)
  ultimately show ?thesis using v by simp
qed

text \<open>A cache with one unspent output, a coinbase, and a transaction that spends the output.\<close>

definition sample_cache :: coins_view_cache where
  "sample_cache = \<lparr>cc_base = \<lparr>cv_get_coins = None, cv_have_coins = None, cv_get_best_block = None\<rparr>,
     cc_coins = \<lparr>m_buckets = [empty_bucket,
        \<lparr>b_txid = replicate 32 1, b_entry = \<lparr>e_coins = \<lparr>c_is_coinbase = False, c_vout = [\<lparr>out_value = 50, script_pub_key = [0x51]\<rparr>],
           c_height = 7, c_version = 1\<rparr>, e_flags = 0\<rparr>, b_occupied = True\<rparr>,
        empty_bucket, empty_bucket], m_size = 1\<rparr>,
     cc_hash_block = replicate 32 0, cc_usage = 0, cc_commitment = utxo_commitment_init\<rparr>"

definition sample_coinbase :: transaction where
  "sample_coinbase = transaction_init\<lparr>vin := [tx_in_init], vout := [\<lparr>out_value = 10, script_pub_key = [0x51]\<rparr>],
     tx_hash := replicate 32 2\<rparr>"

definition sample_spend :: transaction where
  "sample_spend = transaction_init\<lparr>vin := [tx_in_init\<lparr>prevout := \<lparr>op_hash = replicate 32 1, op_n = 0\<rparr>\<rparr>],
     vout := [\<lparr>out_value = 49, script_pub_key = [0x51]\<rparr>], tx_hash := replicate 32 3\<rparr>"

lemma sample_hash: "coins_map_hash (replicate 32 b) = foldl (\<lambda>v i. v OR push_bit (8 * i) (ucast b)) 0 [0..<8]"
  unfolding coins_map_hash_def by (rule foldl_cong) auto

lemma sample_hash_low:
  "coins_map_hash (replicate 32 1) = 0x101010101010101" "coins_map_hash (replicate 32 2) = 0x202020202020202"
  "coins_map_hash (replicate 32 3) = 0x303030303030303"
  unfolding sample_hash by (simp_all add: upt_rec)

lemma sample_probes:
  "probe 4 (replicate 32 1) = [1, 2, 3, 0]" "probe 4 (replicate 32 2) = [2, 3, 0, 1]" "probe 4 (replicate 32 3) = [3, 0, 1, 2]"
  by (simp_all add: probe_def sample_hash_low upt_rec)

lemma sample_wf: "wf_cache sample_cache"
proof -
  let ?bs = "m_buckets (cc_coins sample_cache)"
  have o: "occ ?bs s \<longleftrightarrow> s = 1" for s
    by (cases s; cases "s - 1"; cases "s - 2"; cases "s - 3") (auto simp: occ_def sample_cache_def empty_bucket_def)
  have "home 4 (replicate 32 1) = 1" by (simp add: home_def sample_hash_low)
  moreover have "length ?bs = 4" "b_txid (?bs ! 1) = replicate 32 1" by (simp_all add: sample_cache_def)
  ultimately have "way ?bs 1 1 = 0" unfolding way_def by simp
  then have "probed ?bs" by (simp add: probed_def o)
  moreover have "keys_distinct ?bs" by (simp add: keys_distinct_def o)
  moreover have "m_size (cc_coins sample_cache) = occ_count ?bs" by (simp add: occ_count_card o) (simp add: sample_cache_def)
  ultimately show ?thesis by (simp add: wf_cache_def wf_map_def)
qed


lemma sample_coins:
  "coin_at sample_cache (replicate 32 1) = \<lparr>c_is_coinbase = False, c_vout = [\<lparr>out_value = 50, script_pub_key = [0x51]\<rparr>], c_height = 7, c_version = 1\<rparr>"
  "k \<noteq> replicate 32 1 \<Longrightarrow> coin_at sample_cache k = coins_init"
  by (simp_all add: coin_at_def view_coins_def entries_def sample_cache_def empty_bucket_def coins_view_get_coins_def)

lemma sample_coinbases: "transaction_is_coinbase sample_coinbase" "\<not> transaction_is_coinbase sample_spend"
  by (simp_all add: transaction_is_coinbase_def sample_coinbase_def sample_spend_def tx_in_init_def outpoint_set_null_def
      outpoint_is_null_def uint256_is_null_def list_all_iff)

lemma sample_txids: "replicate 32 (1 :: u8) \<noteq> replicate 32 2" "replicate 32 (1 :: u8) \<noteq> replicate 32 3" "replicate 32 (2 :: u8) \<noteq> replicate 32 3"
  by (simp_all add: replicate_eq_replicate)

lemma sample_connects:
  "\<exists>c' uss. connect_txs (\<lambda>_. replicate 32 0) False (\<lambda>_ _. True) sample_cache [sample_coinbase, sample_spend] 9 = Some (c', uss, True)"
proof -
  let ?h = "\<lambda>_. replicate 32 (0 :: u8)" and ?m = "\<lambda>_ _. True"
  have mem: "all_memory ?m" by (simp add: all_memory_def)
  have out: "outputs_ok sample_coinbase" "outputs_ok sample_spend"
    by (simp_all add: outputs_ok_def sample_coinbase_def sample_spend_def MoneyRange_def)
  obtain c1 us1 where u1: "update_coins_with_undo ?h False ?m sample_coinbase sample_cache tx_undo_init 9 = Some (c1, us1, True)"
    using update_succeeds [OF sample_wf mem out(1)] sample_coinbases(1) by blast
  have cr: "create_outputs ?h False ?m sample_cache sample_coinbase 9 = Some (c1, True)"
    using u1 sample_coinbases(1) by (auto simp: update_coins_with_undo_def)
  note cs = create_outputs_spec [OF sample_wf cr]
  have "coin_at c1 (replicate 32 1) = coin_at sample_cache (replicate 32 1)"
    using cs(2) [of "replicate 32 1"] sample_txids by (simp add: sample_coinbase_def)
  then have "inputs_ok c1 (vin sample_spend)"
    by (simp add: inputs_ok_def sample_spend_def sample_coins avail_def tx_out_is_null_def MoneyRange_def)
  then obtain c2 us2 where "update_coins_with_undo ?h False ?m sample_spend c1 tx_undo_init 9 = Some (c2, us2, True)"
    using update_succeeds [OF cs(1) mem out(2)] by blast
  then show ?thesis using u1 by simp
qed

theorem disconnect_undoes_connect_witness:
  "\<exists>c' uss d'. connect_txs (\<lambda>_. replicate 32 0) False (\<lambda>_ _. True) sample_cache [sample_coinbase, sample_spend] 9 = Some (c', uss, True) \<and>
     disconnect_block (\<lambda>_ _. True) [sample_coinbase, sample_spend] (Some (replicate 32 5)) c'
       \<lparr>vtxundo = tl uss, old_sprout_tree_root = replicate 32 0\<rparr> = Some (d', True) \<and>
     coin_at d' (replicate 32 1) = coin_at sample_cache (replicate 32 1)"
proof -
  obtain c' uss where c: "connect_txs (\<lambda>_. replicate 32 0) False (\<lambda>_ _. True) sample_cache [sample_coinbase, sample_spend] 9 = Some (c', uss, True)"
    using sample_connects by blast
  have hs: "tx_hash sample_coinbase = replicate 32 2" "tx_hash sample_spend = replicate 32 3"
    by (simp_all add: sample_coinbase_def sample_spend_def)
  have un: "\<forall>tx \<in> set [sample_coinbase, sample_spend]. \<forall>n. avail (coin_at sample_cache (tx_hash tx)) n = None"
    using sample_txids by (simp add: hs sample_coins)
  have ht: "heights_ok sample_cache"
    unfolding heights_ok_def
  proof
    fix k
    show "is_int32 (c_height (coin_at sample_cache k))"
      by (cases "k = replicate 32 1") (simp_all add: sample_coins coins_init_def is_int32_def)
  qed
  have "\<exists>d'. disconnect_block (\<lambda>_ _. True) [sample_coinbase, sample_spend] (Some (replicate 32 5)) c'
       \<lparr>vtxundo = tl uss, old_sprout_tree_root = replicate 32 0\<rparr> = Some (d', True) \<and>
     (\<forall>k. coin_at d' k = (if k \<in> tx_hash ` set [sample_coinbase, sample_spend] then coins_init else coin_at sample_cache k)) \<and>
     cc_hash_block d' = replicate 32 5"
    by (rule disconnect_undoes_connect [OF sample_wf c _ un _ _ _ ht _ _ connect_txs_wf [OF sample_wf c] refl])
      (use sample_txids sample_coinbases in \<open>simp_all add: hs is_int32_def table_memory_def\<close>)
  then show ?thesis using c sample_txids hs by auto
qed

definition sample_child :: coins_view_cache where
  "sample_child = or_flags sample_cache 1 COINS_CACHE_DIRTY"

theorem flush_preserves_view_witness:
  "\<exists>c' p'. coins_view_cache_flush_for_testing (\<lambda>_ _. True) sample_child (sample_cache\<lparr>cc_coins := coins_map_init\<rparr>) = Some (c', p', True) \<and>
     avail (coin_at p' (replicate 32 1)) 0 = Some \<lparr>out_value = 50, script_pub_key = [0x51]\<rparr>"
proof -
  let ?p = "sample_cache\<lparr>cc_coins := coins_map_init\<rparr>"
  have h: "holds sample_cache 1 (replicate 32 1)" by (simp add: holds_def sample_cache_def)
  note o = or_flags_spec [OF sample_wf h, of COINS_CACHE_DIRTY, folded sample_child_def]
  have p: "coin_at ?p k = coins_init" for k
    by (simp add: coin_at_def view_coins_def coins_map_init_def entries_def sample_cache_def coins_view_get_coins_def)
  have e: "\<forall>k e. entries (cc_coins sample_child) k = Some e \<and> e_flags e AND COINS_CACHE_DIRTY = 0 \<longrightarrow>
      avail (e_coins e) = avail (coin_at ?p k)"
    by (auto simp: sample_child_def or_flags_def set_entry_def entry_at_def sample_cache_def entries_def empty_bucket_def split: if_splits)
  have wp: "wf_cache ?p" using table.wf_empty by (simp add: wf_cache_def)
  have b: "coins_view_get_coins (cc_base sample_child) k = None" for k
    by (simp add: sample_child_def or_flags_def sample_cache_def coins_view_get_coins_def Let_def)
  obtain c' p' where "coins_view_cache_flush_for_testing (\<lambda>_ _. True) sample_child ?p = Some (c', p', True)"
      "\<forall>k. avail (coin_at p' k) = avail (coin_at sample_child k)"
    using flush_preserves_view [OF o(1) wp _ _ e, of "\<lambda>_ _. True"] by (auto simp: table_memory_def p b)
  moreover have "avail (coin_at sample_child (replicate 32 1)) 0 = Some \<lparr>out_value = 50, script_pub_key = [0x51]\<rparr>"
    unfolding o(3) by (simp add: sample_coins avail_def tx_out_is_null_def)
  ultimately show ?thesis by auto
qed

end
