(* ===== verification/Utxo_Spec.thy ===== *)
theory Utxo_Spec
  imports Coins_View
begin

text \<open>
  What applying transactions means for the unspent outputs, as a function from txids to records, and
  that \<^verbatim>\<open>update_coins_with_undo\<close> on a cache implements it. The cache, its hash table, its backing store
  and the memory it allocates are gone from this description.
\<close>

section \<open>Specification\<close>

type_synonym utxo = "bytes \<Rightarrow> coins"

definition spec_spend :: "utxo \<Rightarrow> tx_in \<Rightarrow> (utxo \<times> tx_in_undo) option" where
  "spec_spend f i =
     (let k = op_hash (prevout i); n = unat (op_n (prevout i))
      in case avail (f k) n of
           None \<Rightarrow> None
         | Some out \<Rightarrow> if MoneyRange (out_value out) then Some (f(k := spent (f k) n), undo_of (f k) n tx_in_undo_init) else None)"

fun spec_spends :: "utxo \<Rightarrow> tx_in list \<Rightarrow> (utxo \<times> tx_undo) option" where
  "spec_spends f [] = Some (f, [])"
| "spec_spends f (i # is) =
     do { (f1, u) \<leftarrow> spec_spend f i; (f2, us) \<leftarrow> spec_spends f1 is; Some (f2, u # us) }"

definition tx_coins :: "transaction \<Rightarrow> int \<Rightarrow> coins" where
  "tx_coins tx h = coins_math_cleanup \<lparr>c_is_coinbase = transaction_is_coinbase tx,
     c_vout = map (\<lambda>out. if script_is_unspendable (script_pub_key out) then tx_out_set_null else out) (vout tx),
     c_height = h, c_version = tx_version tx\<rparr>"

definition spec_update :: "utxo \<Rightarrow> transaction \<Rightarrow> int \<Rightarrow> (utxo \<times> tx_undo) option" where
  "spec_update f tx h =
     do { (f1, us) \<leftarrow> (if transaction_is_coinbase tx then Some (f, []) else spec_spends f (vin tx));
          Some (f1(tx_hash tx := tx_coins tx h), us) }"

fun spec_connect :: "utxo \<Rightarrow> transaction list \<Rightarrow> int \<Rightarrow> (utxo \<times> tx_undo list) option" where
  "spec_connect f [] h = Some (f, [])"
| "spec_connect f (tx # txs) h =
     do { (f1, us) \<leftarrow> spec_update f tx h; (f2, uss) \<leftarrow> spec_connect f1 txs h; Some (f2, us # uss) }"

section \<open>The cache implements it\<close>

lemma spend_refines:
  assumes "wf_cache c" "spend_input sha256 skip calloc c i tx_in_undo_init = Some (c', u, True)"
  shows "spec_spend (coin_at c) i = Some (coin_at c', u)" "wf_cache c'"
  using spend_input_spec [OF assms] by (auto simp: spec_spend_def Let_def)

lemma spends_refine:
  "wf_cache c \<Longrightarrow> spend_inputs sha256 skip calloc c is us = Some (c', us', True) \<Longrightarrow> us = replicate (length is) tx_in_undo_init \<Longrightarrow>
   spec_spends (coin_at c) is = Some (coin_at c', us') \<and> wf_cache c'"
proof (induction "is" arbitrary: c us us')
  case (Cons i "is")
  then obtain c1 u1 us1 where s: "spend_input sha256 skip calloc c i tx_in_undo_init = Some (c1, u1, True)"
      "spend_inputs sha256 skip calloc c1 is (replicate (length is) tx_in_undo_init) = Some (c', us1, True)" "us' = u1 # us1"
    by (auto split: option.splits prod.splits if_splits)
  note r = spend_refines [OF Cons.prems(1) s(1)]
  from Cons.IH [OF r(2) s(2) refl] r(1) s(3) show ?case by simp
qed simp

lemma from_transaction_coins: "coins_from_transaction calloc co0 tx h = (co, True) \<Longrightarrow> co = tx_coins tx h"
  by (cases co0) (auto simp: coins_from_transaction_def coins_alloc_def coins_free_def tx_coins_def Let_def split: if_splits prod.splits)

lemma create_refines:
  assumes "wf_cache c" "create_outputs sha256 skip calloc c tx h = Some (c', True)"
  shows "coin_at c' = (coin_at c)(tx_hash tx := tx_coins tx h)" "wf_cache c'"
  using create_outputs_spec [OF assms] from_transaction_coins by (auto simp: fun_eq_iff)

lemma update_refines:
  assumes wf: "wf_cache c" and up: "update_coins_with_undo sha256 skip calloc tx c tx_undo_init h = Some (c', us, True)"
  shows "spec_update (coin_at c) tx h = Some (coin_at c', us) \<and> wf_cache c'"
proof (cases "transaction_is_coinbase tx")
  case True
  then have "create_outputs sha256 skip calloc c tx h = Some (c', True)" "us = []"
    using up by (auto simp: update_coins_with_undo_def tx_undo_init_def)
  then show ?thesis using create_refines [OF wf] True by (simp add: spec_update_def)
next
  case False
  then obtain us0 c1 where al: "tx_undo_alloc calloc (length (vin tx)) = Some us0"
      and sp: "spend_inputs sha256 skip calloc c (vin tx) us0 = Some (c1, us, True)"
      and cr: "create_outputs sha256 skip calloc c1 tx h = Some (c', True)"
    using up by (auto simp: update_coins_with_undo_def split: option.splits prod.splits if_splits)
  have "us0 = replicate (length (vin tx)) tx_in_undo_init" using al by (auto simp: tx_undo_alloc_def split: if_splits)
  from spends_refine [OF wf sp this] have s: "spec_spends (coin_at c) (vin tx) = Some (coin_at c1, us)" "wf_cache c1" by simp_all
  then show ?thesis using create_refines [OF s(2) cr] False by (simp add: spec_update_def)
qed

section \<open>Running the specification on a cache\<close>

definition at_outpoint :: "utxo \<Rightarrow> outpoint \<Rightarrow> tx_out option" where
  "at_outpoint f op = avail (f (op_hash op)) (unat (op_n op))"

lemma spec_spend_outputs:
  assumes "spec_spend f i = Some (f', u)"
  shows "at_outpoint f (prevout i) = Some (u_txout u)" "MoneyRange (out_value (u_txout u))"
    "at_outpoint f' = (at_outpoint f)(prevout i := None)"
proof -
  obtain out where o: "avail (f (op_hash (prevout i))) (unat (op_n (prevout i))) = Some out" "MoneyRange (out_value out)"
      "f' = f(op_hash (prevout i) := spent (f (op_hash (prevout i))) (unat (op_n (prevout i))))"
      "u = undo_of (f (op_hash (prevout i))) (unat (op_n (prevout i))) tx_in_undo_init"
    using assms by (auto simp: spec_spend_def Let_def split: option.splits if_splits)
  then have "out = c_vout (f (op_hash (prevout i))) ! unat (op_n (prevout i))" and n: "unat (op_n (prevout i)) < length (c_vout (f (op_hash (prevout i))))"
    by (auto simp: avail_def split: if_splits)
  then show "at_outpoint f (prevout i) = Some (u_txout u)" "MoneyRange (out_value (u_txout u))"
    using o by (auto simp: at_outpoint_def undo_of_def)
  show "at_outpoint f' = (at_outpoint f)(prevout i := None)"
    using n by (auto simp: at_outpoint_def o(3) avail_spent fun_eq_iff word_unat_eq_iff intro!: outpoint.equality)
qed

lemma spec_spends_outputs:
  "spec_spends f is = Some (f', us) \<Longrightarrow>
   distinct (map prevout is) \<and> map (at_outpoint f \<circ> prevout) is = map (Some \<circ> u_txout) us \<and>
   list_all (\<lambda>u. MoneyRange (out_value (u_txout u))) us"
proof (induction "is" arbitrary: f us)
  case (Cons i "is")
  obtain f1 u us1 where s: "spec_spend f i = Some (f1, u)" "spec_spends f1 is = Some (f', us1)" "us = u # us1"
    using Cons.prems by (auto split: bind_splits)
  note o = spec_spend_outputs [OF s(1)] and IH = Cons.IH [OF s(2)]
  have new: "prevout i \<notin> prevout ` set is"
  proof
    assume "prevout i \<in> prevout ` set is"
    then have "None \<in> set (map (at_outpoint f1 \<circ> prevout) is)" using o(3) by (force simp: image_iff)
    then show False using IH by (simp only: set_map) auto
  qed
  then have "map (at_outpoint f1 \<circ> prevout) is = map (at_outpoint f \<circ> prevout) is" using o(3) by (auto simp: image_iff)
  then have "map (at_outpoint f \<circ> prevout) is = map (Some \<circ> u_txout) us1" using IH by (metis (no_types))
  then show ?case using IH o(1,2) new s(3) by (simp add: comp_def)
qed simp

lemma spec_spends_ok:
  assumes "spec_spends (coin_at c) is = Some (f', us)"
  shows "inputs_ok c is"
proof -
  have "\<exists>out. at_outpoint (coin_at c) (prevout i) = Some out \<and> MoneyRange (out_value out)" if "i \<in> set is" for i
  proof -
    have "at_outpoint (coin_at c) (prevout i) \<in> set (map (at_outpoint (coin_at c) \<circ> prevout) is)" using that by simp
    then show ?thesis using spec_spends_outputs [OF assms] by (auto simp: list_all_iff simp del: list.set_map simp add: set_map)
  qed
  then show ?thesis using spec_spends_outputs [OF assms] by (simp add: inputs_ok_def at_outpoint_def)
qed

lemma spec_update_runs:
  assumes wf: "wf_cache c" and mem: "all_memory calloc" and sp: "spec_update (coin_at c) tx h = Some (f', us)" and o: "outputs_ok tx"
  shows "\<exists>c'. update_coins_with_undo sha256 skip calloc tx c tx_undo_init h = Some (c', us, True) \<and> wf_cache c' \<and> coin_at c' = f'"
proof -
  have "transaction_is_coinbase tx \<or> inputs_ok c (vin tx)"
    using sp spec_spends_ok by (auto simp: spec_update_def split: bind_splits if_splits)
  then obtain c' us' where up: "update_coins_with_undo sha256 skip calloc tx c tx_undo_init h = Some (c', us', True)"
    using update_succeeds [OF wf mem o, of sha256 skip tx_undo_init h] by auto
  from update_refines [OF wf up] sp up show ?thesis by auto
qed

section \<open>Places and records\<close>

text \<open>A null output, with an empty script, is at this place.\<close>

definition null_at :: "utxo \<Rightarrow> outpoint \<Rightarrow> bool" where
  "null_at f op \<longleftrightarrow> unat (op_n op) < length (c_vout (f (op_hash op))) \<and> c_vout (f (op_hash op)) ! unat (op_n op) = tx_out_set_null"

text \<open>What spending keeps of a record, and no available output at all.\<close>

definition tag_at :: "utxo \<Rightarrow> bytes \<Rightarrow> bool \<times> int" where
  "tag_at f k = (c_is_coinbase (f k), c_height (f k))"

definition unused :: "utxo \<Rightarrow> bytes \<Rightarrow> bool" where
  "unused f k \<longleftrightarrow> (\<forall>n. avail (f k) n = None)"

lemma spec_spend_places:
  assumes "spec_spend f i = Some (f', u)"
  shows "null_at f' (prevout i)" "null_at f op \<Longrightarrow> null_at f' op" "tag_at f' = tag_at f"
    "unused f k \<Longrightarrow> f' k = f k \<and> k \<noteq> op_hash (prevout i)"
proof -
  let ?k = "op_hash (prevout i)" and ?n = "unat (op_n (prevout i))"
  obtain out where o: "avail (f ?k) ?n = Some out" "f' = f(?k := spent (f ?k) ?n)"
    using assms by (auto simp: spec_spend_def Let_def split: option.splits if_splits)
  then have "?n < length (c_vout (f ?k))" by (auto simp: avail_def split: if_splits)
  then show "null_at f' (prevout i)" by (simp add: null_at_def o(2) spent_def)
  show "null_at f op \<Longrightarrow> null_at f' op"
    by (cases "unat (op_n op) = ?n") (auto simp: null_at_def o(2) spent_def)
  show "tag_at f' = tag_at f" by (auto simp: tag_at_def fun_eq_iff o(2) spent_def)
  show "unused f k \<Longrightarrow> f' k = f k \<and> k \<noteq> ?k" using o by (auto simp: unused_def)
qed

lemma spec_spends_places:
  assumes "spec_spends f is = Some (f', us)"
  shows "\<forall>op. null_at f op \<or> op \<in> prevout ` set is \<longrightarrow> null_at f' op" "tag_at f' = tag_at f"
    "\<forall>k. unused f k \<longrightarrow> f' k = f k \<and> k \<notin> (op_hash \<circ> prevout) ` set is"
proof -
  have "(\<forall>op. null_at f op \<or> op \<in> prevout ` set is \<longrightarrow> null_at f' op) \<and> tag_at f' = tag_at f \<and>
    (\<forall>k. unused f k \<longrightarrow> f' k = f k \<and> k \<notin> (op_hash \<circ> prevout) ` set is)"
    using assms
  proof (induction "is" arbitrary: f us)
    case (Cons i "is")
    obtain f1 u us1 where s: "spec_spend f i = Some (f1, u)" "spec_spends f1 is = Some (f', us1)"
      using Cons.prems by (auto split: bind_splits)
    note p = spec_spend_places [OF s(1)]
    have "unused f k \<Longrightarrow> unused f1 k" for k using p(4) [of k] by (simp add: unused_def)
    then show ?case using Cons.IH [OF s(2)] p by auto
  qed simp
  then show "\<forall>op. null_at f op \<or> op \<in> prevout ` set is \<longrightarrow> null_at f' op" "tag_at f' = tag_at f"
    "\<forall>k. unused f k \<longrightarrow> f' k = f k \<and> k \<notin> (op_hash \<circ> prevout) ` set is" by blast+
qed

lemma spec_update_new: "spec_update f tx h = Some (f', us) \<Longrightarrow> f' (tx_hash tx) = tx_coins tx h"
  unfolding spec_update_def by (clarsimp split: bind_splits)

lemma spec_update_places:
  assumes "spec_update f tx h = Some (f', us)"
  shows "null_at f op \<Longrightarrow> op_hash op \<noteq> tx_hash tx \<Longrightarrow> null_at f' op"
    "k \<noteq> tx_hash tx \<Longrightarrow> tag_at f' k = tag_at f k" "tag_at f' (tx_hash tx) = (transaction_is_coinbase tx, h)"
    "unused f k \<Longrightarrow> k \<noteq> tx_hash tx \<Longrightarrow> f' k = f k"
    "\<not> transaction_is_coinbase tx \<Longrightarrow> i \<in> set (vin tx) \<Longrightarrow> unused f (tx_hash tx) \<Longrightarrow> null_at f' (prevout i)"
    "\<not> transaction_is_coinbase tx \<Longrightarrow> i \<in> set (vin tx) \<Longrightarrow> unused f k \<Longrightarrow> op_hash (prevout i) \<noteq> k"
proof -
  obtain f1 where f1: "(if transaction_is_coinbase tx then Some (f, []) else spec_spends f (vin tx)) = Some (f1, us)"
      and f': "f' = f1(tx_hash tx := tx_coins tx h)"
    using assms by (auto simp: spec_update_def split: bind_splits)
  have p: "\<forall>op. null_at f op \<longrightarrow> null_at f1 op" "tag_at f1 = tag_at f" "\<forall>k. unused f k \<longrightarrow> f1 k = f k"
    using f1 spec_spends_places [of f "vin tx" f1 us] by (auto split: if_splits)
  show n: "null_at f op \<Longrightarrow> op_hash op \<noteq> tx_hash tx \<Longrightarrow> null_at f' op" using p(1) by (simp add: f' null_at_def)
  show "k \<noteq> tx_hash tx \<Longrightarrow> tag_at f' k = tag_at f k" using p(2) by (simp add: f' tag_at_def fun_eq_iff)
  show "tag_at f' (tx_hash tx) = (transaction_is_coinbase tx, h)" by (simp add: f' tag_at_def tx_coins_def coins_math_cleanup_def)
  show "unused f k \<Longrightarrow> k \<noteq> tx_hash tx \<Longrightarrow> f' k = f k" using p(3) by (simp add: f')
  assume nc: "\<not> transaction_is_coinbase tx" and i: "i \<in> set (vin tx)"
  then have s: "null_at f1 (prevout i)" "unused f k \<Longrightarrow> op_hash (prevout i) \<noteq> k" for k
    using f1 spec_spends_places [of f "vin tx" f1 us] by auto
  show "unused f k \<Longrightarrow> op_hash (prevout i) \<noteq> k" by (rule s(2))
  show "unused f (tx_hash tx) \<Longrightarrow> null_at f' (prevout i)" using s(1) s(2) [of "tx_hash tx"] by (simp add: f' null_at_def)
qed

lemma spec_connect_nulls:
  "spec_connect f txs h = Some (f', uss) \<Longrightarrow> distinct (map tx_hash txs) \<Longrightarrow> \<forall>tx \<in> set txs. unused f (tx_hash tx) \<Longrightarrow>
   (\<forall>op. null_at f op \<and> op_hash op \<notin> tx_hash ` set txs \<longrightarrow> null_at f' op) \<and>
   (\<forall>tx \<in> set txs. \<not> transaction_is_coinbase tx \<longrightarrow> (\<forall>i \<in> set (vin tx). null_at f' (prevout i)))"
proof (induction txs arbitrary: f uss)
  case (Cons tx txs)
  obtain f1 us uss1 where s: "spec_update f tx h = Some (f1, us)" "spec_connect f1 txs h = Some (f', uss1)"
    using Cons.prems(1) by (auto split: bind_splits)
  note p = spec_update_places [OF s(1)]
  have "unused f1 (tx_hash t)" if "t \<in> set txs" for t
  proof -
    have "tx_hash t \<noteq> tx_hash tx" using that Cons.prems(2) by (auto simp: image_iff)
    then have "f1 (tx_hash t) = f (tx_hash t)" using p(4) Cons.prems(3) that by simp
    then show ?thesis using Cons.prems(3) that by (simp add: unused_def)
  qed
  then have ih: "(\<forall>op. null_at f1 op \<and> op_hash op \<notin> tx_hash ` set txs \<longrightarrow> null_at f' op) \<and>
      (\<forall>t \<in> set txs. \<not> transaction_is_coinbase t \<longrightarrow> (\<forall>i \<in> set (vin t). null_at f' (prevout i)))"
    using Cons.IH [OF s(2)] Cons.prems(2) by simp
  have "null_at f' (prevout i)" if "\<not> transaction_is_coinbase tx" "i \<in> set (vin tx)" for i
  proof -
    have "op_hash (prevout i) \<notin> tx_hash ` set txs" using p(6) [OF that] Cons.prems(3) by (metis imageE list.set_intros(2))
    then show ?thesis using ih p(5) [OF that] Cons.prems(3) by simp
  qed
  moreover have "null_at f' op" if "null_at f op" "op_hash op \<notin> tx_hash ` set (tx # txs)" for op
    using ih p(1) [OF that(1)] that(2) by simp
  ultimately show ?case using ih by simp
qed simp

section \<open>Lookups\<close>

text \<open>A lookup may load a record into the table; it changes nothing of what the cache presents.\<close>

definition loaded :: "coins_view_cache \<Rightarrow> bytes set" where
  "loaded c = dom (entries (cc_coins c))"

abbreviation same_view :: "coins_view_cache \<Rightarrow> coins_view_cache \<Rightarrow> bool" where
  "same_view c c' \<equiv> wf_cache c' \<and> coin_at c' = coin_at c \<and> loaded c \<subseteq> loaded c'"

definition reads :: "(coins_view_cache \<Rightarrow> (coins_view_cache \<times> 'a) option) \<Rightarrow> bool" where
  "reads q \<longleftrightarrow> (\<forall>c c' x. wf_cache c \<and> q c = Some (c', x) \<longrightarrow> same_view c c')"

lemma cache_insert_fails:
  assumes wf: "wf_cache c" and i: "cache_insert calloc c k = Some (c', None)"
  shows "same_view c c'"
proof -
  have c': "c' = c\<lparr>cc_coins := coins_map_grow calloc (cc_coins c)\<rparr>"
    using i by (auto simp: cache_insert_def coins_map_insert_def Let_def split: option.splits if_splits)
  have g: "wf_map (coins_map_grow calloc (cc_coins c))" "entries (coins_map_grow calloc (cc_coins c)) = entries (cc_coins c)"
    using grow_wf [of "cc_coins c" calloc] wf by (simp_all add: wf_cache_def)
  have "coin_at c' = coin_at c" by (rule ext) (simp add: coin_at_def view_coins_def c' g(2) cong: option.case_cong)
  then show ?thesis using g by (simp add: wf_cache_def loaded_def c')
qed

text \<open>Filling a record that was not in the table with what the store holds.\<close>

lemma load_spec:
  fixes fl :: u8
  assumes wf: "wf_cache c" and new: "coins_map_find (cc_coins c) k = None" and b: "coins_view_get_coins (cc_base c) k = Some co"
    and i: "cache_insert calloc c k = Some (c1, Some s)"
  defines "c' \<equiv> c1\<lparr>cc_coins := set_entry (cc_coins c1) s \<lparr>e_coins = co, e_flags = fl\<rparr>\<rparr>"
  shows "same_view c c'" "k \<in> loaded c'"
proof -
  have e: "entries (cc_coins c) k = None" by (rule find_cases(2) [OF wf new])
  note ci = cache_insert_spec [OF wf i e]
  note se = set_entry_cache [OF ci(1,2), of "\<lparr>e_coins = co, e_flags = fl\<rparr>", folded c'_def]
  have "coin_at c k = co" by (simp add: coin_at_def view_coins_def e b)
  then have "coin_at c' = coin_at c" using se(3) ci(4) by (simp add: fun_upd_idem)
  then show "same_view c c'" "k \<in> loaded c'" using se(1,5) ci(5) by (auto simp: loaded_def)
qed

lemma get_coins_reads: "reads (\<lambda>c. coins_view_cache_get_coins calloc c k)"
proof (unfold reads_def, intro allI impI, elim conjE)
  fix c c' x
  assume wf: "wf_cache c" and g: "coins_view_cache_get_coins calloc c k = Some (c', x)"
  have "same_view c (put_coins c1 s co)"
    if "coins_map_find (cc_coins c) k = None" "coins_view_get_coins (cc_base c) k = Some co" "cache_insert calloc c k = Some (c1, Some s)" for c1 s co
  proof -
    have "put_coins c1 s co = c1\<lparr>cc_coins := set_entry (cc_coins c1) s \<lparr>e_coins = co, e_flags = e_flags (entry_at (cc_coins c1) s)\<rparr>\<rparr>"
      by (cases "entry_at (cc_coins c1) s") (simp add: put_coins_def)
    then show ?thesis using load_spec(1) [OF wf that] by simp
  qed
  note load = this
  show "same_view c c'"
  proof (cases "coins_map_find (cc_coins c) k")
    case None
    note none = None
    show ?thesis
    proof (cases "coins_view_get_coins (cc_base c) k")
      case None
      then show ?thesis using g wf none by (simp add: coins_view_cache_get_coins_def)
    next
      case (Some co)
      then obtain c1 r where i: "cache_insert calloc c k = Some (c1, r)" "r = None \<Longrightarrow> c' = c1" "\<And>s. r = Some s \<Longrightarrow> c' = put_coins c1 s co"
        using g none by (auto simp: coins_view_cache_get_coins_def split: option.splits)
      show ?thesis using i load [OF none Some] cache_insert_fails [OF wf, of calloc k c1] by (cases r) simp_all
    qed
  qed (use g wf in \<open>simp add: coins_view_cache_get_coins_def Let_def\<close>)
qed

lemma get_output_for_spec:
  assumes wf: "wf_cache c" and g: "coins_view_cache_get_output_for calloc c i = Some (c', x)"
  shows "same_view c c'" "x = Some out \<Longrightarrow> at_outpoint (coin_at c) (prevout i) = Some out \<and> op_hash (prevout i) \<in> loaded c'"
proof -
  have "same_view c c' \<and> (\<forall>out. x = Some out \<longrightarrow> at_outpoint (coin_at c) (prevout i) = Some out \<and> op_hash (prevout i) \<in> loaded c')"
  proof (cases "coins_map_find (cc_coins c) (op_hash (prevout i))")
    case (Some s)
    note h = find_cases(1) [OF wf Some]
    have "coin_at c (op_hash (prevout i)) = e_coins (entry_at (cc_coins c) s)" "op_hash (prevout i) \<in> loaded c"
      using holds_coin [OF wf h] holds_entries [OF wf h] by (auto simp: loaded_def)
    then show ?thesis using g wf Some
      by (auto simp: coins_view_cache_get_output_for_def at_outpoint_def avail_def Let_def)
  next
    case None
    note none = None
    show ?thesis
    proof (cases "coins_view_get_coins (cc_base c) (op_hash (prevout i))")
      case None
      then show ?thesis using g wf none by (simp add: coins_view_cache_get_output_for_def)
    next
      case (Some co)
      have co: "coin_at c (op_hash (prevout i)) = co" using find_cases(2) [OF wf none] Some by (simp add: coin_at_def view_coins_def)
      obtain c1 r where i: "cache_insert calloc c (op_hash (prevout i)) = Some (c1, r)"
        using g none Some by (auto simp: coins_view_cache_get_output_for_def Let_def split: option.splits)
      show ?thesis
      proof (cases r)
        case None
        then show ?thesis using g none Some i cache_insert_fails [OF wf, of calloc "op_hash (prevout i)" c1]
          by (simp add: coins_view_cache_get_output_for_def)
      next
        case (Some s)
        note l = load_spec [OF wf none \<open>coins_view_get_coins _ _ = Some co\<close>, of calloc c1 s 0]
        have "x = avail co (unat (op_n (prevout i)))" "c' = c1\<lparr>cc_coins := set_entry (cc_coins c1) s \<lparr>e_coins = co, e_flags = 0\<rparr>\<rparr>"
          using g none \<open>coins_view_get_coins _ _ = Some co\<close> i Some
          by (auto simp: coins_view_cache_get_output_for_def avail_def Let_def split: if_splits)
        then show ?thesis using l i Some co by (simp add: at_outpoint_def)
      qed
    qed
  qed
  then show "same_view c c'" "x = Some out \<Longrightarrow> at_outpoint (coin_at c) (prevout i) = Some out \<and> op_hash (prevout i) \<in> loaded c'" by auto
qed

lemma get_output_for_reads: "reads (\<lambda>c. coins_view_cache_get_output_for calloc c i)"
  using get_output_for_spec(1) unfolding reads_def by blast

lemma readsD: "reads q \<Longrightarrow> wf_cache c \<Longrightarrow> q c = Some (c', x) \<Longrightarrow> same_view c c'"
  unfolding reads_def by blast

lemma readsI: "(\<And>c c' x. wf_cache c \<Longrightarrow> q c = Some (c', x) \<Longrightarrow> same_view c c') \<Longrightarrow> reads q"
  unfolding reads_def by blast

lemma have_inputs_loop_reads: "wf_cache c \<Longrightarrow> have_inputs_loop calloc c is = Some (c', x) \<Longrightarrow> same_view c c'"
proof (induction "is" arbitrary: c)
  case (Cons i "is")
  then obtain c1 r where g: "coins_view_cache_get_output_for calloc c i = Some (c1, r)" by (auto split: option.splits)
  note s = get_output_for_spec [OF Cons.prems(1) g]
  then show ?case using Cons g by (cases r) auto
qed simp

lemma have_inputs_reads: "reads (\<lambda>c. coins_view_cache_have_inputs calloc c tx)"
  by (rule readsI) (auto simp: coins_view_cache_have_inputs_def dest: have_inputs_loop_reads split: if_splits)

text \<open>The value of the inputs is the total of the outputs they point to.\<close>

definition value_at :: "utxo \<Rightarrow> outpoint \<Rightarrow> int" where
  "value_at f op = (case at_outpoint f op of None \<Rightarrow> 0 | Some out \<Rightarrow> out_value out)"

lemma value_in_loop_spec:
  "wf_cache c \<Longrightarrow> value_in_loop calloc c acc is = Some (c', r) \<Longrightarrow>
   same_view c c' \<and>
   (\<forall>v. r = Some v \<longrightarrow> v = acc + sum_list (map (value_at (coin_at c) \<circ> prevout) is))"
proof (induction "is" arbitrary: c acc)
  case (Cons i "is")
  then obtain c1 o1 where g: "coins_view_cache_get_output_for calloc c i = Some (c1, o1)" by (auto split: option.splits)
  note s = get_output_for_spec [OF Cons.prems(1) g]
  show ?case
  proof (cases o1)
    case None
    then show ?thesis using Cons.prems g s by simp
  next
    case (Some out)
    then have v: "value_at (coin_at c) (prevout i) = out_value out" using s by (simp add: value_at_def split: option.splits)
    show ?thesis
    proof (cases "MoneyRange (out_value out) \<and> (\<exists>a. ck64 (acc + out_value out) = Some a \<and> MoneyRange a)")
      case True
      then obtain a where a: "ck64 (acc + out_value out) = Some a" "MoneyRange a" by blast
      then have "value_in_loop calloc c1 a is = Some (c', r)" using Cons.prems(2) g Some True by simp
      moreover have "a = acc + out_value out" using a by (simp add: ck64_def split: if_splits)
      ultimately show ?thesis using Cons.IH [of c1 a] s v by (auto simp: add.assoc)
    next
      case False
      then have "c' = c1" "r = None" using Cons.prems(2) g Some by (auto split: option.splits if_splits)
      then show ?thesis using s by simp
    qed
  qed
qed auto

lemma add_range_spec: "add_range acc vs = Some (Some t) \<Longrightarrow> t = acc + sum_list vs"
  by (induction acc vs rule: add_range.induct) (auto simp: ck64_def split: option.splits if_splits)

definition shielded_in :: "transaction \<Rightarrow> int" where
  "shielded_in tx = (if value_balance tx \<ge> 0 then value_balance tx else 0) + sum_list (map vpub_new (v_joinsplit tx))"

lemma get_value_in_spec:
  assumes wf: "wf_cache c" and g: "coins_view_cache_get_value_in calloc c tx = Some (c', v)"
  shows "same_view c c'"
    "\<not> transaction_is_coinbase tx \<Longrightarrow> 0 \<le> v \<Longrightarrow> v = sum_list (map (value_at (coin_at c) \<circ> prevout) (vin tx)) + shielded_in tx"
proof -
  have "same_view c c' \<and> (\<not> transaction_is_coinbase tx \<and> 0 \<le> v \<longrightarrow>
      v = sum_list (map (value_at (coin_at c) \<circ> prevout) (vin tx)) + shielded_in tx)"
  proof (cases "transaction_is_coinbase tx")
    case True
    then show ?thesis using g wf by (simp add: coins_view_cache_get_value_in_def)
  next
    case False
    let ?vs = "(if value_balance tx \<ge> 0 then [value_balance tx] else []) @ map vpub_new (v_joinsplit tx)"
    obtain c1 r where l: "value_in_loop calloc c 0 (vin tx) = Some (c1, r)"
      using g False by (auto simp: coins_view_cache_get_value_in_def split: bind_splits)
    note sp = value_in_loop_spec [OF wf l]
    show ?thesis
    proof (cases r)
      case None
      then show ?thesis using g False l sp by (simp add: coins_view_cache_get_value_in_def)
    next
      case (Some acc)
      then obtain t where t: "add_range acc ?vs = Some t" "c' = c1" "v = (case t of None \<Rightarrow> -1 | Some v \<Rightarrow> v)"
        using g False l by (simp add: coins_view_cache_get_value_in_def split: bind_splits)
      then have "v = acc + sum_list ?vs" if "0 \<le> v" using that add_range_spec [of acc ?vs v] by (cases t) simp_all
      then show ?thesis using sp Some t(2) by (cases "0 \<le> value_balance tx") (simp_all add: shielded_in_def)
    qed
  qed
  then show "same_view c c'"
    "\<not> transaction_is_coinbase tx \<Longrightarrow> 0 \<le> v \<Longrightarrow> v = sum_list (map (value_at (coin_at c) \<circ> prevout) (vin tx)) + shielded_in tx" by blast+
qed

subsection \<open>With memory, lookups succeed\<close>

lemma load_succeeds:
  assumes wf: "wf_cache c" and mem: "table_memory calloc"
  shows "\<exists>c1 s. cache_insert calloc c k = Some (c1, Some s)"
  using insert_succeeds [of "cc_coins c" calloc k] wf mem by (auto simp: wf_cache_def table_memory_def cache_insert_def)

lemma get_output_for_runs:
  assumes wf: "wf_cache c" and mem: "table_memory calloc"
  shows "\<exists>c'. coins_view_cache_get_output_for calloc c i = Some (c', at_outpoint (coin_at c) (prevout i)) \<and> same_view c c' \<and>
     (at_outpoint (coin_at c) (prevout i) \<noteq> None \<longrightarrow> op_hash (prevout i) \<in> loaded c')"
proof -
  have "\<exists>c'. coins_view_cache_get_output_for calloc c i = Some (c', at_outpoint (coin_at c) (prevout i))"
  proof (cases "coins_map_find (cc_coins c) (op_hash (prevout i))")
    case (Some s)
    then show ?thesis using holds_coin [OF wf find_cases(1) [OF wf Some]]
      by (auto simp: coins_view_cache_get_output_for_def at_outpoint_def avail_def Let_def)
  next
    case None
    then have "coin_at c (op_hash (prevout i)) = (case coins_view_get_coins (cc_base c) (op_hash (prevout i)) of None \<Rightarrow> coins_init | Some co \<Rightarrow> co)"
      using find_cases(2) [OF wf] by (simp add: coin_at_def view_coins_def)
    then show ?thesis using None load_succeeds [OF wf mem, of "op_hash (prevout i)"]
      by (auto simp: coins_view_cache_get_output_for_def at_outpoint_def Let_def split: option.splits) (auto simp: avail_def)
  qed
  then show ?thesis using get_output_for_spec [OF wf] by blast
qed

lemma get_coins_runs:
  assumes wf: "wf_cache c" and mem: "table_memory calloc"
  shows "\<exists>c' r. coins_view_cache_get_coins calloc c k = Some (c', r) \<and> same_view c c' \<and>
     (\<not> unused (coin_at c) k \<longrightarrow> (\<exists>co. r = Some co \<and> tag_at (coin_at c) k = (c_is_coinbase co, c_height co))) \<and>
     (unused (coin_at c) k \<longrightarrow> r = None)"
proof -
  have cp: "c_is_coinbase (coins_copy calloc co) = c_is_coinbase co" "c_height (coins_copy calloc co) = c_height co" for co
    by (simp_all add: coins_copy_def)
  have pr: "coins_is_pruned (Some (coin_at c k)) \<longleftrightarrow> unused (coin_at c) k" by (simp add: is_pruned_avail unused_def)
  have "\<exists>c' r. coins_view_cache_get_coins calloc c k = Some (c', r) \<and>
     (\<not> unused (coin_at c) k \<longrightarrow> (\<exists>co. r = Some co \<and> tag_at (coin_at c) k = (c_is_coinbase co, c_height co))) \<and>
     (unused (coin_at c) k \<longrightarrow> r = None)"
  proof (cases "coins_map_find (cc_coins c) k")
    case (Some s)
    then show ?thesis using pr holds_coin [OF wf find_cases(1) [OF wf Some]]
      by (simp add: coins_view_cache_get_coins_def Let_def tag_at_def cp)
  next
    case None
    note none = None
    have at: "coin_at c k = (case coins_view_get_coins (cc_base c) k of None \<Rightarrow> coins_init | Some co \<Rightarrow> co)"
      by (simp add: coin_at_def view_coins_def find_cases(2) [OF wf none])
    show ?thesis
    proof (cases "coins_view_get_coins (cc_base c) k")
      case None
      then show ?thesis using at none by (simp add: unused_def coins_view_cache_get_coins_def)
    next
      case (Some co)
      then show ?thesis using none pr at load_succeeds [OF wf mem, of k]
        by (auto simp: coins_view_cache_get_coins_def tag_at_def cp)
    qed
  qed
  then show ?thesis using readsD [OF get_coins_reads wf] by blast
qed

lemma update_loaded:
  assumes wf: "wf_cache c" and up: "update_coins_with_undo sha256 skip calloc tx c txundo h = Some (c', us, True)"
  shows "loaded c \<subseteq> loaded c'"
proof -
  have sp: "wf_cache c \<Longrightarrow> spend_inputs sha256 skip calloc c is us = Some (c1, us1, True) \<Longrightarrow> loaded c \<subseteq> loaded c1" for c "is" us c1 us1
  proof (induction sha256 skip calloc c "is" us arbitrary: us1 rule: spend_inputs.induct)
    case (1 sha256 skip calloc c i "is" u us)
    then obtain c2 u2 us2 where s: "spend_input sha256 skip calloc c i u = Some (c2, u2, True)"
        "spend_inputs sha256 skip calloc c2 is us = Some (c1, us2, True)"
      by (auto split: option.splits prod.splits if_splits)
    note si = spend_input_spec [OF "1.prems"(1) s(1)]
    from "1.IH" [OF s(1) refl refl _ si(2) s(2)] si(5) show ?case by (auto simp: loaded_def)
  qed simp_all
  have cr: "loaded c1 \<subseteq> loaded c'" if "wf_cache c1" "create_outputs sha256 skip calloc c1 tx h = Some (c', True)" for c1
    using create_outputs_spec(4) [OF that] by (auto simp: loaded_def)
  show ?thesis
  proof (cases "transaction_is_coinbase tx")
    case True
    then show ?thesis using up cr [OF wf] by (auto simp: update_coins_with_undo_def)
  next
    case False
    then obtain us0 c1 where "spend_inputs sha256 skip calloc c (vin tx) us0 = Some (c1, us, True)"
        "create_outputs sha256 skip calloc c1 tx h = Some (c', True)"
      using up by (auto simp: update_coins_with_undo_def split: option.splits prod.splits if_splits)
    then show ?thesis using sp [OF wf] cr spend_inputs_wf [OF wf] by blast
  qed
qed

lemma have_inputs_runs:
  assumes "wf_cache c" "table_memory calloc" "\<forall>i \<in> set (vin tx). at_outpoint (coin_at c) (prevout i) \<noteq> None"
  shows "\<exists>c'. coins_view_cache_have_inputs calloc c tx = Some (c', True) \<and> same_view c c' \<and>
     (\<not> transaction_is_coinbase tx \<longrightarrow> (op_hash \<circ> prevout) ` set (vin tx) \<subseteq> loaded c')"
proof -
  have "\<forall>i \<in> set is. at_outpoint (coin_at c) (prevout i) \<noteq> None \<Longrightarrow>
      \<exists>c'. have_inputs_loop calloc c is = Some (c', True) \<and> same_view c c' \<and> (op_hash \<circ> prevout) ` set is \<subseteq> loaded c'" for "is"
    using assms(1)
  proof (induction "is" arbitrary: c)
    case (Cons i "is")
    obtain c1 out where c1: "coins_view_cache_get_output_for calloc c i = Some (c1, Some out)" "same_view c c1" "op_hash (prevout i) \<in> loaded c1"
      using get_output_for_runs [OF Cons.prems(2) assms(2), of i] Cons.prems(1) by auto
    then show ?case using Cons.IH [of c1] Cons.prems(1) by (simp, meson subset_iff)
  qed simp
  then show ?thesis using assms(1,3) by (auto simp: coins_view_cache_have_inputs_def)
qed

lemma value_in_runs:
  "wf_cache c \<Longrightarrow> table_memory calloc \<Longrightarrow> MoneyRange acc \<Longrightarrow>
   \<forall>i \<in> set is. at_outpoint (coin_at c) (prevout i) \<noteq> None \<and> MoneyRange (value_at (coin_at c) (prevout i)) \<Longrightarrow>
   MoneyRange (acc + sum_list (map (value_at (coin_at c) \<circ> prevout) is)) \<Longrightarrow>
   \<exists>c'. value_in_loop calloc c acc is = Some (c', Some (acc + sum_list (map (value_at (coin_at c) \<circ> prevout) is)))"
proof (induction "is" arbitrary: c acc)
  case (Cons i "is")
  obtain c1 out where c1: "coins_view_cache_get_output_for calloc c i = Some (c1, Some out)" "same_view c c1" "value_at (coin_at c) (prevout i) = out_value out"
    using get_output_for_runs [OF Cons.prems(1,2), of i] Cons.prems(4) by (auto simp: value_at_def)
  have "0 \<le> sum_list (map (value_at (coin_at c) \<circ> prevout) is)" using Cons.prems(4) by (intro sum_list_nonneg) (auto simp: MoneyRange_def)
  then have r: "MoneyRange (out_value out)" "MoneyRange (acc + out_value out)" "ck64 (acc + out_value out) = Some (acc + out_value out)"
    using Cons.prems(3-5) c1(3) by (auto simp: MoneyRange_def ck64_def is_int64_def comp_def)
  show ?case using Cons.IH [of c1 "acc + out_value out"] c1 r Cons.prems by (simp add: add.assoc)
qed auto

lemma add_range_runs:
  "MoneyRange acc \<Longrightarrow> list_all (\<lambda>v. 0 \<le> v) vs \<Longrightarrow> MoneyRange (acc + sum_list vs) \<Longrightarrow> add_range acc vs = Some (Some (acc + sum_list vs))"
proof (induction vs arbitrary: acc)
  case (Cons v vs)
  have "0 \<le> sum_list vs" using Cons.prems(2) by (intro sum_list_nonneg) (simp add: list_all_iff)
  then have "MoneyRange (acc + v)" "ck64 (acc + v) = Some (acc + v)" using Cons.prems by (auto simp: MoneyRange_def ck64_def is_int64_def)
  then show ?case using Cons by (simp add: add.assoc)
qed simp

lemma get_value_in_runs:
  assumes "wf_cache c" "table_memory calloc" "\<not> transaction_is_coinbase tx"
    and "\<forall>i \<in> set (vin tx). at_outpoint (coin_at c) (prevout i) \<noteq> None \<and> MoneyRange (value_at (coin_at c) (prevout i))"
    and "list_all (\<lambda>js. 0 \<le> vpub_new js) (v_joinsplit tx)"
    and "MoneyRange (sum_list (map (value_at (coin_at c) \<circ> prevout) (vin tx)) + shielded_in tx)"
  shows "\<exists>c'. coins_view_cache_get_value_in calloc c tx =
     Some (c', sum_list (map (value_at (coin_at c) \<circ> prevout) (vin tx)) + shielded_in tx) \<and> same_view c c'"
proof -
  let ?in = "sum_list (map (value_at (coin_at c) \<circ> prevout) (vin tx))"
  let ?vs = "(if value_balance tx \<ge> 0 then [value_balance tx] else []) @ map vpub_new (v_joinsplit tx)"
  have pos: "list_all (\<lambda>v. 0 \<le> v) ?vs" using assms(5) by (auto simp: list_all_iff)
  have s: "sum_list ?vs = shielded_in tx" by (simp add: shielded_in_def)
  have "0 \<le> ?in" using assms(4) by (intro sum_list_nonneg) (auto simp: MoneyRange_def)
  moreover have "0 \<le> shielded_in tx" using pos by (subst s [symmetric], intro sum_list_nonneg) (simp only: list_all_iff)
  ultimately have r: "MoneyRange ?in" using assms(6) by (simp add: MoneyRange_def)
  obtain c' where c': "value_in_loop calloc c 0 (vin tx) = Some (c', Some ?in)"
    using value_in_runs [OF assms(1,2) _ assms(4), of 0] r by (auto simp: MoneyRange_def)
  have "add_range ?in ?vs = Some (Some (?in + shielded_in tx))" using add_range_runs [OF r pos] assms(6) s by simp
  then have "coins_view_cache_get_value_in calloc c tx = Some (c', ?in + shielded_in tx)"
    using assms(3) c' by (simp add: coins_view_cache_get_value_in_def)
  then show ?thesis using get_value_in_spec(1) [OF assms(1)] by blast
qed


section \<open>The supply\<close>

definition live :: "utxo \<Rightarrow> outpoint set" where
  "live f = {op. at_outpoint f op \<noteq> None}"

definition money_supply :: "utxo \<Rightarrow> int" where
  "money_supply f = (\<Sum>op \<in> live f. value_at f op)"

definition money_ok :: "utxo \<Rightarrow> bool" where
  "money_ok f \<longleftrightarrow> finite (live f) \<and> (\<forall>op out. at_outpoint f op = Some out \<longrightarrow> MoneyRange (out_value out))"

definition undo_value :: "tx_undo \<Rightarrow> int" where
  "undo_value us = sum_list (map (out_value \<circ> u_txout) us)"

lemma value_at_nonneg: "money_ok f \<Longrightarrow> 0 \<le> value_at f op"
  by (auto simp: money_ok_def value_at_def MoneyRange_def split: option.splits)

lemma spec_spend_supply:
  assumes "spec_spend f i = Some (f', u)" "money_ok f"
  shows "money_ok f'" "money_supply f = money_supply f' + out_value (u_txout u)"
proof -
  note o = spec_spend_outputs [OF assms(1)]
  have l: "live f = insert (prevout i) (live f')" "prevout i \<notin> live f'" using o(1,3) by (auto simp: live_def)
  have v: "value_at f' op = value_at f op" if "op \<in> live f'" for op using that o(3) l(2) by (auto simp: value_at_def)
  have fin: "finite (live f')" using assms(2) l(1) by (simp add: money_ok_def)
  show "money_ok f'" using fin assms(2) o(3) by (auto simp: money_ok_def split: if_splits)
  have "money_supply f = value_at f (prevout i) + (\<Sum>op \<in> live f'. value_at f op)" using l fin by (simp add: money_supply_def)
  then show "money_supply f = money_supply f' + out_value (u_txout u)" using v o(1) by (simp add: money_supply_def value_at_def)
qed

lemma spec_spends_supply:
  "spec_spends f is = Some (f', us) \<Longrightarrow> money_ok f \<Longrightarrow> money_ok f' \<and> money_supply f = money_supply f' + undo_value us"
proof (induction "is" arbitrary: f us)
  case (Cons i "is")
  obtain f1 u us1 where s: "spec_spend f i = Some (f1, u)" "spec_spends f1 is = Some (f', us1)" "us = u # us1"
    using Cons.prems by (auto split: bind_splits)
  note a = spec_spend_supply [OF s(1) Cons.prems(2)]
  from Cons.IH [OF s(2) a(1)] a(2) s(3) show ?case by (simp add: undo_value_def)
qed (simp add: undo_value_def)

text \<open>The value of a subset of the outputs, picked by their indices.\<close>

lemma sum_of_outputs:
  fixes vs :: "int list"
  assumes "list_all (\<lambda>v. 0 \<le> v) vs" "inj_on g A" "g ` A \<subseteq> {..<length vs}"
  shows "(\<Sum>a \<in> A. vs ! g a) \<le> sum_list vs"
proof -
  have "(\<Sum>a \<in> A. vs ! g a) = (\<Sum>n \<in> g ` A. vs ! n)" using assms(2) by (simp add: sum.reindex)
  also have "\<dots> \<le> (\<Sum>n < length vs. vs ! n)" using assms(1,3) by (intro sum_mono2) (auto simp: list_all_length)
  also have "\<dots> = sum_list vs" by (simp add: sum_list_sum_nth atLeast0LessThan)
  finally show ?thesis .
qed

lemma tx_coins_avail:
  "avail (tx_coins tx h) n = (if n < length (vout tx) \<and> \<not> script_is_unspendable (script_pub_key (vout tx ! n)) \<and>
     \<not> tx_out_is_null (vout tx ! n) then Some (vout tx ! n) else None)"
  unfolding tx_coins_def avail_cleanup by (auto simp: avail_def split: if_splits)

lemma spec_create_supply:
  fixes h :: int
  assumes ok: "money_ok f" and vals: "list_all (\<lambda>out. MoneyRange (out_value out)) (vout tx)"
  defines "f' \<equiv> f(tx_hash tx := tx_coins tx h)"
  shows "money_ok f'" "money_supply f' \<le> money_supply f + sum_list (map out_value (vout tx))"
proof -
  let ?k = "tx_hash tx"
  define N M where NM: "N = {op \<in> live f'. op_hash op = ?k}" "M = {op \<in> live f. op_hash op \<noteq> ?k}"
  have other: "at_outpoint f' op = at_outpoint f op" if "op_hash op \<noteq> ?k" for op using that by (simp add: at_outpoint_def f'_def)
  have new: "unat (op_n op) < length (vout tx) \<and> at_outpoint f' op = Some (vout tx ! unat (op_n op))" if "op \<in> N" for op
    using that by (auto simp: NM live_def at_outpoint_def f'_def tx_coins_avail split: if_splits)
  have inj: "inj_on (\<lambda>op. unat (op_n op)) N" by (auto simp: NM inj_on_def word_unat_eq_iff intro!: outpoint.equality)
  have sub: "(\<lambda>op. unat (op_n op)) ` N \<subseteq> {..<length (vout tx)}" using new by blast
  have finN: "finite N" by (rule finite_imageD [OF finite_subset [OF sub finite_lessThan] inj])
  have l: "live f' = N \<union> M" "N \<inter> M = {}" using other by (auto simp: NM live_def)
  have fin: "finite M" using ok by (simp add: NM money_ok_def)
  have "MoneyRange (out_value out)" if "at_outpoint f' op = Some out" for op out
  proof (cases "op_hash op = ?k")
    case True
    then have "out \<in> set (vout tx)" using that new [of op] by (auto simp: NM live_def)
    then show ?thesis using vals by (simp add: list_all_iff)
  qed (use that other ok in \<open>auto simp: money_ok_def\<close>)
  then show "money_ok f'" using finN fin l(1) by (simp add: money_ok_def)
  have "(\<Sum>op \<in> N. value_at f' op) = (\<Sum>op \<in> N. map out_value (vout tx) ! unat (op_n op))"
    using new by (intro sum.cong) (auto simp: value_at_def)
  also have "\<dots> \<le> sum_list (map out_value (vout tx))"
    using new vals by (intro sum_of_outputs inj) (auto simp: list_all_iff MoneyRange_def)
  finally have n: "(\<Sum>op \<in> N. value_at f' op) \<le> sum_list (map out_value (vout tx))" .
  have "(\<Sum>op \<in> M. value_at f' op) = (\<Sum>op \<in> M. value_at f op)" using other by (intro sum.cong) (auto simp: NM value_at_def)
  also have "\<dots> \<le> money_supply f"
    unfolding money_supply_def using ok value_at_nonneg [OF ok] by (intro sum_mono2) (auto simp: NM money_ok_def)
  finally show "money_supply f' \<le> money_supply f + sum_list (map out_value (vout tx))"
    using n sum.union_disjoint [OF finN fin l(2), of "value_at f'"] by (simp add: money_supply_def [of f'] l(1))
qed

lemma spec_update_supply:
  assumes "spec_update f tx h = Some (f', us)" "money_ok f" "list_all (\<lambda>out. MoneyRange (out_value out)) (vout tx)"
  shows "money_ok f'" "money_supply f' + undo_value us \<le> money_supply f + sum_list (map out_value (vout tx))"
proof -
  obtain f1 where f1: "money_ok f1" "money_supply f = money_supply f1 + undo_value us" "f' = f1(tx_hash tx := tx_coins tx h)"
    using assms(1,2) spec_spends_supply [of f "vin tx"]
    by (auto simp: spec_update_def undo_value_def split: if_splits bind_splits)
  from spec_create_supply [OF f1(1) assms(3), of h] f1(2,3)
  show "money_ok f'" "money_supply f' + undo_value us \<le> money_supply f + sum_list (map out_value (vout tx))" by simp_all
qed

section \<open>Properties\<close>

text \<open>
  C7: the UTXO update implements its specification. A run of \<^verbatim>\<open>update_coins_with_undo\<close> that returns true
  turns the coins the cache presents into those of the specification and records its undo data; with
  memory, and for a transaction with well-formed outputs, there is such a run whenever the
  specification has a result.
\<close>

theorem update_coins_refines:
  assumes "wf_cache c"
  shows "(\<forall>calloc c' us. update_coins_with_undo sha256 skip calloc tx c tx_undo_init h = Some (c', us, True) \<longrightarrow>
       spec_update (coin_at c) tx h = Some (coin_at c', us) \<and> wf_cache c') \<and>
     (\<forall>f us. spec_update (coin_at c) tx h = Some (f, us) \<and> outputs_ok tx \<longrightarrow>
       (\<exists>c'. update_coins_with_undo sha256 skip (\<lambda>_ _. True) tx c tx_undo_init h = Some (c', us, True) \<and> coin_at c' = f))"
  using update_refines [OF assms] spec_update_runs [OF assms, of "\<lambda>_ _. True"] unfolding all_memory_def by blast

text \<open>
  C40: progress of the UTXO update. With memory, an ordinary transaction whose inputs are different
  unspent outputs in the money range, and whose outputs are well formed and new, is applied:
  \<^verbatim>\<open>update_coins_with_undo\<close> returns true, afterwards none of its inputs can be spent again and every
  spendable output of it can.
\<close>

theorem update_coins_progress:
  assumes "wf_cache c" "all_memory calloc" "outputs_ok tx" "inputs_ok c (vin tx)" "\<not> transaction_is_coinbase tx"
    and "\<forall>n. avail (coin_at c (tx_hash tx)) n = None"
  shows "\<exists>c' us. update_coins_with_undo sha256 skip calloc tx c tx_undo_init h = Some (c', us, True) \<and> wf_cache c' \<and>
     (\<forall>i \<in> set (vin tx). avail (coin_at c' (op_hash (prevout i))) (unat (op_n (prevout i))) = None) \<and>
     (\<forall>n < length (vout tx). \<not> script_is_unspendable (script_pub_key (vout tx ! n)) \<longrightarrow>
        avail (coin_at c' (tx_hash tx)) n = Some (vout tx ! n))"
proof -
  obtain c' us where up: "update_coins_with_undo sha256 skip calloc tx c tx_undo_init h = Some (c', us, True)"
    using update_succeeds [OF assms(1-3)] assms(4) by blast
  from update_refines [OF assms(1) up] have sp: "spec_update (coin_at c) tx h = Some (coin_at c', us)" and wf: "wf_cache c'" by simp_all
  have "coin_at c' (tx_hash tx) = tx_coins tx h" using sp by (metis spec_update_new)
  then have "avail (coin_at c' (tx_hash tx)) n = Some (vout tx ! n)"
    if "n < length (vout tx)" "\<not> script_is_unspendable (script_pub_key (vout tx ! n))" for n
    using that assms(3) by (auto simp: tx_coins_avail outputs_ok_def list_all_length MoneyRange_def tx_out_is_null_def)
  moreover have "avail (coin_at c' (op_hash (prevout i))) (unat (op_n (prevout i))) = None" if "i \<in> set (vin tx)" for i
    using spec_update_places(5) [OF sp assms(5) that] assms(6) by (auto simp: null_at_def avail_def unused_def)
  ultimately show ?thesis using up wf by blast
qed

subsection \<open>On concrete input\<close>

lemma sample_spend_ok:
  "outputs_ok sample_spend" "inputs_ok sample_cache (vin sample_spend)" "\<forall>n. avail (coin_at sample_cache (tx_hash sample_spend)) n = None"
proof -
  show "outputs_ok sample_spend" by (simp add: outputs_ok_def sample_spend_def MoneyRange_def)
  show "inputs_ok sample_cache (vin sample_spend)"
    by (simp add: inputs_ok_def sample_spend_def sample_coins avail_def tx_out_is_null_def MoneyRange_def)
  show "\<forall>n. avail (coin_at sample_cache (tx_hash sample_spend)) n = None"
    using sample_txids by (simp add: sample_coins sample_spend_def)
qed

theorem update_coins_refines_witness:
  "\<exists>c' us. update_coins_with_undo (\<lambda>_. replicate 32 0) False (\<lambda>_ _. True) sample_spend sample_cache tx_undo_init 9 = Some (c', us, True) \<and>
     spec_update (coin_at sample_cache) sample_spend 9 = Some (coin_at c', us) \<and> us \<noteq> []"
proof -
  have "\<exists>f us. spec_update (coin_at sample_cache) sample_spend 9 = Some (f, us) \<and> us \<noteq> []"
    using sample_coinbases(2)
    by (simp add: spec_update_def) (simp add: sample_spend_def spec_spend_def sample_coins avail_def tx_out_is_null_def MoneyRange_def)
  then show ?thesis
    using update_coins_refines [OF sample_wf, of "\<lambda>_. replicate 32 0" False sample_spend 9] sample_spend_ok(1) by blast
qed

theorem update_coins_progress_witness:
  "\<exists>c' us. update_coins_with_undo (\<lambda>_. replicate 32 0) False (\<lambda>_ _. True) sample_spend sample_cache tx_undo_init 9 = Some (c', us, True) \<and>
     avail (coin_at c' (replicate 32 1)) 0 = None \<and> avail (coin_at c' (replicate 32 3)) 0 = Some \<lparr>out_value = 49, script_pub_key = [0x51]\<rparr>"
proof -
  have mem: "all_memory (\<lambda>_ _. True)" by (simp add: all_memory_def)
  show ?thesis
    using update_coins_progress [OF sample_wf mem sample_spend_ok(1,2) sample_coinbases(2) sample_spend_ok(3), of "\<lambda>_. replicate 32 0" False 9]
    by (auto simp: sample_spend_def script_is_unspendable_def)
qed

end
