(* ===== verification/Tx_Checks.thy ===== *)
theory Tx_Checks
  imports Transaction Params
begin

text \<open>
  The stateless transaction rules: \<^verbatim>\<open>domain/consensus/src/tx_structural.c\<close>,
  \<^verbatim>\<open>domain/consensus/src/sapling_structural.c\<close> and \<^verbatim>\<open>domain/consensus/src/locktime.c\<close>.

  A rejection is the error code with the reject reason and DoS score written to \<^verbatim>\<open>out_failure\<close>; the
  messages are left out. The outer option is \<open>None\<close> for a signed overflow, which the theorems exclude.
\<close>

section \<open>Model\<close>

abbreviation (input) SPROUT_MIN_TX_VERSION :: int where "SPROUT_MIN_TX_VERSION \<equiv> 1"
abbreviation (input) OVERWINTER_MIN_TX_VERSION :: int where "OVERWINTER_MIN_TX_VERSION \<equiv> 3"
abbreviation (input) OVERWINTER_MAX_TX_VERSION :: int where "OVERWINTER_MAX_TX_VERSION \<equiv> 3"
abbreviation (input) SAPLING_MIN_TX_VERSION :: int where "SAPLING_MIN_TX_VERSION \<equiv> 4"
abbreviation (input) SAPLING_MAX_TX_VERSION :: int where "SAPLING_MAX_TX_VERSION \<equiv> 4"
abbreviation (input) MAX_TX_SIZE_BEFORE_SAPLING :: nat where "MAX_TX_SIZE_BEFORE_SAPLING \<equiv> 100000"
abbreviation (input) MAX_TX_SIZE_AFTER_SAPLING :: nat where "MAX_TX_SIZE_AFTER_SAPLING \<equiv> 2000000"
abbreviation (input) TX_EXPIRY_HEIGHT_THRESHOLD :: u32 where "TX_EXPIRY_HEIGHT_THRESHOLD \<equiv> 500000000"
abbreviation (input) LOCKTIME_THRESHOLD :: int where "LOCKTIME_THRESHOLD \<equiv> 500000000"

datatype tx_structural_err =
    TXS_NULL_TX | TXS_VERSION_TOO_LOW | TXS_OVERWINTER_VERSION_TOO_LOW | TXS_VERSION_GROUP_ID
  | TXS_EXPIRY_HEIGHT_TOO_HIGH | TXS_VIN_EMPTY | TXS_VOUT_EMPTY | TXS_OVERSIZE | TXS_VOUT_NEGATIVE
  | TXS_VOUT_TOOLARGE | TXS_VOUT_TOTAL_TOOLARGE | TXS_VALUEBALANCE_NONZERO | TXS_VALUEBALANCE_TOOLARGE
  | TXS_VPUB_OLD_NEGATIVE | TXS_VPUB_NEW_NEGATIVE | TXS_VPUB_OLD_TOOLARGE | TXS_VPUB_NEW_TOOLARGE
  | TXS_VPUBS_BOTH_NONZERO | TXS_TXINTOTAL_TOOLARGE | TXS_INPUTS_DUPLICATE | TXS_JS_NULLIFIERS_DUPLICATE
  | TXS_SPEND_NULLIFIERS_DUPLICATE | TXS_CB_HAS_JOINSPLITS | TXS_CB_HAS_SPEND_DESC | TXS_CB_HAS_OUTPUT_DESC
  | TXS_CB_LENGTH | TXS_PREVOUT_NULL

text \<open>An error code with the failure record: the reject reason (\<open>None\<close> for NULL) and the DoS score.\<close>

type_synonym 'e failure = "'e \<times> string option \<times> int"
type_synonym ('e, 'a) check = "('e failure + 'a) option"

definition reject :: "'e \<Rightarrow> string \<Rightarrow> int \<Rightarrow> ('e, 'a) check" where
  "reject e reason dos = Some (Inl (e, Some reason, dos))"

definition pass :: "'a \<Rightarrow> ('e, 'a) check" where
  "pass x = Some (Inr x)"

definition andthen :: "('e, 'a) check \<Rightarrow> ('a \<Rightarrow> ('e, 'b) check) \<Rightarrow> ('e, 'b) check" where
  "andthen c f = (case c of None \<Rightarrow> None | Some (Inl e) \<Rightarrow> Some (Inl e) | Some (Inr x) \<Rightarrow> f x)"

definition reject_if :: "bool \<Rightarrow> 'e \<Rightarrow> string \<Rightarrow> int \<Rightarrow> ('e, unit) check" where
  "reject_if c e reason dos = (if c then reject e reason dos else pass ())"

text \<open>An \<^verbatim>\<open>int64_t\<close> computation, undefined when it overflows.\<close>

definition add64 :: "int \<Rightarrow> int \<Rightarrow> ('e, int) check" where
  "add64 a b = map_option Inr (ck64 (a + b))"

fun memcmp :: "bytes \<Rightarrow> bytes \<Rightarrow> int" where
  "memcmp (x # xs) (y # ys) = (if x = y then memcmp xs ys else if x < y then -1 else 1)"
| "memcmp _ _ = 0"

definition outpoint_cmp :: "outpoint \<Rightarrow> outpoint \<Rightarrow> int" where
  "outpoint_cmp a b =
     (let r = memcmp (op_hash a) (op_hash b)
      in if r \<noteq> 0 then r else if op_n a < op_n b then -1 else if op_n a > op_n b then 1 else 0)"

fun vout_loop :: "int \<Rightarrow> tx_out list \<Rightarrow> (tx_structural_err, int) check" where
  "vout_loop value_out [] = pass value_out"
| "vout_loop value_out (out # outs) =
     andthen (reject_if (out_value out < 0) TXS_VOUT_NEGATIVE ''bad-txns-vout-negative'' 100) (\<lambda>_.
     andthen (reject_if (out_value out > MAX_MONEY) TXS_VOUT_TOOLARGE ''bad-txns-vout-toolarge'' 100) (\<lambda>_.
     andthen (add64 value_out (out_value out)) (\<lambda>value_out.
     andthen (reject_if (\<not> MoneyRange value_out) TXS_VOUT_TOTAL_TOOLARGE ''bad-txns-txouttotal-toolarge'' 100) (\<lambda>_.
       vout_loop value_out outs))))"

fun js_out_loop :: "int \<Rightarrow> js_description list \<Rightarrow> (tx_structural_err, int) check" where
  "js_out_loop value_out [] = pass value_out"
| "js_out_loop value_out (js # jss) =
     andthen (reject_if (vpub_old js < 0) TXS_VPUB_OLD_NEGATIVE ''bad-txns-vpub_old-negative'' 100) (\<lambda>_.
     andthen (reject_if (vpub_new js < 0) TXS_VPUB_NEW_NEGATIVE ''bad-txns-vpub_new-negative'' 100) (\<lambda>_.
     andthen (reject_if (vpub_old js > MAX_MONEY) TXS_VPUB_OLD_TOOLARGE ''bad-txns-vpub_old-toolarge'' 100) (\<lambda>_.
     andthen (reject_if (vpub_new js > MAX_MONEY) TXS_VPUB_NEW_TOOLARGE ''bad-txns-vpub_new-toolarge'' 100) (\<lambda>_.
     andthen (reject_if (vpub_new js \<noteq> 0 \<and> vpub_old js \<noteq> 0) TXS_VPUBS_BOTH_NONZERO ''bad-txns-vpubs-both-nonzero'' 100) (\<lambda>_.
     andthen (add64 value_out (vpub_old js)) (\<lambda>value_out.
     andthen (reject_if (\<not> MoneyRange value_out) TXS_VOUT_TOTAL_TOOLARGE ''bad-txns-txouttotal-toolarge'' 100) (\<lambda>_.
       js_out_loop value_out jss)))))))"

fun js_in_loop :: "int \<Rightarrow> js_description list \<Rightarrow> (tx_structural_err, int) check" where
  "js_in_loop value_in [] = pass value_in"
| "js_in_loop value_in (js # jss) =
     andthen (add64 value_in (vpub_new js)) (\<lambda>value_in.
     andthen (reject_if (\<not> MoneyRange (vpub_new js) \<or> \<not> MoneyRange value_in)
                TXS_TXINTOTAL_TOOLARGE ''bad-txns-txintotal-toolarge'' 100) (\<lambda>_.
       js_in_loop value_in jss))"

fun dup_prevout :: "tx_in list \<Rightarrow> bool" where
  "dup_prevout [] = False"
| "dup_prevout (i # is) = (list_ex (\<lambda>j. outpoint_cmp (prevout i) (prevout j) = 0) is \<or> dup_prevout is)"

fun dup_spend_nullifier :: "spend_description list \<Rightarrow> bool" where
  "dup_spend_nullifier [] = False"
| "dup_spend_nullifier (s # ss) =
     (list_ex (\<lambda>t. memcmp (sd_nullifier s) (sd_nullifier t) = 0) ss \<or> dup_spend_nullifier ss)"

text \<open>
  The nullifiers of one JoinSplit against those \<open>seen\<close> in the earlier ones and the earlier of its own;
  then the same for the JoinSplits in order.
\<close>

fun js_nullifiers_dup :: "bytes list \<Rightarrow> bytes list \<Rightarrow> bytes list \<Rightarrow> bool" where
  "js_nullifiers_dup seen own [] = False"
| "js_nullifiers_dup seen own (nf # nfs) =
     (list_ex (\<lambda>x. memcmp nf x = 0) seen \<or> list_ex (\<lambda>x. memcmp nf x = 0) own \<or>
      js_nullifiers_dup seen (own @ [nf]) nfs)"

fun dup_js_nullifier :: "bytes list \<Rightarrow> js_description list \<Rightarrow> bool" where
  "dup_js_nullifier seen [] = False"
| "dup_js_nullifier seen (js # jss) =
     (js_nullifiers_dup seen [] (nullifiers js) \<or> dup_js_nullifier (seen @ nullifiers js) jss)"

definition check_versions :: "transaction \<Rightarrow> (tx_structural_err, unit) check" where
  "check_versions tx =
     andthen (reject_if (\<not> overwintered tx \<and> tx_version tx < SPROUT_MIN_TX_VERSION)
                TXS_VERSION_TOO_LOW ''bad-txns-version-too-low'' 100) (\<lambda>_.
     if overwintered tx then
       andthen (reject_if (tx_version tx < OVERWINTER_MIN_TX_VERSION)
                  TXS_OVERWINTER_VERSION_TOO_LOW ''bad-tx-overwinter-version-too-low'' 100) (\<lambda>_.
       andthen (reject_if (version_group_id tx \<noteq> OVERWINTER_VERSION_GROUP_ID \<and> version_group_id tx \<noteq> SAPLING_VERSION_GROUP_ID)
                  TXS_VERSION_GROUP_ID ''bad-tx-version-group-id'' 100) (\<lambda>_.
       reject_if (expiry_height tx \<ge> TX_EXPIRY_HEIGHT_THRESHOLD)
                  TXS_EXPIRY_HEIGHT_TOO_HIGH ''bad-tx-expiry-height-too-high'' 100))
     else pass ())"

definition check_amounts :: "transaction \<Rightarrow> (tx_structural_err, unit) check" where
  "check_amounts tx =
     andthen (vout_loop 0 (vout tx)) (\<lambda>value_out.
     andthen (reject_if (v_shielded_spend tx = [] \<and> v_shielded_output tx = [] \<and> value_balance tx \<noteq> 0)
                TXS_VALUEBALANCE_NONZERO ''bad-txns-valuebalance-nonzero'' 100) (\<lambda>_.
     andthen (reject_if (value_balance tx > MAX_MONEY \<or> value_balance tx < - MAX_MONEY)
                TXS_VALUEBALANCE_TOOLARGE ''bad-txns-valuebalance-toolarge'' 100) (\<lambda>_.
     andthen (if value_balance tx \<le> 0 then
                andthen (add64 0 (- value_balance tx)) (\<lambda>neg.
                andthen (add64 value_out neg) (\<lambda>value_out.
                andthen (reject_if (\<not> MoneyRange value_out) TXS_VOUT_TOTAL_TOOLARGE ''bad-txns-txouttotal-toolarge'' 100) (\<lambda>_.
                  pass value_out)))
              else pass value_out) (\<lambda>value_out.
     andthen (js_out_loop value_out (v_joinsplit tx)) (\<lambda>_.
     andthen (js_in_loop 0 (v_joinsplit tx)) (\<lambda>value_in.
     if value_balance tx \<ge> 0 then
       andthen (add64 value_in (value_balance tx)) (\<lambda>value_in.
         reject_if (\<not> MoneyRange value_in) TXS_TXINTOTAL_TOOLARGE ''bad-txns-txintotal-toolarge'' 100)
     else pass ()))))))"

definition check_coinbase_rules :: "transaction \<Rightarrow> (tx_structural_err, unit) check" where
  "check_coinbase_rules tx =
     (if transaction_is_coinbase tx then
        andthen (reject_if (length (v_joinsplit tx) > 0) TXS_CB_HAS_JOINSPLITS ''bad-cb-has-joinsplits'' 100) (\<lambda>_.
        andthen (reject_if (length (v_shielded_spend tx) > 0) TXS_CB_HAS_SPEND_DESC ''bad-cb-has-spend-description'' 100) (\<lambda>_.
        andthen (reject_if (length (v_shielded_output tx) > 0) TXS_CB_HAS_OUTPUT_DESC ''bad-cb-has-output-description'' 100) (\<lambda>_.
          reject_if (length (script_sig (vin tx ! 0)) < 2 \<or> length (script_sig (vin tx ! 0)) > 100)
            TXS_CB_LENGTH ''bad-cb-length'' 100)))
      else reject_if (list_ex (\<lambda>i. outpoint_is_null (prevout i)) (vin tx))
             TXS_PREVOUT_NULL ''bad-txns-prevout-null'' 10)"

definition domain_consensus_check_transaction_structural ::
  "alloc \<Rightarrow> transaction option \<Rightarrow> (tx_structural_err, unit) check" where
  "domain_consensus_check_transaction_structural alloc tx_opt =
     (case tx_opt of None \<Rightarrow> Some (Inl (TXS_NULL_TX, None, 0)) | Some tx \<Rightarrow>
     andthen (check_versions tx) (\<lambda>_.
     andthen (reject_if (vin tx = [] \<and> v_joinsplit tx = [] \<and> v_shielded_spend tx = [])
                TXS_VIN_EMPTY ''bad-txns-vin-empty'' 10) (\<lambda>_.
     andthen (reject_if (vout tx = [] \<and> v_joinsplit tx = [] \<and> v_shielded_output tx = [])
                TXS_VOUT_EMPTY ''bad-txns-vout-empty'' 10) (\<lambda>_.
     andthen (reject_if (transaction_serialize_size alloc tx > MAX_TX_SIZE_AFTER_SAPLING)
                TXS_OVERSIZE ''bad-txns-oversize'' 100) (\<lambda>_.
     andthen (check_amounts tx) (\<lambda>_.
     andthen (reject_if (dup_prevout (vin tx)) TXS_INPUTS_DUPLICATE ''bad-txns-inputs-duplicate'' 100) (\<lambda>_.
     andthen (reject_if (dup_js_nullifier [] (v_joinsplit tx))
                TXS_JS_NULLIFIERS_DUPLICATE ''bad-joinsplits-nullifiers-duplicate'' 100) (\<lambda>_.
     andthen (reject_if (dup_spend_nullifier (v_shielded_spend tx))
                TXS_SPEND_NULLIFIERS_DUPLICATE ''bad-spend-description-nullifiers-duplicate'' 100) (\<lambda>_.
       check_coinbase_rules tx)))))))))"

subsection \<open>Rules that depend on the height\<close>

datatype sapling_structural_err =
    SAP_NULL_TX | SAP_NULL_PARAMS | SAP_NEG_HEIGHT | SAP_OVERWINTER_NOT_ACTIVE | SAP_SAPLING_OVERWINTERED_FLAG
  | SAP_SAPLING_VERSION_GROUP_ID | SAP_SAPLING_VERSION_TOO_LOW | SAP_SAPLING_VERSION_TOO_HIGH
  | SAP_OVERWINTER_FLAG_NOT_SET | SAP_OVERWINTER_VERSION_GROUP_ID | SAP_OVERWINTER_VERSION_TOO_HIGH
  | SAP_OVERWINTER_ACTIVE | SAP_OVERSIZE

definition sapling_version_rules :: "bool \<Rightarrow> bool \<Rightarrow> int \<Rightarrow> transaction \<Rightarrow> (sapling_structural_err, unit) check" where
  "sapling_version_rules overwinterActive saplingActive dos_level tx =
     (if saplingActive then
        andthen (reject_if (tx_version tx \<ge> SAPLING_MIN_TX_VERSION \<and> \<not> overwintered tx)
                   SAP_SAPLING_OVERWINTERED_FLAG ''tx-overwintered-flag-not-set'' dos_level) (\<lambda>_.
        andthen (reject_if (overwintered tx \<and> version_group_id tx \<noteq> SAPLING_VERSION_GROUP_ID)
                   SAP_SAPLING_VERSION_GROUP_ID ''bad-sapling-tx-version-group-id'' dos_level) (\<lambda>_.
        andthen (reject_if (overwintered tx \<and> tx_version tx < SAPLING_MIN_TX_VERSION)
                   SAP_SAPLING_VERSION_TOO_LOW ''bad-tx-sapling-version-too-low'' 100) (\<lambda>_.
          reject_if (overwintered tx \<and> tx_version tx > SAPLING_MAX_TX_VERSION)
                   SAP_SAPLING_VERSION_TOO_HIGH ''bad-tx-sapling-version-too-high'' 100)))
      else if overwinterActive then
        andthen (reject_if (tx_version tx \<ge> OVERWINTER_MIN_TX_VERSION \<and> \<not> overwintered tx)
                   SAP_OVERWINTER_FLAG_NOT_SET ''tx-overwinter-flag-not-set'' dos_level) (\<lambda>_.
        andthen (reject_if (overwintered tx \<and> version_group_id tx \<noteq> OVERWINTER_VERSION_GROUP_ID)
                   SAP_OVERWINTER_VERSION_GROUP_ID ''bad-overwinter-tx-version-group-id'' dos_level) (\<lambda>_.
          reject_if (overwintered tx \<and> tx_version tx > OVERWINTER_MAX_TX_VERSION)
                   SAP_OVERWINTER_VERSION_TOO_HIGH ''bad-tx-overwinter-version-too-high'' 100))
      else pass ())"

definition domain_consensus_check_transaction_sapling_structural ::
  "alloc \<Rightarrow> transaction option \<Rightarrow> consensus_params option \<Rightarrow> int \<Rightarrow> int \<Rightarrow> (sapling_structural_err, unit) check" where
  "domain_consensus_check_transaction_sapling_structural alloc tx_opt params_opt n_height dos_level =
     (case tx_opt of None \<Rightarrow> Some (Inl (SAP_NULL_TX, None, 0)) | Some tx \<Rightarrow>
      case params_opt of None \<Rightarrow> Some (Inl (SAP_NULL_PARAMS, None, 0)) | Some params \<Rightarrow>
      if n_height < 0 then Some (Inl (SAP_NEG_HEIGHT, None, 0)) else
      do { overwinterActive \<leftarrow> consensus_network_upgrade_active params n_height UPGRADE_OVERWINTER;
           saplingActive \<leftarrow> consensus_network_upgrade_active params n_height UPGRADE_SAPLING;
           andthen (reject_if (\<not> overwinterActive \<and> overwintered tx)
                      SAP_OVERWINTER_NOT_ACTIVE ''tx-overwinter-not-active'' dos_level) (\<lambda>_.
           andthen (sapling_version_rules overwinterActive saplingActive dos_level tx) (\<lambda>_.
           andthen (reject_if (overwinterActive \<and> \<not> overwintered tx)
                      SAP_OVERWINTER_ACTIVE ''tx-overwinter-active'' dos_level) (\<lambda>_.
             reject_if (\<not> saplingActive \<and> transaction_serialize_size alloc tx > MAX_TX_SIZE_BEFORE_SAPLING)
                      SAP_OVERSIZE ''bad-txns-oversize'' 100))) })"

subsection \<open>Lock time and expiry\<close>

definition domain_consensus_tx_is_final :: "transaction option \<Rightarrow> int \<Rightarrow> int \<Rightarrow> bool" where
  "domain_consensus_tx_is_final tx_opt n_block_height n_block_time =
     (case tx_opt of None \<Rightarrow> False | Some tx \<Rightarrow>
      if lock_time tx = 0 then True
      else
        (let lt = uint (lock_time tx);
             cutoff = (if lt < LOCKTIME_THRESHOLD then n_block_height else n_block_time)
         in if lt < cutoff then True else list_all tx_in_is_final (vin tx)))"

definition domain_consensus_tx_is_expired :: "transaction option \<Rightarrow> int \<Rightarrow> bool" where
  "domain_consensus_tx_is_expired tx_opt n_height =
     (case tx_opt of None \<Rightarrow> False | Some tx \<Rightarrow>
      if expiry_height tx = 0 \<or> transaction_is_coinbase tx then False
      else (word_of_int n_height :: u32) \<ge> expiry_height tx)"

text \<open>The sum is an \<^verbatim>\<open>int\<close>; its overflow is \<open>None\<close>.\<close>

definition domain_consensus_tx_is_expiring_soon :: "transaction option \<Rightarrow> int \<Rightarrow> bool option" where
  "domain_consensus_tx_is_expiring_soon tx_opt n_next_block_height =
     do { h \<leftarrow> ck32 (n_next_block_height + 3); Some (domain_consensus_tx_is_expired tx_opt h) }"

section \<open>The checks as predicates\<close>

named_theorems accept \<open>when a check accepts\<close>

lemma reject_if_accept [accept]: "reject_if c e r d = Some (Inr ()) \<longleftrightarrow> \<not> c"
  by (simp add: reject_if_def reject_def pass_def)

lemma andthen_accept [accept]: "andthen c f = Some (Inr y) \<longleftrightarrow> (\<exists>x. c = Some (Inr x) \<and> f x = Some (Inr y))"
  by (auto simp: andthen_def split: option.splits sum.splits)

lemma pass_accept [accept]: "pass x = Some (Inr y) \<longleftrightarrow> x = y"
  by (simp add: pass_def)

lemma add64_accept [accept]: "add64 a b = Some (Inr c) \<longleftrightarrow> c = a + b \<and> is_int64 c"
  by (auto simp: add64_def ck64_def)

lemma money_loop_Cons:
  "money_loop acc (v # vs) = Some (Some t) \<longleftrightarrow>
     is_int64 (acc + v) \<and> MoneyRange v \<and> MoneyRange (acc + v) \<and> money_loop (acc + v) vs = Some (Some t)"
  by (auto simp: ck64_def)

lemma vout_loop_accept [accept]:
  "vout_loop acc outs = Some (Inr t) \<longleftrightarrow> money_loop acc (map out_value outs) = Some (Some t)"
proof (induction acc outs rule: vout_loop.induct)
  case (2 acc out outs)
  then show ?case
    by (auto simp: accept money_loop_Cons MoneyRange_def simp del: money_loop.simps)
qed (simp add: accept)

definition js_ok :: "js_description \<Rightarrow> bool" where
  "js_ok js \<longleftrightarrow> MoneyRange (vpub_new js) \<and> (vpub_new js = 0 \<or> vpub_old js = 0)"

lemma js_out_loop_accept [accept]:
  "js_out_loop acc jss = Some (Inr t) \<longleftrightarrow> money_loop acc (map vpub_old jss) = Some (Some t) \<and> list_all js_ok jss"
proof (induction acc jss rule: js_out_loop.induct)
  case (2 acc js jss)
  then show ?case
    by (auto simp: accept money_loop_Cons MoneyRange_def js_ok_def simp del: money_loop.simps)
qed (simp add: accept)

lemma js_in_loop_accept [accept]:
  "js_in_loop acc jss = Some (Inr t) \<longleftrightarrow> money_loop acc (map vpub_new jss) = Some (Some t)"
proof (induction acc jss rule: js_in_loop.induct)
  case (2 acc js jss)
  then show ?case
    by (auto simp: accept money_loop_Cons simp del: money_loop.simps)
qed (simp add: accept)

definition value_in_amounts :: "transaction \<Rightarrow> int list" where
  "value_in_amounts tx = map vpub_new (v_joinsplit tx) @ (if value_balance tx \<ge> 0 then [value_balance tx] else [])"

definition total_in_range :: "int list \<Rightarrow> bool" where
  "total_in_range vs \<longleftrightarrow> list_all MoneyRange vs \<and> MoneyRange (sum_list vs)"

definition amounts_ok :: "transaction \<Rightarrow> bool" where
  "amounts_ok tx \<longleftrightarrow> total_in_range (value_out_amounts tx) \<and> total_in_range (value_in_amounts tx) \<and>
     (v_shielded_spend tx = [] \<and> v_shielded_output tx = [] \<longrightarrow> value_balance tx = 0) \<and>
     list_all (\<lambda>js. vpub_new js = 0 \<or> vpub_old js = 0) (v_joinsplit tx)"

lemma MoneyRange_0 [simp]: "MoneyRange 0"
  by (simp add: MoneyRange_def)

lemma money_range_int64: "MoneyRange v \<Longrightarrow> is_int64 v"
  by (simp add: MoneyRange_def is_int64_def)

lemma total_in_range_loop: "total_in_range vs \<longleftrightarrow> (\<exists>t. money_loop 0 vs = Some (Some t))"
  by (auto simp: total_in_range_def money_loop_iff)

lemma money_loop_append_iff:
  "money_loop acc (xs @ ys) = Some (Some t) \<longleftrightarrow> (\<exists>u. money_loop acc xs = Some (Some u) \<and> money_loop u ys = Some (Some t))"
  by (auto simp: money_loop_append split: option.splits)

lemma money_sum_nonneg: "list_all MoneyRange vs \<Longrightarrow> 0 \<le> sum_list vs"
  by (induction vs) (auto simp: MoneyRange_def)

lemma MoneyRange_prefix: "0 \<le> b \<Longrightarrow> MoneyRange (a + b) \<Longrightarrow> 0 \<le> a \<Longrightarrow> MoneyRange a"
  by (simp add: MoneyRange_def)

lemma list_all_js_ok:
  "list_all js_ok jss \<longleftrightarrow> list_all MoneyRange (map vpub_new jss) \<and> list_all (\<lambda>js. vpub_new js = 0 \<or> vpub_old js = 0) jss"
  by (auto simp: js_ok_def list_all_iff)

lemma check_amounts_accept:
  "check_amounts tx = Some (Inr ()) \<longleftrightarrow> amounts_ok tx"
proof -
  define vb outs olds news where "vb = value_balance tx" and "outs = map out_value (vout tx)"
    and "olds = map vpub_old (v_joinsplit tx)" and "news = map vpub_new (v_joinsplit tx)"
  note d = vb_def [symmetric] outs_def [symmetric] olds_def [symmetric] news_def [symmetric]
  let ?sh = "v_shielded_spend tx = [] \<and> v_shielded_output tx = [] \<longrightarrow> vb = 0"
  let ?both = "list_all (\<lambda>js. vpub_new js = 0 \<or> vpub_old js = 0) (v_joinsplit tx)"
  let ?neg = "if vb \<le> 0 then - vb else 0" and ?pos = "if vb \<ge> 0 then vb else 0"
  have "check_amounts tx = Some (Inr ()) \<longleftrightarrow> list_all MoneyRange outs \<and> MoneyRange (sum_list outs) \<and> ?sh \<and>
      \<bar>vb\<bar> \<le> MAX_MONEY \<and> MoneyRange (sum_list outs + ?neg) \<and> list_all MoneyRange olds \<and>
      MoneyRange (sum_list outs + ?neg + sum_list olds) \<and> list_all MoneyRange news \<and> ?both \<and>
      MoneyRange (sum_list news) \<and> MoneyRange (sum_list news + ?pos)"
    unfolding check_amounts_def accept d
    by (auto simp: accept money_loop_iff is_int64_def list_all_js_ok d MoneyRange_def cong: conj_cong)
  also have "\<dots> \<longleftrightarrow> amounts_ok tx"
    unfolding amounts_ok_def value_out_amounts_def value_in_amounts_def total_in_range_def d
    by (auto simp: MoneyRange_def dest: money_sum_nonneg)
  finally show ?thesis .
qed

subsection \<open>No overflow\<close>

named_theorems defined \<open>when a check is defined\<close>

lemma defined_reject_if [defined]: "reject_if c e r d \<noteq> None"
  by (simp add: reject_if_def reject_def pass_def)

lemma defined_pass [defined]: "pass x \<noteq> None"
  by (simp add: pass_def)

lemma defined_andthen [defined]:
  "c \<noteq> None \<Longrightarrow> (\<And>x. c = Some (Inr x) \<Longrightarrow> f x \<noteq> None) \<Longrightarrow> andthen c f \<noteq> None"
  by (auto simp: andthen_def split: option.splits sum.splits)

lemma defined_if [defined]: "(c \<Longrightarrow> a \<noteq> None) \<Longrightarrow> (\<not> c \<Longrightarrow> b \<noteq> None) \<Longrightarrow> (if c then a else b) \<noteq> None"
  by simp

lemma defined_add64 [defined]: "is_int64 (a + b) \<Longrightarrow> add64 a b \<noteq> None"
  by (simp add: add64_def ck64_def)

lemma defined_vout_loop [defined]: "MoneyRange acc \<Longrightarrow> vout_loop acc outs \<noteq> None"
proof (induction outs arbitrary: acc)
  case (Cons out outs)
  show ?case unfolding vout_loop.simps
    by (intro defined Cons.IH) (use Cons.prems in \<open>auto simp: accept MoneyRange_def is_int64_def\<close>)
qed (simp add: defined)

lemma defined_js_out_loop [defined]: "MoneyRange acc \<Longrightarrow> js_out_loop acc jss \<noteq> None"
proof (induction jss arbitrary: acc)
  case (Cons js jss)
  show ?case unfolding js_out_loop.simps
    by (intro defined Cons.IH) (use Cons.prems in \<open>auto simp: accept MoneyRange_def is_int64_def\<close>)
qed (simp add: defined)

lemma defined_js_in_loop [defined]: "MoneyRange acc \<Longrightarrow> list_all js_ok jss \<Longrightarrow> js_in_loop acc jss \<noteq> None"
proof (induction jss arbitrary: acc)
  case (Cons js jss)
  show ?case unfolding js_in_loop.simps
    by (intro defined Cons.IH) (use Cons.prems in \<open>auto simp: accept MoneyRange_def is_int64_def js_ok_def\<close>)
qed (simp add: defined)

lemma defined_check_amounts: "check_amounts tx \<noteq> None"
  unfolding check_amounts_def
  by (intro defined) (auto simp: accept money_loop_iff MoneyRange_def is_int64_def split: if_splits)

subsection \<open>Duplicates\<close>

lemma memcmp_0: "length a = length b \<Longrightarrow> memcmp a b = 0 \<longleftrightarrow> a = b"
  by (induction a b rule: memcmp.induct) auto

lemma outpoint_cmp_0: "wf_outpoint a \<Longrightarrow> wf_outpoint b \<Longrightarrow> outpoint_cmp a b = 0 \<longleftrightarrow> a = b"
  by (cases a; cases b) (auto simp: outpoint_cmp_def Let_def memcmp_0 wf_outpoint_def)

lemma dup_prevout_distinct: "list_all wf_tx_in is \<Longrightarrow> dup_prevout is \<longleftrightarrow> \<not> distinct (map prevout is)"
  by (induction "is") (auto simp: outpoint_cmp_0 wf_tx_in_def list_ex_iff list_all_iff)

lemma dup_spend_distinct:
  "list_all (\<lambda>s. length (sd_nullifier s) = 32) ss \<Longrightarrow> dup_spend_nullifier ss \<longleftrightarrow> \<not> distinct (map sd_nullifier ss)"
  by (induction ss) (auto simp: memcmp_0 list_ex_iff list_all_iff)

abbreviation (input) all32 :: "bytes list \<Rightarrow> bool" where
  "all32 bs \<equiv> list_all (\<lambda>b. length b = 32) bs"

lemma list_ex_memcmp: "length nf = 32 \<Longrightarrow> all32 xs \<Longrightarrow> list_ex (\<lambda>x. memcmp nf x = 0) xs \<longleftrightarrow> nf \<in> set xs"
  by (induction xs) (auto simp: memcmp_0)

lemma js_nullifiers_dup_distinct:
  "all32 (seen @ own @ nfs) \<Longrightarrow> distinct own \<Longrightarrow> set seen \<inter> set own = {} \<Longrightarrow>
   js_nullifiers_dup seen own nfs \<longleftrightarrow> \<not> (distinct (own @ nfs) \<and> set seen \<inter> set (own @ nfs) = {})"
proof (induction seen own nfs rule: js_nullifiers_dup.induct)
  case (2 seen own nf nfs)
  show ?case
  proof (cases "nf \<in> set seen \<or> nf \<in> set own")
    case True
    then show ?thesis using 2(2) by (auto simp: list_ex_memcmp)
  next
    case False
    then show ?thesis using 2 by (auto simp: list_ex_memcmp)
  qed
qed simp

lemma dup_js_distinct:
  "all32 (seen @ concat (map nullifiers jss)) \<Longrightarrow> distinct seen \<Longrightarrow>
   dup_js_nullifier seen jss \<longleftrightarrow> \<not> distinct (seen @ concat (map nullifiers jss))"
proof (induction seen jss rule: dup_js_nullifier.induct)
  case (2 seen js jss)
  have one: "js_nullifiers_dup seen [] (nullifiers js) \<longleftrightarrow> \<not> (distinct (nullifiers js) \<and> set seen \<inter> set (nullifiers js) = {})"
    using 2(2) by (simp add: js_nullifiers_dup_distinct)
  show ?case
  proof (cases "distinct (nullifiers js) \<and> set seen \<inter> set (nullifiers js) = {}")
    case True
    then show ?thesis using 2 one by simp
  next
    case False
    then show ?thesis using one by auto
  qed
qed simp

section \<open>What the structural check accepts\<close>

text \<open>The rules of the header comment, as one predicate.\<close>

definition structurally_valid :: "alloc \<Rightarrow> transaction \<Rightarrow> bool" where
  "structurally_valid alloc tx \<longleftrightarrow>
     (if overwintered tx
      then tx_version tx \<ge> 3 \<and> version_group_id tx \<in> {OVERWINTER_VERSION_GROUP_ID, SAPLING_VERSION_GROUP_ID} \<and>
        expiry_height tx < TX_EXPIRY_HEIGHT_THRESHOLD
      else tx_version tx \<ge> 1) \<and>
     (vin tx \<noteq> [] \<or> v_joinsplit tx \<noteq> [] \<or> v_shielded_spend tx \<noteq> []) \<and>
     (vout tx \<noteq> [] \<or> v_joinsplit tx \<noteq> [] \<or> v_shielded_output tx \<noteq> []) \<and>
     transaction_serialize_size alloc tx \<le> MAX_TX_SIZE_AFTER_SAPLING \<and> amounts_ok tx \<and>
     distinct (map prevout (vin tx)) \<and> distinct (concat (map nullifiers (v_joinsplit tx))) \<and>
     distinct (map sd_nullifier (v_shielded_spend tx)) \<and>
     (if transaction_is_coinbase tx
      then v_joinsplit tx = [] \<and> v_shielded_spend tx = [] \<and> v_shielded_output tx = [] \<and>
        length (script_sig (vin tx ! 0)) \<in> {2..100}
      else list_all (\<lambda>i. \<not> outpoint_is_null (prevout i)) (vin tx))"

definition wf_ids :: "transaction \<Rightarrow> bool" where
  "wf_ids tx \<longleftrightarrow> list_all wf_tx_in (vin tx) \<and> list_all (\<lambda>s. length (sd_nullifier s) = 32) (v_shielded_spend tx) \<and>
     all32 (concat (map nullifiers (v_joinsplit tx)))"

lemma wf_fields_ids: "wf_fields tx \<Longrightarrow> wf_ids tx"
  by (auto simp: wf_ids_def wf_fields_def wf_sapling_def wf_joinsplits_def wf_spend_def wf_js_def blobs_def
      list_all_iff split: if_splits)

lemma structural_accept:
  assumes "wf_ids tx"
  shows "domain_consensus_check_transaction_structural alloc (Some tx) = Some (Inr ()) \<longleftrightarrow> structurally_valid alloc tx"
proof -
  have d: "dup_prevout (vin tx) \<longleftrightarrow> \<not> distinct (map prevout (vin tx))"
    "dup_js_nullifier [] (v_joinsplit tx) \<longleftrightarrow> \<not> distinct (concat (map nullifiers (v_joinsplit tx)))"
    "dup_spend_nullifier (v_shielded_spend tx) \<longleftrightarrow> \<not> distinct (map sd_nullifier (v_shielded_spend tx))"
    using assms by (simp_all add: wf_ids_def dup_prevout_distinct dup_js_distinct dup_spend_distinct)
  have v: "check_versions tx = Some (Inr ()) \<longleftrightarrow>
      (if overwintered tx
       then tx_version tx \<ge> 3 \<and> version_group_id tx \<in> {OVERWINTER_VERSION_GROUP_ID, SAPLING_VERSION_GROUP_ID} \<and>
         expiry_height tx < TX_EXPIRY_HEIGHT_THRESHOLD
       else tx_version tx \<ge> 1)"
    by (auto simp: check_versions_def accept)
  have c: "check_coinbase_rules tx = Some (Inr ()) \<longleftrightarrow>
      (if transaction_is_coinbase tx
       then v_joinsplit tx = [] \<and> v_shielded_spend tx = [] \<and> v_shielded_output tx = [] \<and>
         length (script_sig (vin tx ! 0)) \<in> {2..100}
       else list_all (\<lambda>i. \<not> outpoint_is_null (prevout i)) (vin tx))"
    by (auto simp: check_coinbase_rules_def accept list_ex_iff list_all_iff)
  show ?thesis
    unfolding domain_consensus_check_transaction_structural_def structurally_valid_def option.case
      andthen_accept unit_all_eq1 v c check_amounts_accept reject_if_accept d
    by (auto simp: v c check_amounts_accept reject_if_accept d)
qed

lemma defined_structural: "domain_consensus_check_transaction_structural alloc tx \<noteq> None"
proof (cases tx)
  case (Some t)
  then show ?thesis
    unfolding domain_consensus_check_transaction_structural_def check_versions_def check_coinbase_rules_def
    by (simp only: option.case) (intro defined defined_check_amounts)
qed (simp add: domain_consensus_check_transaction_structural_def)

lemma sapling_accept:
  assumes "0 \<le> h" "consensus_network_upgrade_active p h UPGRADE_OVERWINTER = Some ov"
    "consensus_network_upgrade_active p h UPGRADE_SAPLING = Some sap" "sap \<Longrightarrow> ov"
  shows "domain_consensus_check_transaction_sapling_structural alloc (Some tx) (Some p) h dos = Some (Inr ()) \<longleftrightarrow>
    (if sap then is_sapling_v4 (overwintered tx) (version_group_id tx) (tx_version tx)
     else (if ov then overwintered tx \<and> version_group_id tx = OVERWINTER_VERSION_GROUP_ID \<and> tx_version tx \<le> 3
           else \<not> overwintered tx) \<and>
       transaction_serialize_size alloc tx \<le> MAX_TX_SIZE_BEFORE_SAPLING)"
  using assms
  by (auto simp: domain_consensus_check_transaction_sapling_structural_def sapling_version_rules_def accept
      is_sapling_v4_def)

lemma shielded_value_in_total:
  assumes "total_in_range (value_in_amounts tx)"
  shows "transaction_get_shielded_value_in tx = Some (sum_list (value_in_amounts tx))"
proof -
  let ?news = "map vpub_new (v_joinsplit tx)"
  have nn: "list_all MoneyRange ?news" "0 \<le> sum_list ?news"
    using assms money_sum_nonneg [of ?news] by (auto simp: total_in_range_def value_in_amounts_def)
  have "money_loop acc ?news = Some (Some (acc + sum_list ?news))"
    if "MoneyRange acc" "MoneyRange (acc + sum_list ?news)" for acc
    using that nn by (simp add: money_loop_iff)
  moreover have "value_balance tx \<ge> 0 \<Longrightarrow> money_loop 0 [value_balance tx] = Some (Some (value_balance tx))"
    using assms by (simp add: total_in_range_def value_in_amounts_def money_range_int64 ck64_def)
  ultimately show ?thesis using assms nn
    by (auto simp: transaction_get_shielded_value_in_def value_in_amounts_def total_in_range_def MoneyRange_def add.commute)
qed

lemma serialize_size_enc:
  assumes "wf_fields tx"
  shows "transaction_serialize_size (\<lambda>_. True) tx = length (enc_transaction tx)"
proof -
  have "writable (\<lambda>_. True) (stream_init (\<lambda>_. True) 4096) (length (enc_transaction tx))"
    using length_enc_transaction [OF assms] by (simp add: writable_def stream_init_def)
  then obtain s where "transaction_serialize (\<lambda>_. True) tx (stream_init (\<lambda>_. True) 4096) = (s, True)"
    "extends (stream_init (\<lambda>_. True) 4096) s (enc_transaction tx)"
    using writes_transaction [OF assms, of "\<lambda>_. True"] unfolding writes_def by (metis prod.collapse)
  then show ?thesis by (simp add: extends_def stream_init_def transaction_serialize_size_def)
qed

definition sample_tx :: transaction where
  "sample_tx = transaction_init\<lparr>vin := [\<lparr>prevout = \<lparr>op_hash = replicate 32 1, op_n = 0\<rparr>, script_sig = [], in_sequence = 0\<rparr>],
     vout := [\<lparr>out_value = 5, script_pub_key = []\<rparr>]\<rparr>"

lemma sample_tx_wf: "wf_fields sample_tx"
  by (simp add: sample_tx_def transaction_init_def wf_fields_def wf_version_def wf_sapling_def wf_joinsplits_def
      wf_tx_in_def wf_tx_out_def wf_outpoint_def wf_script_def is_int64_def)

lemma sample_tx_size: "transaction_serialize_size (\<lambda>_. True) sample_tx = 60"
  by (simp add: serialize_size_enc [OF sample_tx_wf])
    (simp add: sample_tx_def transaction_init_def enc_transaction_def enc_vec_def enc_when_def enc_tx_in_def enc_tx_out_def
      enc_outpoint_def enc_script_def length_enc_compact_size compact_size_sizeof_def Let_def)

lemma sample_tx_valid: "structurally_valid (\<lambda>_. True) sample_tx"
  using sample_tx_size
  by (simp add: structurally_valid_def sample_tx_def transaction_init_def amounts_ok_def total_in_range_def
      value_out_amounts_def value_in_amounts_def MoneyRange_def transaction_is_coinbase_def outpoint_is_null_def)

section \<open>Properties\<close>

text \<open>
  C33: the structural check computes a result for every transaction: none of its running sums overflows
  an \<^verbatim>\<open>int64_t\<close>, whatever amounts the transaction carries.
\<close>

theorem structural_check_no_overflow:
  "domain_consensus_check_transaction_structural alloc tx \<noteq> None"
  by (rule defined_structural)

text \<open>
  C13: for a transaction as the parser produces it, the structural check accepts exactly the transactions
  that satisfy the documented rules: version and group id, existence of inputs and outputs, the size
  cap, every amount and every total in the money range, no duplicate prevout or nullifier, and the
  coinbase restrictions.
\<close>

theorem structural_check_accepts_iff:
  assumes "wf_fields tx"
  shows "domain_consensus_check_transaction_structural alloc (Some tx) = Some (Inr ()) \<longleftrightarrow> structurally_valid alloc tx"
  using assms by (intro structural_accept wf_fields_ids)

theorem structural_check_accepts_iff_witness:
  "domain_consensus_check_transaction_structural (\<lambda>_. True) (Some sample_tx) = Some (Inr ()) \<longleftrightarrow>
     structurally_valid (\<lambda>_. True) sample_tx"
  by (rule structural_check_accepts_iff [OF sample_tx_wf])

text \<open>
  The two value totals of a transaction that passed the structural check are defined: neither
  \<^verbatim>\<open>transaction_get_value_out\<close> nor \<^verbatim>\<open>transaction_get_shielded_value_in\<close> overflows or reports -1, and both are
  in the money range.
\<close>

lemma structural_check_guards_totals:
  assumes "wf_fields tx" "domain_consensus_check_transaction_structural alloc (Some tx) = Some (Inr ())"
  shows "\<exists>v w. transaction_get_value_out tx = Some v \<and> MoneyRange v \<and>
               transaction_get_shielded_value_in tx = Some w \<and> MoneyRange w"
proof -
  have a: "amounts_ok tx" using assms structural_accept wf_fields_ids by (auto simp: structurally_valid_def)
  then have "transaction_get_value_out tx = Some (sum_list (value_out_amounts tx))"
    using value_out_total by (simp add: amounts_ok_def total_in_range_def)
  moreover have "transaction_get_shielded_value_in tx = Some (sum_list (value_in_amounts tx))"
    using a by (intro shielded_value_in_total) (simp add: amounts_ok_def)
  ultimately show ?thesis using a by (simp add: amounts_ok_def total_in_range_def)
qed

text \<open>
  The shape of an accepted transaction follows the epoch. A transaction that passes the structural
  and the height-dependent check is a Sapling v4 transaction once Sapling is active, an Overwinter v3
  one between Overwinter and Sapling, and before Overwinter it is not overwintered.
\<close>

lemma accepted_tx_shape:
  assumes "wf_fields tx" "0 \<le> h"
    and "consensus_network_upgrade_active p h UPGRADE_OVERWINTER = Some ov"
    and "consensus_network_upgrade_active p h UPGRADE_SAPLING = Some sap" "sap \<longrightarrow> ov"
    and "domain_consensus_check_transaction_structural alloc (Some tx) = Some (Inr ())"
    and "domain_consensus_check_transaction_sapling_structural alloc (Some tx) (Some p) h dos = Some (Inr ())"
  shows "if sap then is_sapling_v4 (overwintered tx) (version_group_id tx) (tx_version tx)
         else if ov then is_overwinter_v3 (overwintered tx) (version_group_id tx) (tx_version tx)
         else \<not> overwintered tx \<and> tx_version tx \<ge> 1"
proof -
  have "structurally_valid alloc tx" using assms(1,6) structural_accept wf_fields_ids by blast
  then show ?thesis using assms(7) sapling_accept [OF assms(2-4), of alloc tx dos] assms(5)
    by (auto simp: structurally_valid_def is_overwinter_v3_def split: if_splits)
qed

end
