(* ===== verification/Block_Checks.thy ===== *)
theory Block_Checks
  imports Pow Merkle Tx_Checks
begin

text \<open>
  The rules on headers and whole blocks that need no coins: \<^verbatim>\<open>domain/consensus/src/check_block.c\<close>,
  \<^verbatim>\<open>sigops.c\<close>, \<^verbatim>\<open>header_accept.c\<close> and \<^verbatim>\<open>checkpoints.c\<close>, and the functions of \<^verbatim>\<open>lib/validation\<close> that run
  them on a \<^verbatim>\<open>validation_state\<close>: \<^verbatim>\<open>check_block.c\<close>, \<^verbatim>\<open>check_transaction.c\<close>, \<^verbatim>\<open>contextual_check_tx.c\<close>.

  A function on a \<^verbatim>\<open>validation_state\<close> is a \<open>vcheck\<close>: the state and the boolean it returns, \<open>None\<close> for an
  execution without a meaning in C. The Equihash verifier (\<open>None\<close> when the registry has none), the
  adjusted time and the verifiers of the shielded proofs are parameters. Events and log lines are
  left out.
\<close>

section \<open>Model\<close>

subsection \<open>The validation state\<close>

datatype validation_mode = MODE_VALID | MODE_INVALID | MODE_ERROR

record validation_state =
  vs_mode :: validation_mode
  vs_dos :: int
  reject_reason :: string
  reject_code :: nat
  corruption_possible :: bool
  missing_utxo :: "outpoint option"

definition validation_state_init :: validation_state where
  "validation_state_init = \<lparr>vs_mode = MODE_VALID, vs_dos = 0, reject_reason = [], reject_code = 0,
     corruption_possible = False, missing_utxo = None\<rparr>"

abbreviation (input) REJECT_INVALID :: nat where "REJECT_INVALID \<equiv> 0x10"
abbreviation (input) REJECT_OBSOLETE :: nat where "REJECT_OBSOLETE \<equiv> 0x11"
abbreviation (input) REJECT_CHECKPOINT :: nat where "REJECT_CHECKPOINT \<equiv> 0x43"

type_synonym vcheck = "validation_state \<Rightarrow> (validation_state \<times> bool) option"

text \<open>The call sites all pass false as the value to return. The sum of scores is an \<^verbatim>\<open>int\<close>.\<close>

definition validation_state_dos :: "int \<Rightarrow> nat \<Rightarrow> string \<Rightarrow> bool \<Rightarrow> vcheck" where
  "validation_state_dos level code reason corruption s =
     (let s1 = s\<lparr>reject_code := code, reject_reason := take 255 reason, corruption_possible := corruption\<rparr>
      in if vs_mode s = MODE_ERROR then Some (s1, False)
         else do { d \<leftarrow> ck32 (vs_dos s + level); Some (s1\<lparr>vs_dos := d, vs_mode := MODE_INVALID\<rparr>, False) })"

definition validation_state_invalid :: "nat \<Rightarrow> string \<Rightarrow> vcheck" where
  "validation_state_invalid code reason = validation_state_dos 0 code reason False"

definition validation_state_error :: "string \<Rightarrow> vcheck" where
  "validation_state_error reason s =
     Some ((if vs_mode s = MODE_VALID then s\<lparr>reject_reason := take 255 reason\<rparr> else s)\<lparr>vs_mode := MODE_ERROR\<rparr>, False)"

definition vpass :: vcheck where
  "vpass s = Some (s, True)"

definition vthen :: "vcheck \<Rightarrow> vcheck \<Rightarrow> vcheck" where
  "vthen a b s = (case a s of None \<Rightarrow> None | Some (s1, ok) \<Rightarrow> if ok then b s1 else Some (s1, False))"

text \<open>A value whose computation may be undefined.\<close>

definition vwith :: "'a option \<Rightarrow> ('a \<Rightarrow> vcheck) \<Rightarrow> vcheck" where
  "vwith x f s = (case x of None \<Rightarrow> None | Some y \<Rightarrow> f y s)"

definition REJECT_IF :: "bool \<Rightarrow> int \<Rightarrow> string \<Rightarrow> vcheck" where
  "REJECT_IF c dos reason = (if c then validation_state_dos dos REJECT_INVALID reason False else vpass)"

definition REJECT_CORRUPT_IF :: "bool \<Rightarrow> int \<Rightarrow> string \<Rightarrow> vcheck" where
  "REJECT_CORRUPT_IF c dos reason = (if c then validation_state_dos dos REJECT_INVALID reason True else vpass)"

definition REJECT_OBSOLETE_IF :: "bool \<Rightarrow> string \<Rightarrow> vcheck" where
  "REJECT_OBSOLETE_IF c reason = (if c then validation_state_invalid REJECT_OBSOLETE reason else vpass)"

definition REJECT_INVALID_IF :: "bool \<Rightarrow> string \<Rightarrow> vcheck" where
  "REJECT_INVALID_IF c reason = (if c then validation_state_invalid REJECT_INVALID reason else vpass)"

definition REJECT_CHECKPOINT_IF :: "bool \<Rightarrow> int \<Rightarrow> string \<Rightarrow> vcheck" where
  "REJECT_CHECKPOINT_IF c dos reason = (if c then validation_state_dos dos REJECT_CHECKPOINT reason False else vpass)"

text \<open>A loop that calls the check on each element and stops at the first that fails.\<close>

fun vall :: "('a \<Rightarrow> vcheck) \<Rightarrow> 'a list \<Rightarrow> vcheck" where
  "vall f [] = vpass"
| "vall f (x # xs) = vthen (f x) (vall f xs)"

subsection \<open>Signature operations\<close>

datatype sigops_err = SIGOPS_NULL_TX | SIGOPS_NULL_OUT | SIGOPS_NULL_PREVOUTS

abbreviation (input) SCRIPT_VERIFY_NONE :: u32 where "SCRIPT_VERIFY_NONE \<equiv> 0"

definition domain_consensus_tx_legacy_sig_op_count :: "transaction option \<Rightarrow> u32 \<Rightarrow> bool \<Rightarrow> sigops_err + u64" where
  "domain_consensus_tx_legacy_sig_op_count tx_opt flags out =
     (case tx_opt of None \<Rightarrow> Inl SIGOPS_NULL_TX | Some tx \<Rightarrow>
      if \<not> out then Inl SIGOPS_NULL_OUT
      else Inr (foldl (\<lambda>n out. n + ucast (script_get_sig_op_count (script_pub_key out) flags False))
                 (foldl (\<lambda>n i. n + ucast (script_get_sig_op_count (script_sig i) flags False)) 0 (vin tx))
                 (vout tx)))"

text \<open>\<open>prevouts\<close> is NULL or one pointer for each input.\<close>

definition domain_consensus_tx_p2sh_sig_op_count ::
  "transaction option \<Rightarrow> tx_out option list option \<Rightarrow> u32 \<Rightarrow> bool \<Rightarrow> sigops_err + u64" where
  "domain_consensus_tx_p2sh_sig_op_count tx_opt prevouts flags out =
     (case tx_opt of None \<Rightarrow> Inl SIGOPS_NULL_TX | Some tx \<Rightarrow>
      if \<not> out then Inl SIGOPS_NULL_OUT
      else if flags AND SCRIPT_VERIFY_P2SH = 0 then Inr 0
      else if transaction_is_coinbase tx then Inr 0
      else
        (case prevouts of
           None \<Rightarrow> if vin tx \<noteq> [] then Inl SIGOPS_NULL_PREVOUTS else Inr 0
         | Some ps \<Rightarrow>
             Inr (foldl (\<lambda>n (p, i). case p of
                           None \<Rightarrow> n
                         | Some out \<Rightarrow>
                             if \<not> script_is_pay_to_script_hash (script_pub_key out) then n
                             else n + ucast (script_get_sig_op_count_p2sh (script_pub_key out) (script_sig i) flags))
                    0 (zip ps (vin tx)))))"

definition get_legacy_sig_op_count :: "transaction option \<Rightarrow> u32 \<Rightarrow> u64" where
  "get_legacy_sig_op_count tx flags =
     (case domain_consensus_tx_legacy_sig_op_count tx flags True of Inl _ \<Rightarrow> 0 | Inr n \<Rightarrow> n)"

subsection \<open>Structure of a block\<close>

datatype check_block_err =
    CB_NULL_ARG | CB_BAD_BLK_LENGTH | CB_BAD_CB_MISSING | CB_BAD_CB_MULTIPLE | CB_BAD_TXNMRKLROOT
  | CB_BAD_TXNS_DUP | CB_BAD_BLK_SIGOPS | CB_OUT_OF_MEMORY

abbreviation (input) DOMAIN_GENEROUS_BLOCK_TXN_LIMIT :: nat where "DOMAIN_GENEROUS_BLOCK_TXN_LIMIT \<equiv> 2000000"
abbreviation (input) DOMAIN_MAX_BLOCK_SIGOPS :: u32 where "DOMAIN_MAX_BLOCK_SIGOPS \<equiv> 20000"

definition domain_consensus_check_block_merkle_root ::
  "hashfun \<Rightarrow> alloc \<Rightarrow> calloc \<Rightarrow> block option \<Rightarrow> (check_block_err, unit) check" where
  "domain_consensus_check_block_merkle_root hash256 alloc calloc block_opt =
     (case block_opt of None \<Rightarrow> Some (Inl (CB_NULL_ARG, None, 0)) | Some b \<Rightarrow>
      andthen (reject_if (vtx b \<noteq> [] \<and> \<not> calloc ''domain_check_block_txids'' (length (vtx b)))
                 CB_OUT_OF_MEMORY ''out-of-memory'' 0) (\<lambda>_.
      case compute_merkle_root_mutated hash256 alloc (map tx_hash (vtx b)) of (merkle_root, mutated) \<Rightarrow>
      andthen (reject_if (hdr_hashMerkleRoot (blk_header b) \<noteq> merkle_root)
                 CB_BAD_TXNMRKLROOT ''bad-txnmrklroot'' 100) (\<lambda>_.
      reject_if mutated CB_BAD_TXNS_DUP ''bad-txns-duplicate'' 100)))"

definition domain_consensus_check_block_size_and_coinbase :: "block option \<Rightarrow> (check_block_err, unit) check" where
  "domain_consensus_check_block_size_and_coinbase block_opt =
     (case block_opt of None \<Rightarrow> Some (Inl (CB_NULL_ARG, None, 0)) | Some b \<Rightarrow>
      andthen (reject_if (length (vtx b) = 0 \<or> length (vtx b) > DOMAIN_GENEROUS_BLOCK_TXN_LIMIT)
                 CB_BAD_BLK_LENGTH ''bad-blk-length'' 100) (\<lambda>_.
      andthen (reject_if (\<not> transaction_is_coinbase (vtx b ! 0)) CB_BAD_CB_MISSING ''bad-cb-missing'' 100) (\<lambda>_.
      reject_if (list_ex transaction_is_coinbase (drop 1 (vtx b))) CB_BAD_CB_MULTIPLE ''bad-cb-multiple'' 100)))"

text \<open>The counts of the transactions, each truncated to 32 bits, added in 32 bits.\<close>

definition block_sig_ops :: "transaction list \<Rightarrow> u32" where
  "block_sig_ops txs = foldl (\<lambda>n tx. n + ucast (get_legacy_sig_op_count (Some tx) SCRIPT_VERIFY_NONE)) 0 txs"

definition domain_consensus_check_block_sigops :: "block option \<Rightarrow> (check_block_err, unit) check" where
  "domain_consensus_check_block_sigops block_opt =
     (case block_opt of None \<Rightarrow> Some (Inl (CB_NULL_ARG, None, 0)) | Some b \<Rightarrow>
      reject_if (block_sig_ops (vtx b) > DOMAIN_MAX_BLOCK_SIGOPS) CB_BAD_BLK_SIGOPS ''bad-blk-sigops'' 100)"

subsection \<open>Header rules of the domain layer\<close>

datatype header_accept_err =
    HA_NULL_ARG | HA_VERSION_TOO_LOW | HA_BAD_VERSION | HA_TIME_TOO_NEW | HA_TIME_TOO_OLD
  | HA_BAD_EQUIHASH_SOL_SIZE | HA_BAD_DIFFBITS

definition with_header :: "block_header option \<Rightarrow> (block_header \<Rightarrow> (header_accept_err, unit) check) \<Rightarrow> (header_accept_err, unit) check" where
  "with_header h_opt f = (case h_opt of None \<Rightarrow> Some (Inl (HA_NULL_ARG, None, 0)) | Some h \<Rightarrow> f h)"

definition domain_consensus_check_header_version_too_low ::
  "block_header option \<Rightarrow> int \<Rightarrow> (header_accept_err, unit) check" where
  "domain_consensus_check_header_version_too_low header min_version = with_header header (\<lambda>h.
     reject_if (hdr_nVersion h < min_version) HA_VERSION_TOO_LOW ''version-too-low'' 100)"

definition domain_consensus_check_header_version_obsolete ::
  "block_header option \<Rightarrow> int \<Rightarrow> (header_accept_err, unit) check" where
  "domain_consensus_check_header_version_obsolete header obsolete_below = with_header header (\<lambda>h.
     reject_if (hdr_nVersion h < obsolete_below) HA_BAD_VERSION ''bad-version'' 0)"

definition domain_consensus_check_header_timestamp_too_new ::
  "block_header option \<Rightarrow> int \<Rightarrow> (header_accept_err, unit) check" where
  "domain_consensus_check_header_timestamp_too_new header now_upper_bound = with_header header (\<lambda>h.
     reject_if (block_header_get_time h > now_upper_bound) HA_TIME_TOO_NEW ''time-too-new'' 0)"

definition domain_consensus_check_header_timestamp_too_old ::
  "block_header option \<Rightarrow> int \<Rightarrow> (header_accept_err, unit) check" where
  "domain_consensus_check_header_timestamp_too_old header prev_mtp = with_header header (\<lambda>h.
     reject_if (block_header_get_time h \<le> prev_mtp) HA_TIME_TOO_OLD ''time-too-old'' 0)"

definition domain_consensus_check_header_equihash_solution_size ::
  "block_header option \<Rightarrow> nat \<Rightarrow> (header_accept_err, unit) check" where
  "domain_consensus_check_header_equihash_solution_size header expected = with_header header (\<lambda>h.
     reject_if (length (hdr_nSolution h) > 0 \<and> length (hdr_nSolution h) \<noteq> expected)
       HA_BAD_EQUIHASH_SOL_SIZE ''bad-equihash-solution-size'' 100)"

definition domain_consensus_check_header_bits_match ::
  "block_header option \<Rightarrow> u32 \<Rightarrow> (header_accept_err, unit) check" where
  "domain_consensus_check_header_bits_match header expected_bits = with_header header (\<lambda>h.
     reject_if (hdr_nBits h \<noteq> expected_bits) HA_BAD_DIFFBITS ''bad-diffbits'' 100)"

subsection \<open>Checkpoints\<close>

record checkpoint_entry =
  cp_height :: int
  cp_hash :: bytes

type_synonym checkpoint_data = "checkpoint_entry list"

definition domain_consensus_checkpoints_hash_at_height :: "checkpoint_data option \<Rightarrow> int \<Rightarrow> bytes option" where
  "domain_consensus_checkpoints_hash_at_height data height =
     (case data of None \<Rightarrow> None
      | Some es \<Rightarrow> map_option cp_hash (find (\<lambda>e. cp_height e = height) es))"

definition domain_consensus_checkpoints_last_height :: "checkpoint_data option \<Rightarrow> int" where
  "domain_consensus_checkpoints_last_height data =
     (case data of None \<Rightarrow> -1
      | Some es \<Rightarrow> foldl (\<lambda>best e. if cp_height e > best then cp_height e else best) (-1) es)"

definition domain_consensus_checkpoints_validate_header :: "checkpoint_data option \<Rightarrow> int \<Rightarrow> bytes option \<Rightarrow> bool" where
  "domain_consensus_checkpoints_validate_header data height hash =
     (case hash of None \<Rightarrow> True | Some h \<Rightarrow>
      (case domain_consensus_checkpoints_hash_at_height data height of
         None \<Rightarrow> True | Some expected \<Rightarrow> h = expected))"

definition domain_consensus_checkpoints_total_blocks_estimate :: "checkpoint_data option \<Rightarrow> int" where
  "domain_consensus_checkpoints_total_blocks_estimate data =
     (case data of None \<Rightarrow> 0 | Some es \<Rightarrow> if es = [] then 0 else cp_height (es ! (length es - 1)))"

text \<open>\<^verbatim>\<open>LOG_ERR\<close> returns \<^verbatim>\<open>-1\<close>.\<close>

definition checkpoints_get_total_blocks_estimate :: "checkpoint_data option \<Rightarrow> int" where
  "checkpoints_get_total_blocks_estimate data = domain_consensus_checkpoints_total_blocks_estimate data"

definition checkpoints_hash_at_height :: "checkpoint_data option \<Rightarrow> int \<Rightarrow> bytes option" where
  "checkpoints_hash_at_height data height =
     (if data = None then None else domain_consensus_checkpoints_hash_at_height data height)"

definition checkpoints_last_height :: "checkpoint_data option \<Rightarrow> int" where
  "checkpoints_last_height data =
     (if data = None \<or> data = Some [] then -1 else domain_consensus_checkpoints_last_height data)"

definition checkpoints_validate_header :: "checkpoint_data option \<Rightarrow> int \<Rightarrow> bytes option \<Rightarrow> bool" where
  "checkpoints_validate_header data height hash = domain_consensus_checkpoints_validate_header data height hash"

subsection \<open>Transactions on a validation state\<close>

text \<open>How a verdict of the domain layer reaches the state; a missing reason is the empty string.\<close>

definition on_reject :: "('e, unit) check \<Rightarrow> ('e \<Rightarrow> string \<Rightarrow> int \<Rightarrow> vcheck) \<Rightarrow> vcheck" where
  "on_reject c f s =
     (case c of None \<Rightarrow> None
      | Some (Inr _) \<Rightarrow> Some (s, True)
      | Some (Inl (e, reason, dos)) \<Rightarrow> f e (case reason of None \<Rightarrow> [] | Some r \<Rightarrow> r) dos s)"

definition check_transaction :: "alloc \<Rightarrow> transaction \<Rightarrow> vcheck" where
  "check_transaction alloc tx =
     on_reject (domain_consensus_check_transaction_structural alloc (Some tx))
       (\<lambda>_ reason dos. validation_state_dos dos REJECT_INVALID reason False)"

text \<open>
  The functions that check signatures and proofs. The Sapling context is threaded through the checks
  of the descriptions; \<^verbatim>\<open>signature_hash\<close> is taken at the arguments the function passes.
\<close>

record 'ctx proof_verifiers =
  pv_signature_hash :: "transaction \<Rightarrow> u32 \<Rightarrow> bytes option"
  pv_ed25519_verify :: "bytes \<Rightarrow> bytes \<Rightarrow> bytes \<Rightarrow> bool"
  pv_ctx_init :: "'ctx option"
  pv_check_spend :: "'ctx \<Rightarrow> spend_description \<Rightarrow> bytes \<Rightarrow> 'ctx \<times> bool"
  pv_check_output :: "'ctx \<Rightarrow> output_description \<Rightarrow> 'ctx \<times> bool"
  pv_final_check :: "'ctx \<Rightarrow> int \<Rightarrow> bytes \<Rightarrow> bytes \<Rightarrow> bool"
  pv_verify_groth16 :: "js_description \<Rightarrow> bytes \<Rightarrow> bool"
  pv_verify_phgr13 :: "js_description \<Rightarrow> bytes \<Rightarrow> bool"

fun check_descriptions :: "('ctx \<Rightarrow> 'd \<Rightarrow> 'ctx \<times> bool) \<Rightarrow> 'ctx \<Rightarrow> 'd list \<Rightarrow> 'ctx option" where
  "check_descriptions f ctx [] = Some ctx"
| "check_descriptions f ctx (d # ds) = (case f ctx d of (ctx1, ok) \<Rightarrow> if ok then check_descriptions f ctx1 ds else None)"

definition sapling_proofs :: "'ctx proof_verifiers \<Rightarrow> transaction \<Rightarrow> bytes \<Rightarrow> vcheck" where
  "sapling_proofs pv tx data =
     (case pv_ctx_init pv of
        None \<Rightarrow> validation_state_dos 100 REJECT_INVALID ''sapling-verification-ctx-init-failed'' False
      | Some ctx \<Rightarrow>
          (case check_descriptions (\<lambda>c d. pv_check_spend pv c d data) ctx (v_shielded_spend tx) of
             None \<Rightarrow> validation_state_dos 100 REJECT_INVALID ''bad-txns-sapling-spend-description-invalid'' False
           | Some ctx1 \<Rightarrow>
               (case check_descriptions (pv_check_output pv) ctx1 (v_shielded_output tx) of
                  None \<Rightarrow> validation_state_dos 100 REJECT_INVALID ''bad-txns-sapling-output-description-invalid'' False
                | Some ctx2 \<Rightarrow>
                    REJECT_IF (\<not> pv_final_check pv ctx2 (value_balance tx) (binding_sig tx) data)
                      100 ''bad-txns-sapling-binding-sig-invalid'')))"

definition joinsplit_proof :: "'ctx proof_verifiers \<Rightarrow> transaction \<Rightarrow> js_description \<Rightarrow> vcheck" where
  "joinsplit_proof pv tx js =
     (if use_groth js
      then REJECT_IF (\<not> pv_verify_groth16 pv js (joinsplit_pubkey tx)) 100 ''bad-txns-joinsplit-proof-invalid''
      else REJECT_IF (\<not> pv_verify_phgr13 pv js (joinsplit_pubkey tx)) 100 ''bad-txns-joinsplit-phgr13-invalid'')"

text \<open>The proofs, with the hash they sign; skipped below the height set by a flag of the node.\<close>

definition shielded_checks :: "'ctx proof_verifiers \<Rightarrow> transaction \<Rightarrow> u32 \<Rightarrow> vcheck" where
  "shielded_checks pv tx branch_id =
     (if v_joinsplit tx = [] \<and> v_shielded_spend tx = [] \<and> v_shielded_output tx = [] then vpass
      else
        (case pv_signature_hash pv tx branch_id of
           None \<Rightarrow> validation_state_dos 100 REJECT_INVALID ''error-computing-signature-hash'' False
         | Some data \<Rightarrow>
             vthen (REJECT_IF (v_joinsplit tx \<noteq> [] \<and> \<not> pv_ed25519_verify pv (joinsplit_sig tx) data (joinsplit_pubkey tx))
                      100 ''bad-txns-joinsplit-signature'')
            (vthen (if v_shielded_spend tx \<noteq> [] \<or> v_shielded_output tx \<noteq> [] then sapling_proofs pv tx data else vpass)
               (vall (joinsplit_proof pv tx) (v_joinsplit tx)))))"

definition contextual_check_transaction ::
  "alloc \<Rightarrow> 'ctx proof_verifiers \<Rightarrow> int \<Rightarrow> consensus_params \<Rightarrow> int \<Rightarrow> int \<Rightarrow> transaction \<Rightarrow> vcheck" where
  "contextual_check_transaction alloc pv deferred_below params nHeight dosLevel tx =
     vthen (on_reject (domain_consensus_check_transaction_sapling_structural alloc (Some tx) (Some params) nHeight dosLevel)
              (\<lambda>_ reason dos. validation_state_dos dos REJECT_INVALID reason False))
    (vthen (vwith (consensus_network_upgrade_active params nHeight UPGRADE_OVERWINTER) (\<lambda>overwinterActive.
              if overwinterActive \<and> domain_consensus_tx_is_expired (Some tx) nHeight
              then vwith (ck32 (nHeight - 1)) (\<lambda>h1.
                     REJECT_IF True (if domain_consensus_tx_is_expired (Some tx) h1 then dosLevel else 0) ''tx-overwinter-expired'')
              else vpass))
       (if deferred_below \<ge> 0 \<and> nHeight \<le> deferred_below then vpass
        else shielded_checks pv tx (consensus_current_epoch_branch_id nHeight params)))"

subsection \<open>Headers and blocks on a validation state\<close>

abbreviation (input) MIN_BLOCK_VERSION :: int where "MIN_BLOCK_VERSION \<equiv> 4"
abbreviation (input) BLOCK_HEADER_SIZE :: nat where "BLOCK_HEADER_SIZE \<equiv> 140"

definition block_header_equihash_input :: "block_header \<Rightarrow> bytes" where
  "block_header_equihash_input h =
     enc_u32 (word_of_int (hdr_nVersion h)) @ hdr_hashPrevBlock h @ hdr_hashMerkleRoot h @ hdr_hashFinalSaplingRoot h @
     enc_u32 (hdr_nTime h) @ enc_u32 (hdr_nBits h) @ hdr_nNonce h"

type_synonym equihash = "(bytes \<Rightarrow> bytes \<Rightarrow> bool) option"

definition check_equihash_solution_via_registry :: "equihash \<Rightarrow> block_header \<Rightarrow> bool" where
  "check_equihash_solution_via_registry scheme h =
     (case scheme of None \<Rightarrow> False
      | Some zk_verify \<Rightarrow> zk_verify (block_header_equihash_input h) (hdr_nSolution h))"

definition check_block_header_impl ::
  "alloc \<Rightarrow> hashfun \<Rightarrow> equihash \<Rightarrow> int \<Rightarrow> chain_params \<Rightarrow> bool \<Rightarrow> block_header \<Rightarrow> vcheck" where
  "check_block_header_impl alloc hash256 scheme adjusted_time params check_pow h =
     vthen (REJECT_IF (hdr_nVersion h < MIN_BLOCK_VERSION) 100 ''version-too-low'')
    (vthen (if check_pow then
              vthen (REJECT_IF (\<not> check_equihash_solution_via_registry scheme h) 100 ''invalid-solution'')
                (REJECT_IF (\<not> CheckProofOfWork (block_header_get_hash alloc hash256 h) (hdr_nBits h) (Some (consensus params)))
                   50 ''high-hash'')
            else vpass)
      (vwith (ck64 (adjusted_time + 2 * 60 * 60))
         (\<lambda>upper. REJECT_INVALID_IF (block_header_get_time h > upper) ''time-too-new'')))"

definition check_block_header ::
  "alloc \<Rightarrow> hashfun \<Rightarrow> equihash \<Rightarrow> int \<Rightarrow> chain_params \<Rightarrow> bool \<Rightarrow> block_header \<Rightarrow> vcheck" where
  "check_block_header alloc hash256 scheme adjusted_time params check_pow h =
     check_block_header_impl alloc hash256 scheme adjusted_time params check_pow h"

definition check_block_impl ::
  "alloc \<Rightarrow> calloc \<Rightarrow> hashfun \<Rightarrow> equihash \<Rightarrow> int \<Rightarrow> chain_params \<Rightarrow> bool \<Rightarrow> bool \<Rightarrow> bool \<Rightarrow> block \<Rightarrow> vcheck" where
  "check_block_impl alloc calloc hash256 scheme adjusted_time params check_pow check_merkle_root check_size_limits b =
     vthen (check_block_header alloc hash256 scheme adjusted_time params check_pow (blk_header b))
    (vthen (if check_merkle_root then
              on_reject (domain_consensus_check_block_merkle_root hash256 alloc calloc (Some b))
                (\<lambda>e reason dos. if e = CB_OUT_OF_MEMORY then validation_state_error ''out-of-memory''
                                else REJECT_CORRUPT_IF True dos reason)
            else vpass)
      (if check_size_limits then
         vthen (on_reject (domain_consensus_check_block_size_and_coinbase (Some b)) (\<lambda>_ reason dos. REJECT_IF True dos reason))
        (vthen (vall (check_transaction alloc) (vtx b))
           (on_reject (domain_consensus_check_block_sigops (Some b)) (\<lambda>_ reason dos. REJECT_CORRUPT_IF True dos reason)))
       else vpass))"

definition check_block ::
  "alloc \<Rightarrow> calloc \<Rightarrow> hashfun \<Rightarrow> equihash \<Rightarrow> int \<Rightarrow> chain_params \<Rightarrow> bool \<Rightarrow> bool \<Rightarrow> bool \<Rightarrow> block \<Rightarrow> vcheck" where
  "check_block alloc calloc hash256 scheme adjusted_time params check_pow check_merkle_root check_size_limits b =
     check_block_impl alloc calloc hash256 scheme adjusted_time params check_pow check_merkle_root check_size_limits b"

definition solution_size :: "chain_params \<Rightarrow> int \<Rightarrow> nat" where
  "solution_size params nHeight =
     (let eh_n = chain_params_equihash_n params nHeight; eh_k = chain_params_equihash_k params nHeight
      in 2 ^ eh_k * (eh_n div (eh_k + 1) + 1) div 8)"

definition contextual_check_block_header ::
  "alloc \<Rightarrow> hashfun \<Rightarrow> store \<Rightarrow> chain_params \<Rightarrow> checkpoint_data \<Rightarrow> addr option \<Rightarrow> bool \<Rightarrow> block_header \<Rightarrow> vcheck" where
  "contextual_check_block_header alloc hash256 st params checkpointData pindex_prev checkpoints_enabled h s =
     (let hash = block_header_get_hash alloc hash256 h
      in if hash = hashGenesisBlock (consensus params) then Some (s, True)
         else case pindex_prev of
           None \<Rightarrow> validation_state_error ''prev-block-index-null'' s
         | Some a \<Rightarrow>
             do { prev \<leftarrow> st a;
                  nHeight \<leftarrow> ck32 (bi_nHeight prev + 1);
                  vthen (REJECT_IF (length (hdr_nSolution h) > 0 \<and> length (hdr_nSolution h) \<noteq> solution_size params nHeight)
                           100 ''bad-equihash-solution-size'')
                 (vthen (vwith (GetNextWorkRequired st (Some a) (Some (hdr_nTime h)) (consensus params))
                           (\<lambda>expected_bits. REJECT_IF (hdr_nBits h \<noteq> expected_bits) 100 ''bad-diffbits''))
                 (vthen (vwith (block_index_get_median_time_past st a)
                           (\<lambda>mtp. REJECT_INVALID_IF (block_header_get_time h \<le> mtp) ''time-too-old''))
                 (vthen (REJECT_CHECKPOINT_IF (checkpoints_enabled \<and>
                            \<not> checkpoints_validate_header (Some checkpointData) nHeight (Some hash)) 100 ''bad-fork-at-checkpoint'')
                    (REJECT_OBSOLETE_IF (hdr_nVersion h < 4) ''bad-version'')))) s })"

text \<open>The bytes of a positive number, least significant first.\<close>

function height_bytes :: "int \<Rightarrow> bytes" where
  "height_bytes h = (if h > 0 then word_of_int (h AND 0xff) # height_bytes (drop_bit 8 h) else [])"
  by auto

termination
  by (relation "measure nat") (auto simp: drop_bit_eq_div)

declare height_bytes.simps [simp del]

definition bip34_check_coinbase_height :: "transaction \<Rightarrow> int \<Rightarrow> bool" where
  "bip34_check_coinbase_height coinbase nHeight =
     (if vin coinbase = [] then False
      else
        (let sig = script_sig (vin coinbase ! 0)
         in if nHeight \<le> 0 then True
            else if sig = [] then False
            else if 1 \<le> nHeight \<and> nHeight \<le> 16 \<and> sig ! 0 = 0x50 + word_of_int nHeight then True
            else
              (let num0 = height_bytes nHeight;
                   num = (if num0 \<noteq> [] \<and> last num0 AND 0x80 \<noteq> 0 then num0 @ [0] else num0);
                   expect = of_nat (length num) # num
               in if length sig < length expect then False else take (length expect) sig = expect)))"

text \<open>The first transaction is read without a test that there is one.\<close>

definition contextual_check_block ::
  "alloc \<Rightarrow> 'ctx proof_verifiers \<Rightarrow> int \<Rightarrow> store \<Rightarrow> chain_params \<Rightarrow> addr option \<Rightarrow> block \<Rightarrow> vcheck" where
  "contextual_check_block alloc pv deferred_below st params pindex_prev b s =
     do { nHeight \<leftarrow> (case pindex_prev of None \<Rightarrow> Some 0
                      | Some a \<Rightarrow> do { prev \<leftarrow> st a; ck32 (bi_nHeight prev + 1) });
          vthen (vall (\<lambda>tx. vthen (contextual_check_transaction alloc pv deferred_below (consensus params) nHeight 100 tx)
                              (vwith (case pindex_prev of None \<Rightarrow> Some (block_header_get_time (blk_header b))
                                      | Some a \<Rightarrow> block_index_get_median_time_past st a)
                                 (\<lambda>cutoff. REJECT_IF (\<not> domain_consensus_tx_is_final (Some tx) nHeight cutoff) 10 ''bad-txns-nonfinal'')))
                   (vtx b))
            (if nHeight > 0 then
               vwith (if vtx b = [] then None else Some (vtx b ! 0))
                 (\<lambda>coinbase. REJECT_IF (\<not> bip34_check_coinbase_height coinbase nHeight) 100 ''bad-cb-height'')
             else vpass) s }"

section \<open>Verdicts\<close>

named_theorems vaccept \<open>when a check on a validation state accepts\<close>
named_theorems vdecides \<open>checks that decide\<close>

lemma dos_rejects [vaccept]: "validation_state_dos l c r k s \<noteq> Some (s', True)"
  by (auto simp: validation_state_dos_def Let_def ck32_def)

lemma error_rejects [vaccept]: "validation_state_error r s \<noteq> Some (s', True)"
  by (simp add: validation_state_error_def)

lemma vpass_accept [vaccept]: "vpass s = Some (s', True) \<longleftrightarrow> s' = s"
  by (auto simp: vpass_def)

lemma vthen_accept [vaccept]: "vthen a b s = Some (s', True) \<longleftrightarrow> (\<exists>s1. a s = Some (s1, True) \<and> b s1 = Some (s', True))"
  by (auto simp: vthen_def split: option.splits)

lemma vwith_accept [vaccept]: "vwith x f s = Some (s', True) \<longleftrightarrow> (\<exists>y. x = Some y \<and> f y s = Some (s', True))"
  by (auto simp: vwith_def split: option.splits)

lemma reject_macros_accept [vaccept]:
  "REJECT_IF c d r s = Some (s', True) \<longleftrightarrow> \<not> c \<and> s' = s"
  "REJECT_CORRUPT_IF c d r s = Some (s', True) \<longleftrightarrow> \<not> c \<and> s' = s"
  "REJECT_OBSOLETE_IF c r s = Some (s', True) \<longleftrightarrow> \<not> c \<and> s' = s"
  "REJECT_INVALID_IF c r s = Some (s', True) \<longleftrightarrow> \<not> c \<and> s' = s"
  "REJECT_CHECKPOINT_IF c d r s = Some (s', True) \<longleftrightarrow> \<not> c \<and> s' = s"
  by (auto simp: REJECT_IF_def REJECT_CORRUPT_IF_def REJECT_OBSOLETE_IF_def REJECT_INVALID_IF_def
      REJECT_CHECKPOINT_IF_def validation_state_invalid_def vaccept)

lemma if_vpass_accept [vaccept]: "(if c then a else vpass) s = Some (s', True) \<longleftrightarrow> (if c then a s = Some (s', True) else s' = s)"
  by (simp add: vaccept)

lemma on_reject_accept:
  assumes "\<And>e r d s s'. f e r d s \<noteq> Some (s', True)"
  shows "on_reject c f s = Some (s', True) \<longleftrightarrow> c = Some (Inr ()) \<and> s' = s"
  using assms by (auto simp: on_reject_def split: option.splits sum.splits)

lemma check_transaction_accept [vaccept]:
  "check_transaction alloc tx s = Some (s', True) \<longleftrightarrow>
     domain_consensus_check_transaction_structural alloc (Some tx) = Some (Inr ()) \<and> s' = s"
  unfolding check_transaction_def by (rule on_reject_accept) (simp add: vaccept)

lemma vall_accept:
  assumes "\<And>x s s'. f x s = Some (s', True) \<longleftrightarrow> P x \<and> s' = s"
  shows "vall f xs s = Some (s', True) \<longleftrightarrow> list_all P xs \<and> s' = s"
  by (induction xs) (auto simp: vaccept assms)

lemma header_accept_same:
  "check_block_header alloc hash256 scheme now params check_pow h s = Some (s', True) \<Longrightarrow> s' = s"
  by (auto simp: check_block_header_def check_block_header_impl_def vaccept split: if_splits)

lemma check_block_accept:
  "check_block alloc calloc hash256 scheme now params check_pow check_merkle check_size b s = Some (s', True) \<longleftrightarrow>
     s' = s \<and> check_block_header alloc hash256 scheme now params check_pow (blk_header b) s = Some (s, True) \<and>
     (check_merkle \<longrightarrow> domain_consensus_check_block_merkle_root hash256 alloc calloc (Some b) = Some (Inr ())) \<and>
     (check_size \<longrightarrow> domain_consensus_check_block_size_and_coinbase (Some b) = Some (Inr ()) \<and>
        list_all (\<lambda>tx. domain_consensus_check_transaction_structural alloc (Some tx) = Some (Inr ())) (vtx b) \<and>
        domain_consensus_check_block_sigops (Some b) = Some (Inr ()))"
proof -
  have m: "on_reject c (\<lambda>e reason dos. if e = CB_OUT_OF_MEMORY then validation_state_error ''out-of-memory''
      else REJECT_CORRUPT_IF True dos reason) s1 = Some (s2, True) \<longleftrightarrow> c = Some (Inr ()) \<and> s2 = s1" for c s1 s2
    by (rule on_reject_accept) (simp add: vaccept)
  have z: "on_reject c (\<lambda>_ reason dos. REJECT_IF True dos reason) s1 = Some (s2, True) \<longleftrightarrow> c = Some (Inr ()) \<and> s2 = s1"
    "on_reject c (\<lambda>_ reason dos. REJECT_CORRUPT_IF True dos reason) s1 = Some (s2, True) \<longleftrightarrow> c = Some (Inr ()) \<and> s2 = s1" for c s1 s2
    by (rule on_reject_accept, simp add: vaccept)+
  have a: "vall (check_transaction alloc) txs s1 = Some (s2, True) \<longleftrightarrow>
      list_all (\<lambda>tx. domain_consensus_check_transaction_structural alloc (Some tx) = Some (Inr ())) txs \<and> s2 = s1" for txs s1 s2
    by (rule vall_accept) (simp add: vaccept)
  show ?thesis
    unfolding check_block_def check_block_impl_def
    by (auto simp: vaccept m z a dest: header_accept_same split: if_splits)
qed

text \<open>
  A check decides when, on a fresh state, it returns; leaves the state alone if it accepts; and if it
  rejects marks the state, names a reason and gives a score from 0 to 100.
\<close>

definition fresh :: "validation_state \<Rightarrow> bool" where
  "fresh s \<longleftrightarrow> vs_mode s = MODE_VALID \<and> vs_dos s = 0"

definition rejected :: "validation_state \<Rightarrow> bool" where
  "rejected s \<longleftrightarrow> vs_mode s \<noteq> MODE_VALID \<and> reject_reason s \<noteq> [] \<and> 0 \<le> vs_dos s \<and> vs_dos s \<le> 100"

definition decides :: "vcheck \<Rightarrow> bool" where
  "decides c \<longleftrightarrow> (\<forall>s. fresh s \<longrightarrow> (\<exists>s' ok. c s = Some (s', ok) \<and> (if ok then s' = s else rejected s')))"

lemma decidesD: "decides c \<Longrightarrow> fresh s \<Longrightarrow> c s = Some (s, True) \<or> (\<exists>s'. c s = Some (s', False) \<and> rejected s')"
  unfolding decides_def by metis

lemma decidesI: "(\<And>s. fresh s \<Longrightarrow> c s = Some (s, True) \<or> (\<exists>s'. c s = Some (s', False) \<and> rejected s')) \<Longrightarrow> decides c"
  unfolding decides_def by metis

lemma decides_dos [vdecides]: "r \<noteq> [] \<Longrightarrow> 0 \<le> l \<Longrightarrow> l \<le> 100 \<Longrightarrow> decides (validation_state_dos l c r k)"
  by (rule decidesI, cases r) (simp_all add: validation_state_dos_def Let_def ck32_def is_int32_def fresh_def rejected_def)

lemma decides_error [vdecides]: "r \<noteq> [] \<Longrightarrow> decides (validation_state_error r)"
  by (rule decidesI, cases r) (auto simp: validation_state_error_def fresh_def rejected_def)

lemma decides_pass [vdecides]: "decides vpass"
  by (rule decidesI) (simp add: vpass_def)

lemma decides_then [vdecides]:
  assumes "decides a" "decides b"
  shows "decides (vthen a b)"
proof (rule decidesI)
  fix s
  assume s: "fresh s"
  show "vthen a b s = Some (s, True) \<or> (\<exists>s'. vthen a b s = Some (s', False) \<and> rejected s')"
    using decidesD [OF assms(1) s] decidesD [OF assms(2) s] by (auto simp: vthen_def)
qed

lemma decides_with [vdecides]:
  assumes "x \<noteq> None" "\<And>y. x = Some y \<Longrightarrow> decides (f y)"
  shows "decides (vwith x f)"
proof -
  obtain y where x: "x = Some y" using assms(1) by blast
  show ?thesis using decidesD [OF assms(2) [OF x]] by (intro decidesI) (simp add: vwith_def x)
qed

lemma decides_all [vdecides]: "(\<And>x. x \<in> set xs \<Longrightarrow> decides (f x)) \<Longrightarrow> decides (vall f xs)"
  by (induction xs) (simp_all add: decides_pass decides_then)

lemma decides_if [vdecides]: "(c \<Longrightarrow> decides a) \<Longrightarrow> (\<not> c \<Longrightarrow> decides b) \<Longrightarrow> decides (if c then a else b)"
  by simp

lemma decides_macros [vdecides]:
  assumes "r \<noteq> []"
  shows "0 \<le> d \<Longrightarrow> d \<le> 100 \<Longrightarrow> decides (REJECT_IF c d r)" "0 \<le> d \<Longrightarrow> d \<le> 100 \<Longrightarrow> decides (REJECT_CORRUPT_IF c d r)"
    "decides (REJECT_OBSOLETE_IF c r)" "decides (REJECT_INVALID_IF c r)"
    "0 \<le> d \<Longrightarrow> d \<le> 100 \<Longrightarrow> decides (REJECT_CHECKPOINT_IF c d r)"
  using assms by (simp_all add: REJECT_IF_def REJECT_CORRUPT_IF_def REJECT_OBSOLETE_IF_def REJECT_INVALID_IF_def
      REJECT_CHECKPOINT_IF_def validation_state_invalid_def decides_dos decides_pass)

text \<open>The domain layer gives a reason and a score with every rejection of an object.\<close>

named_theorems named \<open>checks whose rejections carry a reason\<close>

definition names_reason :: "('e, 'a) check \<Rightarrow> bool" where
  "names_reason c \<longleftrightarrow> (\<forall>e r d. c = Some (Inl (e, r, d)) \<longrightarrow> r \<noteq> None \<and> r \<noteq> Some [] \<and> 0 \<le> d \<and> d \<le> 100)"

lemma named_reject_if [named]: "r \<noteq> [] \<Longrightarrow> 0 \<le> d \<Longrightarrow> d \<le> 100 \<Longrightarrow> names_reason (reject_if c e r d)"
  by (auto simp: names_reason_def reject_if_def reject_def pass_def)

lemma named_pass [named]: "names_reason (pass x)" "names_reason (add64 a b)"
  by (auto simp: names_reason_def pass_def add64_def)

lemma named_andthen [named]: "names_reason c \<Longrightarrow> (\<And>x. names_reason (f x)) \<Longrightarrow> names_reason (andthen c f)"
  by (auto simp: names_reason_def andthen_def split: option.splits sum.splits)

lemma named_if [named]: "(c \<Longrightarrow> names_reason a) \<Longrightarrow> (\<not> c \<Longrightarrow> names_reason b) \<Longrightarrow> names_reason (if c then a else b)"
  by simp

lemma named_loops [named]:
  "names_reason (vout_loop acc outs)" "names_reason (js_out_loop acc' jss)" "names_reason (js_in_loop acc'' jss')"
proof -
  show "names_reason (vout_loop acc outs)" by (induction acc outs rule: vout_loop.induct) (simp_all add: named)
  show "names_reason (js_out_loop acc' jss)" by (induction acc' jss rule: js_out_loop.induct) (simp_all add: named)
  show "names_reason (js_in_loop acc'' jss')" by (induction acc'' jss' rule: js_in_loop.induct) (simp_all add: named)
qed

lemma named_structural [named]: "names_reason (domain_consensus_check_transaction_structural alloc (Some tx))"
  unfolding domain_consensus_check_transaction_structural_def check_versions_def check_amounts_def check_coinbase_rules_def
  by (simp add: named)

lemma named_block [named]:
  "names_reason (domain_consensus_check_block_merkle_root hash256 alloc calloc (Some b))"
  "names_reason (domain_consensus_check_block_size_and_coinbase (Some b))"
  "names_reason (domain_consensus_check_block_sigops (Some b))"
  unfolding domain_consensus_check_block_merkle_root_def domain_consensus_check_block_size_and_coinbase_def
    domain_consensus_check_block_sigops_def
  by (simp_all add: named split: prod.splits)

lemma defined_block:
  "domain_consensus_check_block_merkle_root hash256 alloc calloc (Some b) \<noteq> None"
  "domain_consensus_check_block_size_and_coinbase (Some b) \<noteq> None"
  "domain_consensus_check_block_sigops (Some b) \<noteq> None"
  unfolding domain_consensus_check_block_merkle_root_def domain_consensus_check_block_size_and_coinbase_def
    domain_consensus_check_block_sigops_def
  by (simp_all add: andthen_def reject_if_def reject_def pass_def split: prod.splits)

lemma decides_named:
  assumes "names_reason c" "c \<noteq> None" "\<And>e r d. r \<noteq> [] \<Longrightarrow> 0 \<le> d \<Longrightarrow> d \<le> 100 \<Longrightarrow> decides (f e r d)"
  shows "decides (on_reject c f)"
proof -
  from assms(2) obtain v where v: "c = Some v" by blast
  show ?thesis
  proof (cases v)
    case (Inl x)
    obtain e r d where x: "x = (e, r, d)" by (cases x)
    then obtain y where y: "r = Some y" "y \<noteq> []" "0 \<le> d" "d \<le> 100" using assms(1) v Inl by (auto simp: names_reason_def)
    then have "on_reject c f = f e y d" using v Inl x by (intro ext) (simp add: on_reject_def)
    then show ?thesis using assms(3) y by simp
  next
    case (Inr u)
    then show ?thesis using v by (intro decidesI) (simp add: on_reject_def)
  qed
qed

lemma decides_check_transaction [vdecides]: "decides (check_transaction alloc tx)"
  unfolding check_transaction_def by (intro decides_named named_structural defined_structural decides_dos)

section \<open>Properties\<close>

text \<open>
  C9: \<^verbatim>\<open>check_block\<close> decides on every block. On a fresh state, for any block whatever and any choice of
  the checks, with a clock two hours short of the end of 64-bit time, it returns (no step of its
  arithmetic is undefined); if it accepts, the state is unchanged; if it rejects, the state is marked, carries a reason, and a score from 0 to 100.
\<close>

theorem check_block_decides:
  assumes "is_int64 (adjusted_time + 7200)"
  shows "\<exists>s ok. check_block alloc calloc hash256 scheme adjusted_time params check_pow check_merkle_root check_size_limits b
       validation_state_init = Some (s, ok) \<and>
     (if ok then s = validation_state_init
      else vs_mode s \<noteq> MODE_VALID \<and> reject_reason s \<noteq> [] \<and> 0 \<le> vs_dos s \<and> vs_dos s \<le> 100)"
proof -
  have "ck64 (adjusted_time + 2 * 60 * 60) \<noteq> None" using assms by (simp add: ck64_def)
  then have "decides (check_block alloc calloc hash256 scheme adjusted_time params check_pow check_merkle_root check_size_limits b)"
    unfolding check_block_def check_block_impl_def check_block_header_def check_block_header_impl_def
    by (intro vdecides decides_named named_block defined_block) simp_all
  moreover have "fresh validation_state_init" by (simp add: fresh_def validation_state_init_def)
  ultimately show ?thesis unfolding decides_def rejected_def by blast
qed

theorem check_block_decides_witness:
  "\<exists>s ok. check_block (\<lambda>_. True) (\<lambda>_ _. True) rev None 0 mainParams False True True block_init validation_state_init = Some (s, ok) \<and>
     (if ok then s = validation_state_init
      else vs_mode s \<noteq> MODE_VALID \<and> reject_reason s \<noteq> [] \<and> 0 \<le> vs_dos s \<and> vs_dos s \<le> 100)"
  by (rule check_block_decides) (simp add: is_int64_def)

text \<open>The strings hashed for a block: its header, its transactions and the pairs of its Merkle tree.\<close>

definition hashed_strings :: "hashfun \<Rightarrow> block \<Rightarrow> bytes set" where
  "hashed_strings hash256 b = {enc_header (blk_header b)} \<union> enc_transaction ` set (vtx b) \<union>
     set (merkle_inputs hash256 (map tx_hash (vtx b)))"

lemma accepted_root:
  assumes "check_block (\<lambda>_. True) calloc hash256 scheme now params check_pow True True b s = Some (s', True)"
  shows "vtx b \<noteq> []"
    "compute_merkle_root_mutated hash256 (\<lambda>_. True) (map tx_hash (vtx b)) = (hdr_hashMerkleRoot (blk_header b), False)"
  using assms
  by (auto simp: check_block_accept domain_consensus_check_block_merkle_root_def
      domain_consensus_check_block_size_and_coinbase_def accept split: prod.splits)

text \<open>
  C4: a block hash identifies the block. With memory, two blocks of wire type that \<^verbatim>\<open>check_block\<close> accepts, with Merkle
  trees of the same height and the same block hash, are equal in every field of the header and of
  every transaction, unless two of the strings hashed for them collide.
\<close>

theorem block_hash_identifies_block:
  assumes "\<forall>m. length (hash256 m) = 32"
    and "wf_header (blk_header b)" "wf_header (blk_header b')"
    and "list_all (wf_transaction hash256) (vtx b)" "list_all (wf_transaction hash256) (vtx b')"
    and "check_block (\<lambda>_. True) calloc hash256 scheme now params check_pow True True b s = Some (s1, True)"
    and "check_block (\<lambda>_. True) calloc hash256 scheme now params check_pow True True b' s = Some (s2, True)"
    and "length (vtx b) \<le> MAX_MERKLE_HASHES" "length (vtx b') \<le> MAX_MERKLE_HASHES"
    and "tree_height_loop (length (vtx b)) 0 = tree_height_loop (length (vtx b')) 0"
    and "block_get_hash (\<lambda>_. True) hash256 b = block_get_hash (\<lambda>_. True) hash256 b'"
    and "inj_on hash256 (hashed_strings hash256 b \<union> hashed_strings hash256 b')"
  shows "b = b'"
proof -
  have "hash256 (enc_header (blk_header b)) = hash256 (enc_header (blk_header b'))"
    using assms(11) header_serialize_fresh [OF assms(2)] header_serialize_fresh [OF assms(3)]
    by (auto simp: block_get_hash_def block_header_get_hash_def)
  then have "enc_header (blk_header b) = enc_header (blk_header b')"
    by (rule inj_onD [OF assms(12)]) (simp_all add: hashed_strings_def)
  then have h: "blk_header b = blk_header b'" by (rule header_codec.enc_inj [OF assms(2,3)])
  have i: "inj_on hash256 (set (merkle_inputs hash256 (map tx_hash (vtx b))) \<union> set (merkle_inputs hash256 (map tx_hash (vtx b'))))"
    using assms(12) by (rule inj_on_subset) (auto simp: hashed_strings_def)
  have l: "list_all (\<lambda>h. length h = 32) (map tx_hash (vtx b))" "list_all (\<lambda>h. length h = 32) (map tx_hash (vtx b'))"
    using assms(1,4,5) by (auto simp: list_all_iff wf_transaction_def)
  note r = accepted_root [OF assms(6)] accepted_root [OF assms(7)]
  have ids: "map tx_hash (vtx b) = map tx_hash (vtx b')"
    by (rule merkle_root_binds_txids [OF assms(1) l _ _ _ _ _ i])
      (use r h assms(8-10) in simp_all)
  have "vtx b = vtx b'"
  proof (rule nth_equalityI)
    show len: "length (vtx b) = length (vtx b')" using ids by (metis length_map)
    fix k
    assume k: "k < length (vtx b)"
    have w: "wf_transaction hash256 (vtx b ! k)" "wf_transaction hash256 (vtx b' ! k)"
      using assms(4,5) k len by (simp_all add: list_all_length)
    have "tx_hash (vtx b ! k) = tx_hash (vtx b' ! k)" using ids k len by (metis nth_map)
    then have "hash256 (enc_transaction (vtx b ! k)) = hash256 (enc_transaction (vtx b' ! k))"
      using w by (simp add: wf_transaction_def)
    then have "enc_transaction (vtx b ! k) = enc_transaction (vtx b' ! k)"
      by (rule inj_onD [OF assms(12)]) (use k len in \<open>auto simp: hashed_strings_def\<close>)
    then show "vtx b ! k = vtx b' ! k" by (rule transaction_codec.enc_inj [OF w])
  qed
  with h show ?thesis by simp
qed

definition pad_hash :: hashfun where
  "pad_hash m = take 32 (m @ replicate 32 0)"

definition reward_body :: transaction where
  "reward_body = transaction_init\<lparr>vin := [tx_in_init\<lparr>script_sig := [0x51, 0x51]\<rparr>],
     vout := [\<lparr>out_value = 5, script_pub_key = []\<rparr>]\<rparr>"

definition sample_reward :: transaction where
  "sample_reward = reward_body\<lparr>tx_hash := pad_hash (enc_transaction reward_body)\<rparr>"

definition sample_block :: block where
  "sample_block = \<lparr>blk_header = block_header_init\<lparr>hdr_hashMerkleRoot := tx_hash sample_reward\<rparr>, vtx = [sample_reward]\<rparr>"

lemma sample_reward_wf: "wf_transaction pad_hash sample_reward"
proof -
  have "wf_fields reward_body"
    by (simp add: reward_body_def wf_fields_def wf_version_def wf_sapling_def wf_joinsplits_def transaction_init_def tx_in_init_def
        wf_tx_in_def wf_tx_out_def wf_outpoint_def wf_script_def outpoint_set_null_def is_int64_def)
  then show ?thesis by (simp add: sample_reward_def wf_transaction_def)
qed

lemma sample_reward_coinbase: "transaction_is_coinbase sample_reward"
  by (simp add: sample_reward_def reward_body_def transaction_is_coinbase_def tx_in_init_def outpoint_set_null_def
      outpoint_is_null_def uint256_is_null_def list_all_iff)

lemma sample_reward_valid: "structurally_valid (\<lambda>_. True) sample_reward"
proof -
  have "wf_fields sample_reward" using sample_reward_wf by (simp add: wf_transaction_def)
  then have "transaction_serialize_size (\<lambda>_. True) sample_reward = 62"
    by (simp add: serialize_size_enc)
      (simp add: sample_reward_def reward_body_def transaction_init_def enc_transaction_def Let_def enc_vec_def enc_when_def enc_tx_in_def enc_tx_out_def
        enc_outpoint_def enc_script_def length_enc_compact_size compact_size_sizeof_def tx_in_init_def outpoint_set_null_def)
  moreover have "vin sample_reward = [tx_in_init\<lparr>script_sig := [0x51, 0x51]\<rparr>]" "vout sample_reward = [\<lparr>out_value = 5, script_pub_key = []\<rparr>]"
    "\<not> overwintered sample_reward" "tx_version sample_reward = 1" "value_balance sample_reward = 0" "v_joinsplit sample_reward = []"
    "v_shielded_spend sample_reward = []" "v_shielded_output sample_reward = []"
    by (simp_all add: sample_reward_def reward_body_def transaction_init_def)
  ultimately show ?thesis using sample_reward_coinbase
    by (simp add: structurally_valid_def amounts_ok_def total_in_range_def value_out_amounts_def value_in_amounts_def MoneyRange_def)
qed

lemma sample_block_accepted:
  "check_block (\<lambda>_. True) (\<lambda>_ _. True) pad_hash None 0 mainParams False True True sample_block validation_state_init =
     Some (validation_state_init, True)"
proof -
  have "domain_consensus_check_transaction_structural (\<lambda>_. True) (Some sample_reward) = Some (Inr ())"
    using sample_reward_valid sample_reward_wf by (simp add: structural_accept wf_fields_ids wf_transaction_def)
  moreover have "check_block_header (\<lambda>_. True) pad_hash None 0 mainParams False (blk_header sample_block) validation_state_init =
      Some (validation_state_init, True)"
    by (simp add: check_block_header_def check_block_header_impl_def vaccept sample_block_def block_header_init_def
        block_header_get_time_def ck64_def is_int64_def)
  moreover have "block_sig_ops (vtx sample_block) = 0"
    by (simp add: block_sig_ops_def sample_block_def get_legacy_sig_op_count_def domain_consensus_tx_legacy_sig_op_count_def
        sample_reward_def reward_body_def tx_in_init_def script_get_sig_op_count_def sig_op_loop.simps script_get_op_def sig_ops_of_def)
  ultimately show ?thesis
    by (simp add: check_block_accept domain_consensus_check_block_merkle_root_def compute_merkle_root_mutated_def
        domain_consensus_check_block_size_and_coinbase_def domain_consensus_check_block_sigops_def accept)
      (simp add: sample_block_def sample_reward_coinbase)
qed

theorem block_hash_identifies_block_witness:
  "check_block (\<lambda>_. True) (\<lambda>_ _. True) pad_hash None 0 mainParams False True True sample_block validation_state_init =
     Some (validation_state_init, True) \<and> sample_block = sample_block"
proof -
  have w: "wf_header (blk_header sample_block)"
    by (simp add: wf_header_def sample_block_def block_header_init_def is_int32_def sample_reward_def reward_body_def pad_hash_def)
  have l: "list_all (wf_transaction pad_hash) (vtx sample_block)" using sample_reward_wf by (simp add: sample_block_def)
  have "hd (pad_hash (enc_header (blk_header sample_block))) = 4" "hd (pad_hash (enc_transaction sample_reward)) = 1"
    by (simp_all add: pad_hash_def enc_header_def enc_i32_def enc_u32_def sample_block_def block_header_init_def
        enc_transaction_def Let_def sample_reward_def reward_body_def transaction_init_def)
  then have "inj_on pad_hash (hashed_strings pad_hash sample_block \<union> hashed_strings pad_hash sample_block)"
    by (auto simp: hashed_strings_def sample_block_def merkle_inputs.simps)
  then have "sample_block = sample_block"
    by (intro block_hash_identifies_block [OF _ w w l l sample_block_accepted sample_block_accepted])
      (auto simp: pad_hash_def sample_block_def)
  then show ?thesis using sample_block_accepted by simp
qed

text \<open>
  C39: a transaction that may be mined stays minable. If a transaction is final for a block on top of
  \<open>a\<close>, and the contextual check accepts a header there that is not the genesis header, then once the
  entry of that header is in the index the transaction is final for the next block on top of it too:
  the check on the time keeps the median time past from going back.
\<close>

theorem finality_stable_on_chain:
  assumes "contextual_check_block_header alloc hash256 st params cpdata (Some a) cps h s = Some (s', True)"
    and "block_header_get_hash alloc hash256 h \<noteq> hashGenesisBlock (consensus params)"
    and "st a = Some prev" "st n = None" "pprev e = Some a" "bi_nTime e = hdr_nTime h"
    and "block_index_get_median_time_past st a = Some m" "domain_consensus_tx_is_final tx (bi_nHeight prev + 1) m"
  shows "\<exists>m'. block_index_get_median_time_past (st(n \<mapsto> e)) n = Some m' \<and> m \<le> m' \<and>
           domain_consensus_tx_is_final tx (bi_nHeight prev + 2) m'"
proof -
  have "m < block_header_get_time h"
    using assms(1-3,7) by (auto simp: contextual_check_block_header_def Let_def vaccept split: bind_splits)
  then have "m \<le> block_index_get_time e" using assms(6) by (simp add: block_header_get_time_def block_index_get_time_def)
  then obtain m' where m': "block_index_get_median_time_past (st(n \<mapsto> e)) n = Some m'" "m \<le> m'"
    using median_time_past_grows [OF assms(7,4,5)] by blast
  moreover have "domain_consensus_tx_is_final tx (bi_nHeight prev + 2) m'"
    using assms(8) m'(2) by (auto simp: domain_consensus_tx_is_final_def Let_def split: option.splits if_splits)
  ultimately show ?thesis by blast
qed

lemma demo_bits: "\<exists>bits. GetNextWorkRequired [0 \<mapsto> demo_block None 0 600000005] (Some 0) (Some 600000007) (consensus mainParams) = Some bits"
proof -
  have "retarget_wf (consensus mainParams)" by (rule main_retarget_wf)
  moreover have "limit_wf (consensus mainParams)" by (simp add: limit_wf_def main_powLimit) (simp add: mainParams_def)
  moreover have "index_wf [0 \<mapsto> demo_block None 0 600000005]" by (auto simp: index_wf_def demo_block_def split: if_splits)
  moreover have "targets_wf (consensus mainParams) [0 \<mapsto> demo_block None 0 600000005]"
    by (auto simp: targets_wf_def demo_block_def within_limit_def main_powLimit
        compact_negative_def compact_value_def compact_mantissa_def compact_size_byte_def split: if_splits)
  ultimately show ?thesis using next_work_defined [of "consensus mainParams" "[0 \<mapsto> demo_block None 0 600000005]" "Some 0" "Some 600000007"]
    by (auto simp: demo_block_def)
qed

theorem finality_stable_on_chain_witness:
  "\<exists>h m'. contextual_check_block_header (\<lambda>_. True) (\<lambda>_. replicate 32 9) [0 \<mapsto> demo_block None 0 600000005] mainParams [] (Some 0) False h validation_state_init =
       Some (validation_state_init, True) \<and>
     block_index_get_median_time_past [0 \<mapsto> demo_block None 0 600000005, 1 \<mapsto> demo_block (Some 0) 1 600000007] 1 = Some m' \<and> 600000005 \<le> m' \<and>
     domain_consensus_tx_is_final (Some (transaction_init\<lparr>lock_time := 600000001\<rparr>)) 2 m'"
proof -
  let ?st = "[0 \<mapsto> demo_block None 0 600000005] :: store"
  obtain bits where bits: "GetNextWorkRequired ?st (Some 0) (Some 600000007) (consensus mainParams) = Some bits" using demo_bits by blast
  let ?h = "block_header_init\<lparr>hdr_nBits := bits, hdr_nTime := 600000007\<rparr>"
  have ng: "block_header_get_hash (\<lambda>_. True) (\<lambda>_. replicate 32 9) ?h \<noteq> hashGenesisBlock (consensus mainParams)"
  proof
    assume "block_header_get_hash (\<lambda>_. True) (\<lambda>_. replicate 32 9) ?h = hashGenesisBlock (consensus mainParams)"
    then have "replicate 32 9 ! 0 = hashGenesisBlock (consensus mainParams) ! 0" by (simp add: block_header_get_hash_def)
    then show False by (simp add: mainParams_def uint256_of_nat_def)
  qed
  have mtp: "block_index_get_median_time_past ?st 0 = Some 600000005"
    using mtp_collect_step [of ?st 0 "demo_block None 0 600000005" 10]
    by (simp add: median_time_past_sort mtp_collect_None demo_block_def block_index_get_time_def)
  have c: "contextual_check_block_header (\<lambda>_. True) (\<lambda>_. replicate 32 9) ?st mainParams [] (Some 0) False ?h validation_state_init =
      Some (validation_state_init, True)"
    using ng bits mtp by (simp add: contextual_check_block_header_def Let_def vaccept ck32_def is_int32_def block_header_init_def
        block_header_get_time_def) (simp add: demo_block_def)
  from finality_stable_on_chain [OF c ng, of "demo_block None 0 600000005" 1 "demo_block (Some 0) 1 600000007" 600000005 "Some (transaction_init\<lparr>lock_time := 600000001\<rparr>)"] mtp c
  show ?thesis by (auto simp: demo_block_def domain_consensus_tx_is_final_def Let_def)
qed

end
