(* ===== verification/Coinbase.thy ===== *)
theory Coinbase
  imports Block_Checks
begin

text \<open>
  The coinbase transaction of a block template, \<^verbatim>\<open>domain/consensus/src/coinbase.c\<close>, against the rules
  a block must pass. The outer option is \<open>None\<close> for a signed overflow of the amount.
\<close>

section \<open>Model\<close>

abbreviation (input) DCB_HEIGHT_MAX :: int where "DCB_HEIGHT_MAX \<equiv> 0x00FFFFFF"

datatype coinbase_err =
    COINBASE_NULL_OUT | COINBASE_NULL_PARAMS | COINBASE_NULL_SCRIPT | COINBASE_NEG_HEIGHT | COINBASE_HEIGHT_RANGE
  | COINBASE_NEG_FEES | COINBASE_NEG_SUBSIDY | COINBASE_NOT_PREALLOC

definition dcb_write_height_prefix :: "int \<Rightarrow> bytes" where
  "dcb_write_height_prefix n_height =
     [0x03, word_of_int (n_height AND 0xff), word_of_int (drop_bit 8 n_height AND 0xff),
      word_of_int (drop_bit 16 n_height AND 0xff)]"

definition domain_consensus_coinbase_script_sig_placeholder :: "int \<Rightarrow> bool \<Rightarrow> coinbase_err + script" where
  "domain_consensus_coinbase_script_sig_placeholder n_height out =
     (if \<not> out then Inl COINBASE_NULL_OUT
      else if n_height < 0 then Inl COINBASE_NEG_HEIGHT
      else if n_height > DCB_HEIGHT_MAX then Inl COINBASE_HEIGHT_RANGE
      else Inr (dcb_write_height_prefix n_height @ [OP_0]))"

text \<open>The loop that drops zero bytes from the end, keeping one.\<close>

function trim_nonce :: "bytes \<Rightarrow> bytes" where
  "trim_nonce bs = (if length bs > 1 \<and> last bs = 0 then trim_nonce (butlast bs) else bs)"
  by auto

termination
  by (relation "measure length") auto

declare trim_nonce.simps [simp del]

definition domain_consensus_coinbase_script_sig_with_extra_nonce :: "int \<Rightarrow> u32 \<Rightarrow> bool \<Rightarrow> coinbase_err + script" where
  "domain_consensus_coinbase_script_sig_with_extra_nonce n_height extra_nonce out =
     (if \<not> out then Inl COINBASE_NULL_OUT
      else if n_height < 0 then Inl COINBASE_NEG_HEIGHT
      else if n_height > DCB_HEIGHT_MAX then Inl COINBASE_HEIGHT_RANGE
      else
        (let en = trim_nonce (map (\<lambda>i. ucast (drop_bit (8 * i) extra_nonce)) [0..<4])
         in Inr (dcb_write_height_prefix n_height @ [of_nat (length en)] @ en)))"

record coinbase_inputs =
  ci_height :: int
  ci_subsidy :: int
  ci_total_fees :: int
  ci_miner_script :: "script option"
  ci_params :: "consensus_params option"

definition domain_consensus_coinbase_build ::
  "alloc \<Rightarrow> hashfun \<Rightarrow> coinbase_inputs option \<Rightarrow> transaction option \<Rightarrow> (coinbase_err + transaction) option" where
  "domain_consensus_coinbase_build alloc hash256 in_opt out_tx =
     (case out_tx of None \<Rightarrow> Some (Inl COINBASE_NULL_OUT) | Some tx \<Rightarrow>
      case in_opt of None \<Rightarrow> Some (Inl COINBASE_NULL_PARAMS) | Some i \<Rightarrow>
      case ci_params i of None \<Rightarrow> Some (Inl COINBASE_NULL_PARAMS) | Some params \<Rightarrow>
      case ci_miner_script i of None \<Rightarrow> Some (Inl COINBASE_NULL_SCRIPT) | Some miner \<Rightarrow>
      if ci_height i < 0 then Some (Inl COINBASE_NEG_HEIGHT)
      else if ci_height i > DCB_HEIGHT_MAX then Some (Inl COINBASE_HEIGHT_RANGE)
      else if ci_total_fees i < 0 then Some (Inl COINBASE_NEG_FEES)
      else if ci_subsidy i < 0 then Some (Inl COINBASE_NEG_SUBSIDY)
      else if length (vin tx) \<noteq> 1 \<or> length (vout tx) \<noteq> 1 then Some (Inl COINBASE_NOT_PREALLOC)
      else
        (case domain_consensus_coinbase_script_sig_placeholder (ci_height i) True of
           Inl e \<Rightarrow> Some (Inl e)
         | Inr sig \<Rightarrow>
             do { v \<leftarrow> ck64 (ci_subsidy i + ci_total_fees i);
                  sapling \<leftarrow> consensus_network_upgrade_active params (ci_height i) UPGRADE_SAPLING;
                  overwinter \<leftarrow> consensus_network_upgrade_active params (ci_height i) UPGRADE_OVERWINTER;
                  let tx1 = tx\<lparr>vin := [(vin tx ! 0)\<lparr>prevout := \<lparr>op_hash = replicate 32 0, op_n = 0xffffffff\<rparr>, script_sig := sig\<rparr>],
                               vout := [(vout tx ! 0)\<lparr>script_pub_key := miner, out_value := v\<rparr>]\<rparr>;
                      tx2 = (if sapling then tx1\<lparr>tx_version := SAPLING_TX_VERSION, version_group_id := SAPLING_VERSION_GROUP_ID\<rparr>
                             else if overwinter then tx1\<lparr>tx_version := OVERWINTER_TX_VERSION, version_group_id := OVERWINTER_VERSION_GROUP_ID\<rparr>
                             else tx1)
                  in Some (Inr (transaction_compute_hash alloc hash256 (tx2\<lparr>expiry_height := 0\<rparr>))) }))"

section \<open>The height in the script\<close>

lemma and_255: "(h :: int) AND 255 = h mod 256"
  using take_bit_eq_mask [of 8 h] by (simp add: take_bit_eq_mod mask_eq_exp_minus_1)

lemma height_bytes_div: "0 < h \<Longrightarrow> height_bytes h = word_of_int (h mod 256) # height_bytes (h div 256)"
  by (subst height_bytes.simps) (simp add: drop_bit_eq_div and_255)

lemma height_bytes_0: "height_bytes 0 = []"
  by (subst height_bytes.simps) simp

lemma byte_top_bit:
  assumes "0 \<le> b" "b < 256"
  shows "(word_of_int b :: u8) AND 0x80 = 0 \<longleftrightarrow> b < 128"
proof -
  have "(word_of_int b :: u8) AND 2 ^ 7 = 0 \<longleftrightarrow> \<not> bit (word_of_int b :: u8) 7" by (rule and_exp_eq_0_iff_not_bit)
  also have "\<dots> \<longleftrightarrow> \<not> bit b 7" by (simp add: bit_word_of_int_iff)
  also have "\<dots> \<longleftrightarrow> even (b div 128)" by (simp add: bit_iff_odd)
  also have "\<dots> \<longleftrightarrow> b < 128"
  proof -
    have "b div 128 = 0 \<or> b div 128 = 1" using assms by auto
    then show ?thesis using assms by auto
  qed
  finally show ?thesis by simp
qed

text \<open>The script number of a height of at most three bytes, its zero byte included.\<close>

lemma height_digits:
  assumes "0 < h" "h < 2 ^ 24"
  shows "height_bytes h =
     (if h < 256 then [word_of_int h]
      else if h < 65536 then [word_of_int (h mod 256), word_of_int (h div 256)]
      else [word_of_int (h mod 256), word_of_int (h div 256 mod 256), word_of_int (h div 65536)])"
proof -
  consider "h < 256" | "256 \<le> h" "h < 65536" | "65536 \<le> h" by linarith
  then show ?thesis
  proof cases
    case 1
    then show ?thesis using assms by (simp add: height_bytes_div height_bytes_0)
  next
    case 2
    then have "0 < h div 256" "h div 256 < 256" by auto
    then show ?thesis using 2 assms by (simp add: height_bytes_div height_bytes_0)
  next
    case 3
    have d: "h div 256 div 256 = h div 65536" by (simp add: zdiv_zmult2_eq [symmetric])
    have "0 < h div 256" "0 < h div 65536" "h div 65536 < 256" using 3 assms by auto
    then show ?thesis using 3 assms by (simp add: height_bytes_div height_bytes_0 d)
  qed
qed

definition height_number :: "int \<Rightarrow> bytes" where
  "height_number h = (let num = height_bytes h in if num \<noteq> [] \<and> last num AND 0x80 \<noteq> 0 then num @ [0] else num)"

lemma height_number_three:
  assumes "0 < h" "h < 2 ^ 24"
  shows "length (height_number h) = 3 \<longleftrightarrow> 0x8000 \<le> h \<and> h < 0x800000"
proof -
  consider "h < 256" | "256 \<le> h" "h < 65536" | "65536 \<le> h" by linarith
  then show ?thesis
  proof cases
    case 1
    then show ?thesis using assms by (simp add: height_number_def height_digits byte_top_bit Let_def)
  next
    case 2
    have "0 \<le> h div 256" "h div 256 < 256" "h div 256 < 128 \<longleftrightarrow> h < 0x8000" using 2 by auto
    then show ?thesis using 2 assms by (simp add: height_number_def height_digits byte_top_bit Let_def)
  next
    case 3
    have "0 \<le> h div 65536" "h div 65536 < 256" "h div 65536 < 128 \<longleftrightarrow> h < 0x800000" using 3 assms by auto
    then show ?thesis using 3 assms by (simp add: height_number_def height_digits byte_top_bit Let_def)
  qed
qed

lemma height_number_prefix:
  assumes "0x8000 \<le> h" "h < 0x800000"
  shows "3 # height_number h = dcb_write_height_prefix h"
proof (cases "h < 65536")
  case True
  have "h div 65536 = 0" "h div 256 < 256" "128 \<le> h div 256" using assms True by auto
  then show ?thesis using assms True
    by (simp add: height_number_def height_digits byte_top_bit Let_def dcb_write_height_prefix_def and_255 drop_bit_eq_div)
next
  case False
  have "h div 65536 < 128" "0 \<le> h div 65536" using assms by auto
  then show ?thesis using assms False
    by (simp add: height_number_def height_digits byte_top_bit Let_def dcb_write_height_prefix_def and_255 drop_bit_eq_div)
qed

lemma unat_numeral_u8_3: "unat (3 :: u8) = 3"
  by simp

lemma bip34_prefix:
  assumes "0 < h" "h < 2 ^ 24" "vin tx = [i]" "script_sig i = dcb_write_height_prefix h @ rest"
  shows "bip34_check_coinbase_height tx h \<longleftrightarrow> 0x8000 \<le> h \<and> h < 0x800000"
proof -
  have op: "(0x50 :: u8) + word_of_int h \<noteq> 3" if "1 \<le> h" "h \<le> 16"
  proof -
    have "uint (word_of_int (80 + h) :: u8) = 80 + h"
      using that by (simp add: unsigned_of_int take_bit_int_eq_self del: of_int_add)
    moreover have "(0x50 :: u8) + word_of_int h = word_of_int (80 + h)" by simp
    ultimately have u: "uint ((0x50 :: u8) + word_of_int h) = 80 + h" by (simp only:)
    show ?thesis
    proof
      assume "(0x50 :: u8) + word_of_int h = 3"
      then have "80 + h = uint (3 :: u8)" using u by (simp only:)
      then show False using that by simp
    qed
  qed
  have bip: "bip34_check_coinbase_height tx h \<longleftrightarrow>
      length (height_number h) < length (script_sig i) \<and>
      take (Suc (length (height_number h))) (script_sig i) = of_nat (length (height_number h)) # height_number h"
    using assms(1,3,4) op
    by (auto simp: bip34_check_coinbase_height_def height_number_def Let_def dcb_write_height_prefix_def)
  show ?thesis
  proof (cases "0x8000 \<le> h \<and> h < 0x800000")
    case True
    then have l: "length (height_number h) = 3" using height_number_three assms(1,2) by simp
    moreover have "take 4 (dcb_write_height_prefix h @ rest) = dcb_write_height_prefix h" by (simp add: dcb_write_height_prefix_def)
    ultimately show ?thesis using True assms(4) height_number_prefix [of h]
      by (simp add: bip dcb_write_height_prefix_def numeral_eq_Suc)
  next
    case False
    then have l: "length (height_number h) \<noteq> 3" using height_number_three assms(1,2) by simp
    have "length (height_number h) \<le> 4"
      using assms(1,2) by (auto simp: height_number_def height_digits Let_def)
    then have "unat (of_nat (length (height_number h)) :: u8) = length (height_number h)" by (simp add: unat_of_nat)
    then have "(of_nat (length (height_number h)) :: u8) \<noteq> 3" using l by (metis unat_numeral_u8_3)
    then show ?thesis using False by (simp add: bip assms(4) dcb_write_height_prefix_def)
  qed
qed

section \<open>Properties\<close>

text \<open>
  C36: which heights the template's coinbase satisfies. For every height the builder accepts, above the
  genesis block, the script it writes (with the placeholder or with an extra nonce) passes the height
  check of \<^verbatim>\<open>contextual_check_block\<close> exactly from 32768 to 8388607: below, the check expects a shorter
  minimal push, above, a fourth byte.
\<close>

theorem coinbase_height_accepted_iff:
  assumes "0 < h" "h \<le> DCB_HEIGHT_MAX" "vin tx = [i]"
    and "domain_consensus_coinbase_script_sig_placeholder h True = Inr (script_sig i) \<or>
         domain_consensus_coinbase_script_sig_with_extra_nonce h nonce True = Inr (script_sig i)"
  shows "bip34_check_coinbase_height tx h \<longleftrightarrow> 0x8000 \<le> h \<and> h < 0x800000"
proof -
  have "\<exists>rest. dcb_write_height_prefix h @ rest = script_sig i"
    using assms(1,2,4) by (auto simp: domain_consensus_coinbase_script_sig_placeholder_def
        domain_consensus_coinbase_script_sig_with_extra_nonce_def Let_def)
  then obtain rest where "script_sig i = dcb_write_height_prefix h @ rest" by metis
  then show ?thesis using assms(1-3) by (intro bip34_prefix) simp_all
qed

theorem coinbase_height_accepted_iff_witness:
  "\<not> bip34_check_coinbase_height (transaction_init\<lparr>vin := [tx_in_init\<lparr>script_sig := [3, 100, 0, 0, 0]\<rparr>]\<rparr>) 100"
proof -
  have "domain_consensus_coinbase_script_sig_placeholder 100 True = Inr [3, 100, 0, 0, 0]"
    by (simp add: domain_consensus_coinbase_script_sig_placeholder_def dcb_write_height_prefix_def drop_bit_eq_div)
  then show ?thesis
    using coinbase_height_accepted_iff [of 100 "transaction_init\<lparr>vin := [tx_in_init\<lparr>script_sig := [3, 100, 0, 0, 0]\<rparr>]\<rparr>"
        "tx_in_init\<lparr>script_sig := [3, 100, 0, 0, 0]\<rparr>" 0] by simp
qed

text \<open>
  C37: the template's coinbase is invalid once Sapling is active. Built on a fresh transaction, as the
  miner does, it has the Sapling version without the overwintered flag, and the height-dependent check
  of the node that built it rejects it as \<^verbatim>\<open>tx-overwintered-flag-not-set\<close>.
\<close>

theorem built_coinbase_rejected:
  assumes "transaction_alloc calloc transaction_init 1 1 = (tx0, True)"
    and "domain_consensus_coinbase_build alloc hash256 (Some i) (Some tx0) = Some (Inr tx)"
    and "ci_params i = Some params"
    and "consensus_network_upgrade_active params (ci_height i) UPGRADE_OVERWINTER = Some True"
    and "consensus_network_upgrade_active params (ci_height i) UPGRADE_SAPLING = Some True"
  shows "contextual_check_transaction alloc pv deferred_below params (ci_height i) 100 tx validation_state_init =
     Some (validation_state_init\<lparr>vs_mode := MODE_INVALID, vs_dos := 100, reject_reason := ''tx-overwintered-flag-not-set'',
             reject_code := REJECT_INVALID\<rparr>, False)"
proof -
  have "\<not> overwintered tx0"
    using assms(1) by (auto simp: transaction_alloc_def transaction_init_def split: if_splits)
  then have t: "\<not> overwintered tx" "tx_version tx = SAPLING_TX_VERSION" "0 \<le> ci_height i"
    using assms(2-5)
    by (auto simp: domain_consensus_coinbase_build_def transaction_compute_hash_def Let_def
        split: option.splits if_splits sum.splits bind_splits)
  then have "domain_consensus_check_transaction_sapling_structural alloc (Some tx) (Some params) (ci_height i) 100 =
      reject SAP_SAPLING_OVERWINTERED_FLAG ''tx-overwintered-flag-not-set'' 100"
    using assms(4,5) by (simp add: domain_consensus_check_transaction_sapling_structural_def sapling_version_rules_def
        andthen_def reject_if_def reject_def pass_def)
  then show ?thesis
    by (simp add: contextual_check_transaction_def vthen_def on_reject_def reject_def validation_state_dos_def
        validation_state_init_def ck32_def is_int32_def Let_def)
qed

definition sample_inputs :: coinbase_inputs where
  "sample_inputs = \<lparr>ci_height = 500000, ci_subsidy = 1250000000, ci_total_fees = 7, ci_miner_script = Some [0x51],
     ci_params = Some (consensus mainParams)\<rparr>"

definition no_proofs :: "unit proof_verifiers" where
  "no_proofs = \<lparr>pv_signature_hash = \<lambda>_ _. None, pv_ed25519_verify = \<lambda>_ _ _. False, pv_ctx_init = None,
     pv_check_spend = \<lambda>c _ _. (c, False), pv_check_output = \<lambda>c _. (c, False), pv_final_check = \<lambda>_ _ _ _. False,
     pv_verify_groth16 = \<lambda>_ _. False, pv_verify_phgr13 = \<lambda>_ _. False\<rparr>"

theorem built_coinbase_rejected_witness:
  "\<exists>tx s. domain_consensus_coinbase_build (\<lambda>_. True) rev (Some sample_inputs)
       (Some (transaction_init\<lparr>vin := [tx_in_init], vout := [tx_out_set_null]\<rparr>)) = Some (Inr tx) \<and>
     contextual_check_transaction (\<lambda>_. True) no_proofs (-1) (consensus mainParams) 500000 100 tx validation_state_init = Some (s, False) \<and>
     reject_reason s = ''tx-overwintered-flag-not-set''"
proof -
  let ?tx0 = "transaction_init\<lparr>vin := [tx_in_init], vout := [tx_out_set_null]\<rparr>"
  have a: "transaction_alloc (\<lambda>_ _. True) transaction_init 1 1 = (?tx0, True)" by (simp add: transaction_alloc_def)
  have p: "ci_params sample_inputs = Some (consensus mainParams)" "ci_height sample_inputs = 500000" by (simp_all add: sample_inputs_def)
  have f: "ci_miner_script sample_inputs = Some [0x51]" "ci_subsidy sample_inputs = 1250000000" "ci_total_fees sample_inputs = 7"
    "domain_consensus_coinbase_script_sig_placeholder 500000 True = Inr (dcb_write_height_prefix 500000 @ [OP_0])"
    by (simp_all add: sample_inputs_def domain_consensus_coinbase_script_sig_placeholder_def)
  have u: "consensus_network_upgrade_active (consensus mainParams) (ci_height sample_inputs) UPGRADE_OVERWINTER = Some True"
    "consensus_network_upgrade_active (consensus mainParams) (ci_height sample_inputs) UPGRADE_SAPLING = Some True"
    by (simp_all add: p consensus_network_upgrade_active_def consensus_upgrade_state_def domain_consensus_upgrade_state_def
        dcu_idx_valid_def mainParams_def activation_height_def upgrade_rows_def)
  have "\<exists>tx. domain_consensus_coinbase_build (\<lambda>_. True) rev (Some sample_inputs) (Some ?tx0) = Some (Inr tx)"
    using u [unfolded p] by (simp add: domain_consensus_coinbase_build_def p f ck64_def is_int64_def Let_def)
  then obtain tx where t: "domain_consensus_coinbase_build (\<lambda>_. True) rev (Some sample_inputs) (Some ?tx0) = Some (Inr tx)" by blast
  from built_coinbase_rejected [OF a t p(1) u, of no_proofs "-1"] t show ?thesis by (simp add: p(2))
qed

end
