(* ===== verification/Connect_Block.thy ===== *)
theory Connect_Block
  imports Utxo_Spec Coinbase
begin

text \<open>
  \<^verbatim>\<open>connect_block\<close> of \<^verbatim>\<open>lib/validation/src/connect_block.c\<close>: a block applied to the UTXO cache with every
  check on the way, and \<^verbatim>\<open>get_p2sh_sig_op_count\<close> of \<^verbatim>\<open>lib/validation/src/sigops.c\<close>.

  The steps run in a small monad over the local variables of the function and the validation state:
  the result is \<open>None\<close> where C gives no meaning, and otherwise a value, or no value when the function
  has returned false. \<open>verify\<close> stands for \<^verbatim>\<open>verify_script\<close> with the signature checker of an input. A
  pointer to the script of a cached output reads what the cache holds at that place when it is read,
  and nothing once the array it points into has been freed.
\<close>

section \<open>Model\<close>

subsection \<open>Values of the shielded pools\<close>

record pool_values =
  nSproutValue :: int
  has_sprout_value :: bool
  nChainSproutValue :: int
  has_chain_sprout_value :: bool
  nSaplingValue :: int
  nChainSaplingValue :: int
  has_chain_sapling_value :: bool

text \<open>The record of an entry after \<^verbatim>\<open>block_index_init\<close>.\<close>

definition pool_values_init :: pool_values where
  "pool_values_init = \<lparr>nSproutValue = 0, has_sprout_value = False, nChainSproutValue = 0, has_chain_sprout_value = False,
     nSaplingValue = 0, nChainSaplingValue = 0, has_chain_sapling_value = False\<rparr>"

fun add_all64 :: "int \<Rightarrow> int list \<Rightarrow> int option" where
  "add_all64 acc [] = Some acc"
| "add_all64 acc (v # vs) = do { acc' \<leftarrow> ck64 (acc + v); add_all64 acc' vs }"

definition sprout_amounts :: "transaction list \<Rightarrow> int list" where
  "sprout_amounts txs = concat (map (\<lambda>tx. concat (map (\<lambda>js. [vpub_old js, - vpub_new js]) (v_joinsplit tx))) txs)"

definition turnstile ::
  "pool_values option \<Rightarrow> transaction list \<Rightarrow> pool_values \<Rightarrow> validation_state \<Rightarrow> (pool_values \<times> validation_state \<times> bool) option" where
  "turnstile parent txs pindex s =
     (case parent of None \<Rightarrow> Some (pindex, s, True) | Some prev \<Rightarrow>
        do { sprout_value \<leftarrow> add_all64 0 (sprout_amounts txs);
             sapling_value \<leftarrow> add_all64 0 (map value_balance txs);
             let p1 = pindex\<lparr>nSproutValue := sprout_value, has_sprout_value := True, nSaplingValue := sapling_value\<rparr>;
             chain_sprout \<leftarrow> (if has_chain_sprout_value prev then ck64 (nChainSproutValue prev + sprout_value) else Some 0);
             let p2 = (if has_chain_sprout_value prev
                       then p1\<lparr>nChainSproutValue := chain_sprout, has_chain_sprout_value := True\<rparr> else p1);
             if has_chain_sprout_value prev \<and> chain_sprout < 0
             then map_option (\<lambda>(s', ok). (p2, s', ok))
                    (validation_state_dos 100 REJECT_INVALID ''bad-txns-sprout-turnstile-violation'' False s)
             else
               do { chain_sapling \<leftarrow> (if has_chain_sapling_value prev then ck64 (nChainSaplingValue prev + sapling_value) else Some 0);
                    let p3 = (if has_chain_sapling_value prev
                              then p2\<lparr>nChainSaplingValue := chain_sapling, has_chain_sapling_value := True\<rparr> else p2);
                    if has_chain_sapling_value prev \<and> chain_sapling < 0
                    then map_option (\<lambda>(s', ok). (p3, s', ok))
                           (validation_state_dos 100 REJECT_INVALID ''bad-txns-sapling-turnstile-violation'' False s)
                    else Some (p3, s, True) } })"

subsection \<open>The monad of the function\<close>

text \<open>
  A deferred script check. Its \<^verbatim>\<open>script_pub_key\<close> is a pointer into the output array of a cached record:
  the outpoint, and the number of arrays the loop had rebuilt when the pointer was taken. In the state
  of the function, \<open>cs_rebuilt\<close> lists the txids whose output arrays \<^verbatim>\<open>coins_from_transaction\<close> has freed
  and allocated again, in order. Nothing else moves the array of an output that was spent: the table
  of the cache moves records and not their arrays, and an array grows only for an output that does
  not exist, which ends the function.
\<close>

record script_check =
  sc_script_sig :: script
  sc_script_pub_key :: outpoint
  sc_taken :: nat
  sc_tx :: transaction
  sc_index :: nat
  sc_amount :: int

record cstate =
  cs_view :: coins_view_cache
  cs_fees :: int
  cs_sig_ops :: u32
  cs_checks :: "script_check list"
  cs_undo :: "tx_undo list"
  cs_rebuilt :: "bytes list"

type_synonym 'a cb = "cstate \<times> validation_state \<Rightarrow> ('a option \<times> cstate \<times> validation_state) option"

definition cret :: "'a \<Rightarrow> 'a cb" where
  "cret x \<sigma> = Some (Some x, \<sigma>)"

definition cbind :: "'a cb \<Rightarrow> ('a \<Rightarrow> 'b cb) \<Rightarrow> 'b cb" where
  "cbind m f \<sigma> = (case m \<sigma> of None \<Rightarrow> None | Some (None, \<sigma>') \<Rightarrow> Some (None, \<sigma>') | Some (Some x, \<sigma>') \<Rightarrow> f x \<sigma>')"

definition cstate_of :: "cstate cb" where
  "cstate_of \<sigma> = Some (Some (fst \<sigma>), \<sigma>)"

definition cupd :: "(cstate \<Rightarrow> cstate) \<Rightarrow> unit cb" where
  "cupd f \<sigma> = Some (Some (), f (fst \<sigma>), snd \<sigma>)"

definition cdef :: "'a option \<Rightarrow> 'a cb" where
  "cdef x \<sigma> = map_option (\<lambda>y. (Some y, \<sigma>)) x"

definition cdos :: "bool \<Rightarrow> string \<Rightarrow> 'a cb" where
  "cdos corruption reason \<sigma> =
     map_option (\<lambda>(s', _). (None, fst \<sigma>, s')) (validation_state_dos 100 REJECT_INVALID reason corruption (snd \<sigma>))"

definition creject_if :: "bool \<Rightarrow> string \<Rightarrow> unit cb" where
  "creject_if c reason = (if c then cdos False reason else cret ())"

definition cquery :: "(coins_view_cache \<Rightarrow> (coins_view_cache \<times> 'a) option) \<Rightarrow> 'a cb" where
  "cquery q \<sigma> = map_option (\<lambda>(v, x). (Some x, (fst \<sigma>)\<lparr>cs_view := v\<rparr>, snd \<sigma>)) (q (cs_view (fst \<sigma>)))"

fun ceach :: "('a \<Rightarrow> unit cb) \<Rightarrow> 'a list \<Rightarrow> unit cb" where
  "ceach f [] = cret ()"
| "ceach f (x # xs) = cbind (f x) (\<lambda>_. ceach f xs)"

subsection \<open>The checks on a transaction\<close>

abbreviation (input) COINBASE_MATURITY :: int where "COINBASE_MATURITY \<equiv> 100"
abbreviation (input) MAX_BLOCK_SIGOPS :: u32 where "MAX_BLOCK_SIGOPS \<equiv> 20000"
abbreviation (input) SCRIPT_VERIFY_CHECKLOCKTIMEVERIFY :: u32 where "SCRIPT_VERIFY_CHECKLOCKTIMEVERIFY \<equiv> 512"

definition block_flags :: u32 where
  "block_flags = SCRIPT_VERIFY_P2SH OR SCRIPT_VERIFY_CHECKLOCKTIMEVERIFY"

fun outputs_for :: "calloc \<Rightarrow> coins_view_cache \<Rightarrow> tx_in list \<Rightarrow> (coins_view_cache \<times> tx_out option list) option" where
  "outputs_for calloc view [] = Some (view, [])"
| "outputs_for calloc view (i # is) =
     (case coins_view_cache_get_output_for calloc view i of
        None \<Rightarrow> None
      | Some (v1, out) \<Rightarrow> map_option (\<lambda>(v2, outs). (v2, out # outs)) (outputs_for calloc v1 is))"

definition get_p2sh_sig_op_count ::
  "calloc \<Rightarrow> transaction option \<Rightarrow> u32 \<Rightarrow> coins_view_cache \<Rightarrow> (coins_view_cache \<times> u64) option" where
  "get_p2sh_sig_op_count calloc tx_opt flags view =
     (case tx_opt of None \<Rightarrow> Some (view, 0) | Some tx \<Rightarrow>
      if flags AND SCRIPT_VERIFY_P2SH = 0 then Some (view, 0)
      else if transaction_is_coinbase tx then Some (view, 0)
      else if vin tx = [] then Some (view, 0)
      else if \<not> calloc ''p2sh_sigops_prevouts'' (length (vin tx)) then Some (view, 0)
      else
        map_option (\<lambda>(v1, prevouts).
            (v1, case domain_consensus_tx_p2sh_sig_op_count (Some tx) (Some prevouts) flags True of Inl _ \<Rightarrow> 0 | Inr n \<Rightarrow> n))
          (outputs_for calloc view (vin tx)))"

definition bip30_check :: "calloc \<Rightarrow> int \<Rightarrow> transaction \<Rightarrow> unit cb" where
  "bip30_check calloc nHeight tx =
     cbind cstate_of (\<lambda>c.
     if \<not> coins_view_cache_have_coins (cs_view c) (tx_hash tx) then cret ()
     else
       cbind (cquery (\<lambda>v. coins_view_cache_get_coins calloc v (tx_hash tx))) (\<lambda>existing.
       case existing of
         None \<Rightarrow> cret ()
       | Some co \<Rightarrow> creject_if (\<not> coins_is_pruned (Some co) \<and> \<not> (c_height co = nHeight \<and> nHeight > 0)) ''bad-txns-BIP30''))"

definition add_sig_ops :: "u64 \<Rightarrow> unit cb" where
  "add_sig_ops n =
     cbind (cupd (\<lambda>c. c\<lparr>cs_sig_ops := cs_sig_ops c + ucast n\<rparr>)) (\<lambda>_.
     cbind cstate_of (\<lambda>c. creject_if (cs_sig_ops c > MAX_BLOCK_SIGOPS) ''bad-blk-sigops''))"

definition maturity_check :: "calloc \<Rightarrow> int \<Rightarrow> tx_in \<Rightarrow> unit cb" where
  "maturity_check calloc nHeight i =
     cbind (cquery (\<lambda>v. coins_view_cache_get_coins calloc v (op_hash (prevout i)))) (\<lambda>prev_coins.
     case prev_coins of
       None \<Rightarrow> cret ()
     | Some co \<Rightarrow>
         if \<not> c_is_coinbase co then cret ()
         else cbind (cdef (ck32 (nHeight - c_height co))) (\<lambda>age.
                creject_if (age < COINBASE_MATURITY) ''bad-txns-premature-spend-of-coinbase''))"

text \<open>The first missing input, recorded in the state before the rejection.\<close>

fun find_missing :: "calloc \<Rightarrow> coins_view_cache \<Rightarrow> tx_in list \<Rightarrow> (coins_view_cache \<times> outpoint option) option" where
  "find_missing calloc view [] = Some (view, None)"
| "find_missing calloc view (i # is) =
     (case coins_view_cache_get_output_for calloc view i of
        None \<Rightarrow> None
      | Some (v1, None) \<Rightarrow> Some (v1, Some (prevout i))
      | Some (v1, Some _) \<Rightarrow> find_missing calloc v1 is)"

definition inputs_check :: "calloc \<Rightarrow> transaction \<Rightarrow> unit cb" where
  "inputs_check calloc tx =
     cbind (cquery (\<lambda>v. coins_view_cache_have_inputs calloc v tx)) (\<lambda>have.
     if have then cret ()
     else
       cbind (cquery (\<lambda>v. find_missing calloc v (vin tx))) (\<lambda>missing.
       \<lambda>(c, s). cdos False ''bad-txns-inputs-missingorspent''
          (c, case missing of None \<Rightarrow> s | Some op \<Rightarrow> s\<lparr>missing_utxo := Some op\<rparr>)))"

definition joinsplit_check :: "transaction \<Rightarrow> unit cb" where
  "joinsplit_check tx =
     cbind cstate_of (\<lambda>c. creject_if (\<not> coins_view_cache_have_joinsplit_requirements (cs_view c) tx)
       ''bad-txns-joinsplit-requirements-not-met'')"

definition fee_check :: "calloc \<Rightarrow> transaction \<Rightarrow> unit cb" where
  "fee_check calloc tx =
     cbind (cquery (\<lambda>v. coins_view_cache_get_value_in calloc v tx)) (\<lambda>value_in.
     cbind (cdef (transaction_get_value_out tx)) (\<lambda>value_out.
     cbind (creject_if (value_in < 0) ''bad-txns-inputvalues-outofrange'') (\<lambda>_.
     cbind (creject_if (\<not> MoneyRange value_in) ''bad-txns-inputvalues-outofrange'') (\<lambda>_.
     cbind (creject_if (value_in < value_out) ''bad-txns-in-belowout'') (\<lambda>_.
     cbind (cdef (ck64 (value_in - value_out))) (\<lambda>tx_fee.
     cbind (creject_if (tx_fee < 0) ''bad-txns-fee-negative'') (\<lambda>_.
     cbind cstate_of (\<lambda>c.
     cbind (cdef (ck64 (cs_fees c + tx_fee))) (\<lambda>fees.
     cbind (creject_if (\<not> MoneyRange fees) ''bad-txns-fee-outofrange'') (\<lambda>_.
       cupd (\<lambda>c. c\<lparr>cs_fees := fees\<rparr>)))))))))))"

text \<open>One input of the collection of script checks; the arrays have room for all of them.\<close>

definition collect_check :: "calloc \<Rightarrow> transaction \<Rightarrow> nat \<times> tx_in \<Rightarrow> unit cb" where
  "collect_check calloc tx ji =
     (case ji of (j, i) \<Rightarrow>
      cbind (cquery (\<lambda>v. coins_view_cache_get_output_for calloc v i)) (\<lambda>prev_out.
      case prev_out of
        None \<Rightarrow> cdos False ''bad-txns-inputs-missingorspent''
      | Some out \<Rightarrow>
          cbind (creject_if (\<not> MoneyRange (out_value out)) ''bad-txns-inputvalues-outofrange'') (\<lambda>_.
          cupd (\<lambda>c. c\<lparr>cs_checks := cs_checks c @ [\<lparr>sc_script_sig = script_sig i, sc_script_pub_key = prevout i,
                        sc_taken = length (cs_rebuilt c), sc_tx = tx, sc_index = j, sc_amount = out_value out\<rparr>]\<rparr>))))"

definition update_step :: "hashfun \<Rightarrow> bool \<Rightarrow> calloc \<Rightarrow> int \<Rightarrow> transaction \<Rightarrow> unit cb" where
  "update_step sha256 skip calloc nHeight tx =
     cbind (cquery (\<lambda>v. update_coins_with_undo sha256 skip calloc tx v tx_undo_init nHeight))
       (\<lambda>(us, ok). if ok then cupd (\<lambda>c. c\<lparr>cs_undo := cs_undo c @ [us], cs_rebuilt := cs_rebuilt c @ [tx_hash tx]\<rparr>)
                  else cdos True ''bad-txns-utxo-update-failed'')"

definition spending_checks :: "calloc \<Rightarrow> int \<Rightarrow> bool \<Rightarrow> transaction \<Rightarrow> unit cb" where
  "spending_checks calloc nHeight expensive tx =
     cbind (ceach (maturity_check calloc nHeight) (vin tx)) (\<lambda>_.
     cbind (inputs_check calloc tx) (\<lambda>_.
     cbind (joinsplit_check tx) (\<lambda>_.
     cbind (cquery (get_p2sh_sig_op_count calloc (Some tx) block_flags)) (\<lambda>n.
     cbind (add_sig_ops n) (\<lambda>_.
     cbind (fee_check calloc tx) (\<lambda>_.
       if expensive then ceach (collect_check calloc tx) (enumerate 0 (vin tx)) else cret ()))))))"

definition connect_tx :: "hashfun \<Rightarrow> bool \<Rightarrow> calloc \<Rightarrow> int \<Rightarrow> bool \<Rightarrow> transaction \<Rightarrow> unit cb" where
  "connect_tx sha256 skip calloc nHeight expensive tx =
     cbind (add_sig_ops (get_legacy_sig_op_count (Some tx) block_flags)) (\<lambda>_.
     cbind (if transaction_is_coinbase tx then cret () else spending_checks calloc nHeight expensive tx) (\<lambda>_.
       update_step sha256 skip calloc nHeight tx))"

subsection \<open>The block\<close>

definition checkpoint_covers :: "checkpoint_data \<Rightarrow> int \<Rightarrow> bool" where
  "checkpoint_covers cpdata height \<longleftrightarrow> cpdata \<noteq> [] \<and> cp_height (cpdata ! (length cpdata - 1)) \<ge> height"

type_synonym verifier = "script \<Rightarrow> script \<Rightarrow> transaction \<Rightarrow> nat \<Rightarrow> int \<Rightarrow> bool"

text \<open>
  What the pointer of a check reads now: nothing if the array it points into has been freed since it
  was taken.
\<close>

definition dangling :: "bytes list \<Rightarrow> script_check \<Rightarrow> bool" where
  "dangling rebuilt sc \<longleftrightarrow> op_hash (sc_script_pub_key sc) \<in> set (drop (sc_taken sc) rebuilt)"

definition script_at :: "coins_view_cache \<Rightarrow> bytes list \<Rightarrow> script_check \<Rightarrow> script option" where
  "script_at view rebuilt sc =
     (if dangling rebuilt sc then None
      else
        do { slot \<leftarrow> coins_map_find (cc_coins view) (op_hash (sc_script_pub_key sc));
             let outs = c_vout (e_coins (entry_at (cc_coins view) slot));
             let n = unat (op_n (sc_script_pub_key sc));
             if n < length outs then Some (script_pub_key (outs ! n)) else None })"

definition script_check_fn :: "verifier \<Rightarrow> coins_view_cache \<Rightarrow> bytes list \<Rightarrow> script_check \<Rightarrow> bool option" where
  "script_check_fn verify view rebuilt sc =
     map_option (\<lambda>spk. verify (sc_script_sig sc) spk (sc_tx sc) (sc_index sc) (sc_amount sc)) (script_at view rebuilt sc)"

fun run_checks :: "verifier \<Rightarrow> coins_view_cache \<Rightarrow> bytes list \<Rightarrow> script_check list \<Rightarrow> bool option" where
  "run_checks verify view rebuilt [] = Some True"
| "run_checks verify view rebuilt (sc # scs) =
     do { ok \<leftarrow> script_check_fn verify view rebuilt sc; if ok then run_checks verify view rebuilt scs else Some False }"

definition scripts_step :: "verifier \<Rightarrow> unit cb" where
  "scripts_step verify =
     cbind cstate_of (\<lambda>c.
     cbind (cdef (run_checks verify (cs_view c) (cs_rebuilt c) (cs_checks c))) (\<lambda>scripts_ok.
       creject_if (\<not> scripts_ok) ''mandatory-script-verify-flag-failed''))"

definition sapling_root_check :: "consensus_params \<Rightarrow> int \<Rightarrow> block \<Rightarrow> unit cb" where
  "sapling_root_check params nHeight b =
     cbind (cdef (consensus_network_upgrade_active params nHeight UPGRADE_SAPLING)) (\<lambda>sapling_active.
       creject_if (sapling_active \<and> hdr_hashFinalSaplingRoot (blk_header b) = replicate 32 0) ''bad-sapling-root-zeroed'')"

definition reward_check :: "consensus_params \<Rightarrow> int \<Rightarrow> block \<Rightarrow> unit cb" where
  "reward_check params nHeight b =
     cbind (cdef (get_block_subsidy nHeight (Some params))) (\<lambda>subsidy.
     cbind cstate_of (\<lambda>c.
     cbind (cdef (ck64 (INT64_MAX - subsidy))) (\<lambda>room.
     cbind (creject_if (cs_fees c > room) ''bad-cb-reward-overflow'') (\<lambda>_.
     cbind (cdef (ck64 (cs_fees c + subsidy))) (\<lambda>block_reward.
     cbind (cdef (transaction_get_value_out (vtx b ! 0))) (\<lambda>v.
       creject_if (v > block_reward) ''bad-cb-amount''))))))"

text \<open>A fatal error of the node, and a plain return of false.\<close>

definition cfatal :: "string \<Rightarrow> 'a cb" where
  "cfatal reason \<sigma> = map_option (\<lambda>(s', _). (None, fst \<sigma>, s')) (validation_state_error reason (snd \<sigma>))"

definition cfalse :: "'a cb" where
  "cfalse \<sigma> = Some (None, \<sigma>)"

definition prevblock_check :: "block \<Rightarrow> unit cb" where
  "prevblock_check b =
     cbind (cquery (\<lambda>v. Some (coins_view_cache_get_best_block v))) (\<lambda>view_best.
       if \<not> uint256_is_null view_best \<and> hdr_hashPrevBlock (blk_header b) \<noteq> view_best
       then cfatal ''connect_block-view-mismatch'' else cret ())"

text \<open>The three arrays of the collection phase, and the undo records of all transactions but the first.\<close>

definition alloc_step :: "calloc \<Rightarrow> block \<Rightarrow> unit cb" where
  "alloc_step calloc b =
     (if length (vtx b) > 1 \<and> block_undo_alloc calloc block_undo_init (length (vtx b) - 1) = None then cfalse
      else
        (let spending = filter (\<lambda>tx. \<not> transaction_is_coinbase tx) (vtx b);
             checks_cap = max 1 (sum_list (map (\<lambda>tx. length (vin tx)) spending));
             txdatas_cap = max 1 (length spending)
         in if calloc ''connect_checks'' checks_cap \<and> calloc ''connect_check_ptrs'' checks_cap \<and>
               calloc ''connect_txdatas'' txdatas_cap
            then cret () else cfatal ''out-of-memory''))"

definition connect_body ::
  "hashfun \<Rightarrow> bool \<Rightarrow> calloc \<Rightarrow> verifier \<Rightarrow> consensus_params \<Rightarrow> int \<Rightarrow> int \<Rightarrow> bool \<Rightarrow> bool \<Rightarrow> block \<Rightarrow> unit cb" where
  "connect_body sha256 skip calloc verify params deferred_below nHeight expensive just_check b =
     cbind (if deferred_below \<ge> 0 \<and> nHeight \<le> deferred_below then cret ()
            else ceach (bip30_check calloc nHeight) (vtx b)) (\<lambda>_.
     cbind (alloc_step calloc b) (\<lambda>_.
     cbind (ceach (connect_tx sha256 skip calloc nHeight expensive) (vtx b)) (\<lambda>_.
     cbind (scripts_step verify) (\<lambda>_.
     cbind (if just_check then cret () else sapling_root_check params nHeight b) (\<lambda>_.
       reward_check params nHeight b)))))"

definition expensive_checks :: "checkpoint_data \<Rightarrow> int \<Rightarrow> int \<Rightarrow> bool" where
  "expensive_checks cpdata deferred_below nHeight \<longleftrightarrow>
     \<not> checkpoint_covers cpdata nHeight \<and> \<not> (deferred_below \<ge> 0 \<and> nHeight \<le> deferred_below)"

text \<open>The local variables at the start.\<close>

definition cstart :: "coins_view_cache \<Rightarrow> cstate" where
  "cstart view = \<lparr>cs_view = view, cs_fees = 0, cs_sig_ops = 0, cs_checks = [], cs_undo = [], cs_rebuilt = []\<rparr>"

definition connected_hash :: "alloc \<Rightarrow> hashfun \<Rightarrow> bytes option \<Rightarrow> block \<Rightarrow> bytes" where
  "connected_hash alloc hash256 phashBlock b =
     (case phashBlock of Some h \<Rightarrow> h | None \<Rightarrow> block_header_get_hash alloc hash256 (blk_header b))"

definition connect_block ::
  "alloc \<Rightarrow> calloc \<Rightarrow> hashfun \<Rightarrow> hashfun \<Rightarrow> bool \<Rightarrow> equihash \<Rightarrow> (u32 \<Rightarrow> verifier) \<Rightarrow> int \<Rightarrow> chain_params \<Rightarrow> checkpoint_data \<Rightarrow> int \<Rightarrow>
   bytes option \<Rightarrow> int \<Rightarrow> pool_values option \<Rightarrow> bool \<Rightarrow> block \<Rightarrow>
   validation_state \<Rightarrow> pool_values \<Rightarrow> coins_view_cache \<Rightarrow> (validation_state \<times> pool_values \<times> coins_view_cache \<times> bool) option" where
  "connect_block alloc calloc hash256 sha256 skip scheme verify now params cpdata deferred_below
       phashBlock nHeight parent just_check b s pindex view =
     (let block_hash = connected_hash alloc hash256 phashBlock b;
          expensive = expensive_checks cpdata deferred_below nHeight;
          branch_id = consensus_current_epoch_branch_id nHeight (consensus params)
      in do { (s1, ok) \<leftarrow> check_block alloc calloc hash256 scheme now params expensive (\<not> just_check) True b s;
              if \<not> ok then Some (s1, pindex, view, False)
              else if block_hash = hashGenesisBlock (consensus params)
              then Some (s1, pindex, if just_check then view else coins_view_cache_set_best_block view block_hash, True)
              else
                do { (r, c1, s2) \<leftarrow> prevblock_check b (cstart view, s1);
                     if r = None then Some (s2, pindex, cs_view c1, False)
                     else
                       do { (pindex1, s3, ok2) \<leftarrow> turnstile parent (vtx b) pindex s2;
                            if \<not> ok2 then Some (s3, pindex1, cs_view c1, False)
                            else
                              do { (r2, c2, s4) \<leftarrow> connect_body sha256 skip calloc (verify branch_id) (consensus params)
                                                     deferred_below nHeight expensive just_check b (c1, s3);
                                   if r2 = None then Some (s4, pindex1, cs_view c2, False)
                                   else Some (s4, pindex1,
                                     if just_check then cs_view c2 else coins_view_cache_set_best_block (cs_view c2) block_hash, True) } } } })"

section \<open>What an accepting run did\<close>

named_theorems cok "when a step succeeds"

lemma cret_ok [cok]: "cret x \<sigma> = Some (Some y, \<sigma>') \<longleftrightarrow> y = x \<and> \<sigma>' = \<sigma>"
  by (auto simp: cret_def)

lemma cbind_ok [cok]:
  "cbind m f \<sigma> = Some (Some y, \<sigma>'') \<longleftrightarrow> (\<exists>x \<sigma>'. m \<sigma> = Some (Some x, \<sigma>') \<and> f x \<sigma>' = Some (Some y, \<sigma>''))"
  by (auto simp: cbind_def split: option.splits prod.splits)

lemma cstate_of_ok [cok]: "cstate_of \<sigma> = Some (Some y, \<sigma>') \<longleftrightarrow> y = fst \<sigma> \<and> \<sigma>' = \<sigma>"
  by (auto simp: cstate_of_def)

lemma cupd_ok [cok]: "cupd f \<sigma> = Some (Some y, \<sigma>') \<longleftrightarrow> \<sigma>' = (f (fst \<sigma>), snd \<sigma>)"
  by (auto simp: cupd_def)

lemma cdef_ok [cok]: "cdef v \<sigma> = Some (Some y, \<sigma>') \<longleftrightarrow> v = Some y \<and> \<sigma>' = \<sigma>"
  by (auto simp: cdef_def)

lemma cdos_ok [cok]: "cdos k r \<sigma> \<noteq> Some (Some y, \<sigma>')"
  by (auto simp: cdos_def)

lemma cfatal_ok [cok]: "cfatal r \<sigma> \<noteq> Some (Some y, \<sigma>')"
  by (auto simp: cfatal_def)

lemma cfalse_ok [cok]: "cfalse \<sigma> \<noteq> Some (Some y, \<sigma>')"
  by (simp add: cfalse_def)

lemma creject_if_ok [cok]: "creject_if c r \<sigma> = Some (Some y, \<sigma>') \<longleftrightarrow> \<not> c \<and> \<sigma>' = \<sigma>"
  by (simp add: creject_if_def cok)

lemma cquery_ok [cok]:
  "cquery q \<sigma> = Some (Some y, \<sigma>') \<longleftrightarrow> (\<exists>v. q (cs_view (fst \<sigma>)) = Some (v, y) \<and> \<sigma>' = ((fst \<sigma>)\<lparr>cs_view := v\<rparr>, snd \<sigma>))"
  by (auto simp: cquery_def)

subsection \<open>Checks change no coin\<close>

text \<open>A step that leaves the coins, the fees and the undo records alone.\<close>

definition quiet :: "'a cb \<Rightarrow> bool" where
  "quiet m \<longleftrightarrow> (\<forall>c s x c' s'. wf_cache (cs_view c) \<and> m (c, s) = Some (Some x, c', s') \<longrightarrow>
     same_view (cs_view c) (cs_view c') \<and> cs_fees c' = cs_fees c \<and> cs_undo c' = cs_undo c \<and>
     set (cs_checks c) \<subseteq> set (cs_checks c'))"

lemma quietI:
  "(\<And>c s x c' s'. wf_cache (cs_view c) \<Longrightarrow> m (c, s) = Some (Some x, c', s') \<Longrightarrow>
     same_view (cs_view c) (cs_view c') \<and> cs_fees c' = cs_fees c \<and> cs_undo c' = cs_undo c \<and>
     set (cs_checks c) \<subseteq> set (cs_checks c')) \<Longrightarrow> quiet m"
  unfolding quiet_def by blast

lemma quietD:
  assumes "quiet m" "wf_cache (cs_view c)" "m (c, s) = Some (Some x, c', s')"
  shows "wf_cache (cs_view c')" "coin_at (cs_view c') = coin_at (cs_view c)" "cs_fees c' = cs_fees c" "cs_undo c' = cs_undo c"
    "set (cs_checks c) \<subseteq> set (cs_checks c')" "loaded (cs_view c) \<subseteq> loaded (cs_view c')"
  using assms unfolding quiet_def by blast+

named_theorems keeps "steps that are quiet"

lemma quiet_bind [keeps]:
  assumes "quiet m" "\<And>x. quiet (f x)"
  shows "quiet (cbind m f)"
proof (rule quietI)
  fix c s x c' s'
  assume wf: "wf_cache (cs_view c)" and "cbind m f (c, s) = Some (Some x, c', s')"
  then obtain y c1 s1 where m: "m (c, s) = Some (Some y, c1, s1)" and f: "f y (c1, s1) = Some (Some x, c', s')" by (auto simp: cok)
  note a = quietD [OF assms(1) wf m]
  from quietD [OF assms(2) a(1) f] a
  show "same_view (cs_view c) (cs_view c') \<and> cs_fees c' = cs_fees c \<and> cs_undo c' = cs_undo c \<and>
     set (cs_checks c) \<subseteq> set (cs_checks c')" by auto
qed

lemma quiet_basic [keeps]: "quiet (cret x)" "quiet cstate_of" "quiet (cdef v)" "quiet (cdos k r)" "quiet (creject_if b r)" "quiet (cfatal r)" "quiet cfalse"
  by (rule quietI, auto simp: cok)+

lemma quiet_query [keeps]:
  assumes "reads q"
  shows "quiet (cquery q)"
proof (rule quietI)
  fix c s x c' s'
  assume wf: "wf_cache (cs_view c)" and "cquery q (c, s) = Some (Some x, c', s')"
  then obtain v where "q (cs_view c) = Some (v, x)" "c' = c\<lparr>cs_view := v\<rparr>" by (auto simp: cok)
  with readsD [OF assms wf] show "same_view (cs_view c) (cs_view c') \<and> cs_fees c' = cs_fees c \<and> cs_undo c' = cs_undo c \<and>
     set (cs_checks c) \<subseteq> set (cs_checks c')" by simp
qed

lemma quiet_each [keeps]: "(\<And>x. quiet (f x)) \<Longrightarrow> quiet (ceach f xs)"
  by (induction xs) (simp_all add: keeps)

lemma quiet_if [keeps]: "(b \<Longrightarrow> quiet m) \<Longrightarrow> (\<not> b \<Longrightarrow> quiet n) \<Longrightarrow> quiet (if b then m else n)"
  by simp

lemma quiet_option [keeps]: "quiet m \<Longrightarrow> (\<And>x. quiet (f x)) \<Longrightarrow> quiet (case v of None \<Rightarrow> m | Some x \<Rightarrow> f x)"
  by (cases v) simp_all

lemma quiet_state [keeps]:
  "quiet (cupd (\<lambda>c. c\<lparr>cs_sig_ops := cs_sig_ops c + n\<rparr>))" "quiet (cupd (\<lambda>c. c\<lparr>cs_checks := cs_checks c @ xs c\<rparr>))"
  by (rule quietI, auto simp: cok)+

lemma outputs_for_reads: "wf_cache c \<Longrightarrow> outputs_for calloc c is = Some (c', x) \<Longrightarrow> same_view c c'"
proof (induction "is" arbitrary: c x)
  case (Cons i "is")
  then obtain c1 r outs where g: "coins_view_cache_get_output_for calloc c i = Some (c1, r)" "outputs_for calloc c1 is = Some (c', outs)"
    by (auto split: option.splits)
  from get_output_for_spec(1) [OF Cons.prems(1) g(1)] Cons.IH [of c1, OF _ g(2)] show ?case by auto
qed simp

lemma find_missing_reads: "wf_cache c \<Longrightarrow> find_missing calloc c is = Some (c', x) \<Longrightarrow> same_view c c'"
proof (induction "is" arbitrary: c)
  case (Cons i "is")
  then obtain c1 r where g: "coins_view_cache_get_output_for calloc c i = Some (c1, r)" by (auto split: option.splits)
  then show ?case using get_output_for_spec(1) [OF Cons.prems(1) g] Cons by (cases r) auto
qed simp

lemma p2sh_reads: "reads (get_p2sh_sig_op_count calloc tx flags)"
proof (rule readsI)
  fix c c' x
  assume wf: "wf_cache c" and g: "get_p2sh_sig_op_count calloc tx flags c = Some (c', x)"
  then have "c' = c \<or> (\<exists>is outs. outputs_for calloc c is = Some (c', outs))"
    by (auto simp: get_p2sh_sig_op_count_def split: option.splits if_splits)
  then show "same_view c c'" using wf outputs_for_reads by blast
qed

lemma best_block_reads: "reads (\<lambda>v. Some (coins_view_cache_get_best_block v))"
proof (rule readsI)
  fix c c' x
  assume wf: "wf_cache c" and "Some (coins_view_cache_get_best_block c) = Some (c', x)"
  then have "c' = c \<or> (\<exists>h. c' = c\<lparr>cc_hash_block := h\<rparr>)"
    by (auto simp: coins_view_cache_get_best_block_def Let_def split: if_splits option.splits)
  then show "same_view c c'" using wf by (auto simp: coin_at_best_block wf_cache_def loaded_def)
qed

lemma quiet_checks [keeps]:
  "quiet (bip30_check calloc h tx)" "quiet (add_sig_ops n)" "quiet (maturity_check calloc h i)"
  "quiet (joinsplit_check tx)" "quiet (collect_check calloc tx ji)" "quiet (scripts_step verify)"
  "quiet (sapling_root_check params h b)" "quiet (reward_check params h b)" "quiet (prevblock_check b)" "quiet (alloc_step calloc b)"
  unfolding bip30_check_def add_sig_ops_def maturity_check_def joinsplit_check_def collect_check_def scripts_step_def
    sapling_root_check_def reward_check_def prevblock_check_def alloc_step_def case_prod_beta Let_def
  by (intro keeps get_coins_reads get_output_for_reads best_block_reads)+

lemma quiet_inputs [keeps]: "quiet (inputs_check calloc tx)"
proof -
  have "quiet (\<lambda>(c, s). cdos False r (c, f s))" for r f by (rule quietI) (simp add: cok)
  moreover have "reads (\<lambda>v. find_missing calloc v (vin tx))" by (rule readsI) (rule find_missing_reads)
  ultimately show ?thesis unfolding inputs_check_def by (intro keeps have_inputs_reads)
qed

subsection \<open>Fees and undo records\<close>

lemma fee_check_spec:
  assumes wf: "wf_cache (cs_view c)" and ok: "fee_check calloc tx (c, s) = Some (Some x, c', s')"
    and nc: "\<not> transaction_is_coinbase tx"
  shows "wf_cache (cs_view c')" "coin_at (cs_view c') = coin_at (cs_view c)" "cs_undo c' = cs_undo c" "cs_checks c' = cs_checks c"
    "\<exists>v. transaction_get_value_out tx = Some v \<and>
       cs_fees c' = cs_fees c + sum_list (map (value_at (coin_at (cs_view c)) \<circ> prevout) (vin tx)) + shielded_in tx - v"
proof -
  obtain view vi vo where q: "coins_view_cache_get_value_in calloc (cs_view c) tx = Some (view, vi)"
      and vo: "transaction_get_value_out tx = Some vo" and vi: "0 \<le> vi"
      and c': "c' = c\<lparr>cs_view := view, cs_fees := cs_fees c + (vi - vo)\<rparr>"
    using ok by (auto simp: fee_check_def cok ck64_def split: if_splits)
  from get_value_in_spec [OF wf q] nc vi vo c'
  show "wf_cache (cs_view c')" "coin_at (cs_view c') = coin_at (cs_view c)" "cs_undo c' = cs_undo c" "cs_checks c' = cs_checks c"
    "\<exists>v. transaction_get_value_out tx = Some v \<and>
       cs_fees c' = cs_fees c + sum_list (map (value_at (coin_at (cs_view c)) \<circ> prevout) (vin tx)) + shielded_in tx - v" by auto
qed

lemma update_step_spec:
  assumes wf: "wf_cache (cs_view c)" and ok: "update_step sha256 skip calloc h tx (c, s) = Some (Some x, c', s')"
  shows "\<exists>us. spec_update (coin_at (cs_view c)) tx h = Some (coin_at (cs_view c'), us) \<and> wf_cache (cs_view c') \<and>
     cs_undo c' = cs_undo c @ [us] \<and> cs_fees c' = cs_fees c \<and> cs_checks c' = cs_checks c"
proof -
  obtain view us where "update_coins_with_undo sha256 skip calloc tx (cs_view c) tx_undo_init h = Some (view, us, True)"
      "c' = c\<lparr>cs_view := view, cs_undo := cs_undo c @ [us], cs_rebuilt := cs_rebuilt c @ [tx_hash tx]\<rparr>"
    using ok by (auto simp: update_step_def cok split: if_splits)
  with update_refines [OF wf] show ?thesis by auto
qed

text \<open>The fee of a transaction, from the outputs it spent.\<close>

definition tx_fee :: "transaction \<Rightarrow> tx_undo \<Rightarrow> int" where
  "tx_fee tx us = (if transaction_is_coinbase tx then 0
     else undo_value us + shielded_in tx - the (transaction_get_value_out tx))"

lemma spends_value:
  assumes "spec_spends f is = Some (f', us)"
  shows "sum_list (map (value_at f \<circ> prevout) is) = undo_value us"
proof -
  have "map (value_at f \<circ> prevout) is = map (case_option 0 out_value) (map (at_outpoint f \<circ> prevout) is)" by (simp add: value_at_def)
  also have "\<dots> = map (out_value \<circ> u_txout) us" using spec_spends_outputs [OF assms] by simp
  finally show ?thesis by (simp add: undo_value_def)
qed

text \<open>An input for which a script check was recorded.\<close>

definition checked :: "cstate \<Rightarrow> transaction \<Rightarrow> nat \<times> tx_in \<Rightarrow> bool" where
  "checked c tx ji \<longleftrightarrow> (\<exists>n amount. \<lparr>sc_script_sig = script_sig (snd ji), sc_script_pub_key = prevout (snd ji), sc_taken = n, sc_tx = tx,
     sc_index = fst ji, sc_amount = amount\<rparr> \<in> set (cs_checks c))"

lemma checked_mono: "checked c tx ji \<Longrightarrow> set (cs_checks c) \<subseteq> set (cs_checks c') \<Longrightarrow> checked c' tx ji"
  unfolding checked_def by blast

lemma collect_each:
  "wf_cache (cs_view c) \<Longrightarrow> ceach (collect_check calloc tx) jis (c, s) = Some (Some x, c', s') \<Longrightarrow> \<forall>ji \<in> set jis. checked c' tx ji"
proof (induction jis arbitrary: c s)
  case (Cons ji jis)
  obtain c1 s1 where a: "collect_check calloc tx ji (c, s) = Some (Some (), c1, s1)"
      and r: "ceach (collect_check calloc tx) jis (c1, s1) = Some (Some x, c', s')"
    using Cons.prems(2) by (auto simp: cok)
  have "\<exists>n amount. cs_checks c1 = cs_checks c @ [\<lparr>sc_script_sig = script_sig (snd ji),
      sc_script_pub_key = prevout (snd ji), sc_taken = n, sc_tx = tx, sc_index = fst ji, sc_amount = amount\<rparr>]"
    using a by (auto simp: collect_check_def cok split: prod.splits option.splits)
  then have "checked c1 tx ji" unfolding checked_def by (metis in_set_conv_decomp)
  moreover have wf: "wf_cache (cs_view c1)" by (rule quietD [OF quiet_checks(5) Cons.prems(1) a])
  moreover have q: "quiet (ceach (collect_check calloc tx) jis)" by (intro keeps)
  ultimately show ?case using Cons.IH [OF wf r] quietD(5) [OF q wf r] checked_mono by auto
qed simp

text \<open>The record of an output that is spent is not that of a coinbase younger than 100 blocks.\<close>

definition mature :: "utxo \<Rightarrow> int \<Rightarrow> tx_in \<Rightarrow> bool" where
  "mature f h i \<longleftrightarrow> (fst (tag_at f (op_hash (prevout i))) \<longrightarrow>
     is_int32 (h - snd (tag_at f (op_hash (prevout i)))) \<and> snd (tag_at f (op_hash (prevout i))) + COINBASE_MATURITY \<le> h)"

lemma maturity_each:
  "wf_cache (cs_view c) \<Longrightarrow> table_memory calloc \<Longrightarrow> ceach (maturity_check calloc h) is (c, s) = Some (Some x, c', s') \<Longrightarrow>
   i \<in> set is \<Longrightarrow> \<not> unused (coin_at (cs_view c)) (op_hash (prevout i)) \<Longrightarrow> mature (coin_at (cs_view c)) h i"
proof (induction "is" arbitrary: c s)
  case (Cons j "is")
  obtain c1 s1 where a: "maturity_check calloc h j (c, s) = Some (Some (), c1, s1)"
      and r: "ceach (maturity_check calloc h) is (c1, s1) = Some (Some x, c', s')"
    using Cons.prems(3) by (auto simp: cok)
  note q = quietD [OF quiet_checks(3) Cons.prems(1) a]
  show ?case
  proof (cases "i = j")
    case True
    obtain v pc where g: "coins_view_cache_get_coins calloc (cs_view c) (op_hash (prevout i)) = Some (v, pc)"
      using a True by (auto simp: maturity_check_def cok)
    obtain co where co: "pc = Some co" "tag_at (coin_at (cs_view c)) (op_hash (prevout i)) = (c_is_coinbase co, c_height co)"
      using get_coins_runs [OF Cons.prems(1,2), of "op_hash (prevout i)"] Cons.prems(5) g by auto
    show ?thesis using a True g co by (auto simp: maturity_check_def cok mature_def ck32_def split: if_splits)
  next
    case False
    then show ?thesis using Cons.IH [OF q(1) Cons.prems(2) r] Cons.prems(4,5) q(2) by simp
  qed
qed simp

lemma connect_tx_spec:
  assumes wf: "wf_cache (cs_view c)" and ok: "connect_tx sha256 skip calloc h ex tx (c, s) = Some (Some x, c', s')"
  shows "\<exists>us. spec_update (coin_at (cs_view c)) tx h = Some (coin_at (cs_view c'), us) \<and> wf_cache (cs_view c') \<and>
     cs_undo c' = cs_undo c @ [us] \<and> cs_fees c' = cs_fees c + tx_fee tx us \<and> set (cs_checks c) \<subseteq> set (cs_checks c') \<and>
     (\<not> transaction_is_coinbase tx \<longrightarrow> (ex \<longrightarrow> (\<forall>ji \<in> set (enumerate 0 (vin tx)). checked c' tx ji)) \<and>
        (table_memory calloc \<longrightarrow> (\<forall>i \<in> set (vin tx). mature (coin_at (cs_view c)) h i)))"
proof (cases "transaction_is_coinbase tx")
  case True
  then obtain c1 s1 where a: "add_sig_ops (get_legacy_sig_op_count (Some tx) block_flags) (c, s) = Some (Some (), c1, s1)"
      and u: "update_step sha256 skip calloc h tx (c1, s1) = Some (Some x, c', s')"
    using ok by (auto simp: connect_tx_def cok)
  note q = quietD [OF quiet_checks(2) wf a]
  from update_step_spec [OF q(1) u] q True show ?thesis by (auto simp: tx_fee_def)
next
  case False
  let ?pre = "cbind (ceach (maturity_check calloc h) (vin tx)) (\<lambda>_. cbind (inputs_check calloc tx) (\<lambda>_.
    cbind (joinsplit_check tx) (\<lambda>_. cbind (cquery (get_p2sh_sig_op_count calloc (Some tx) block_flags)) add_sig_ops)))"
  let ?post = "if ex then ceach (collect_check calloc tx) (enumerate 0 (vin tx)) else cret ()"
  obtain c0 s0 c1 s1 c2 s2 c3 s3 where a: "add_sig_ops (get_legacy_sig_op_count (Some tx) block_flags) (c, s) = Some (Some (), c0, s0)"
      and p: "?pre (c0, s0) = Some (Some (), c1, s1)" and fee: "fee_check calloc tx (c1, s1) = Some (Some (), c2, s2)"
      and q: "?post (c2, s2) = Some (Some (), c3, s3)" and u: "update_step sha256 skip calloc h tx (c3, s3) = Some (Some x, c', s')"
    using ok False by (simp add: connect_tx_def spending_checks_def cok) blast
  have quiet: "quiet ?pre" "quiet ?post" by (intro keeps p2sh_reads)+
  note q0 = quietD [OF quiet_checks(2) wf a]
  note q1 = quietD [OF quiet(1) q0(1) p]
  note f = fee_check_spec [OF q1(1) fee False]
  note q3 = quietD [OF quiet(2) f(1) q]
  obtain us where us: "spec_update (coin_at (cs_view c3)) tx h = Some (coin_at (cs_view c'), us)" "wf_cache (cs_view c')"
      "cs_undo c' = cs_undo c3 @ [us]" "cs_fees c' = cs_fees c3" "cs_checks c' = cs_checks c3"
    using update_step_spec [OF q3(1) u] by blast
  have same: "coin_at (cs_view c3) = coin_at (cs_view c)" using q0(2) q1(2) f(2) q3(2) by simp
  obtain f1 where sp: "spec_spends (coin_at (cs_view c)) (vin tx) = Some (f1, us)"
    using us(1) False same by (auto simp: spec_update_def split: bind_splits)
  have "\<forall>ji \<in> set (enumerate 0 (vin tx)). checked c' tx ji" if ex
    using that q us(5) collect_each [OF f(1)] by (auto simp: checked_def)
  moreover have "mature (coin_at (cs_view c)) h i" if "table_memory calloc" "i \<in> set (vin tx)" for i
  proof -
    obtain d e where "ceach (maturity_check calloc h) (vin tx) (c0, s0) = Some (Some (), d, e)" using p by (auto simp: cok)
    moreover have "\<not> unused (coin_at (cs_view c)) (op_hash (prevout i))"
      using spec_spends_places(3) [OF sp] that(2) by (auto simp: image_iff)
    ultimately show ?thesis using maturity_each [OF q0(1) that(1) _ that(2)] q0(2) by simp
  qed
  moreover from spends_value [OF sp] f(5) have "cs_fees c2 = cs_fees c1 + tx_fee tx us"
    using False q0(2) q1(2) by (auto simp: tx_fee_def)
  moreover have "set (cs_checks c) \<subseteq> set (cs_checks c')" using us(5) q0(5) q1(5) f(4) q3(5) by auto
  ultimately show ?thesis using us same q0(3,4) q1(3,4) f(3) q3(3,4) False by simp
qed

text \<open>
  The inputs of every transaction but the coinbase are checked and mature. Maturity refers to the
  coins before the block; a record the block itself creates has the height of the block.
\<close>

definition inputs_checked :: "cstate \<Rightarrow> transaction list \<Rightarrow> bool" where
  "inputs_checked c txs \<longleftrightarrow> (\<forall>tx \<in> set txs. \<not> transaction_is_coinbase tx \<longrightarrow> (\<forall>ji \<in> set (enumerate 0 (vin tx)). checked c tx ji))"

fun inputs_mature :: "utxo \<Rightarrow> int \<Rightarrow> transaction list \<Rightarrow> bool" where
  "inputs_mature f h [] = True"
| "inputs_mature f h (tx # txs) =
     ((\<not> transaction_is_coinbase tx \<longrightarrow> (\<forall>i \<in> set (vin tx). mature f h i)) \<and>
      (\<forall>f' us. spec_update f tx h = Some (f', us) \<longrightarrow> inputs_mature f' h txs))"

lemma connect_loop_spec:
  assumes "wf_cache (cs_view c)" "ceach (connect_tx sha256 skip calloc h ex) txs (c, s) = Some (Some x, c', s')"
  shows "\<exists>uss. spec_connect (coin_at (cs_view c)) txs h = Some (coin_at (cs_view c'), uss) \<and> wf_cache (cs_view c') \<and>
     cs_undo c' = cs_undo c @ uss \<and> cs_fees c' = cs_fees c + sum_list (map2 tx_fee txs uss) \<and>
     set (cs_checks c) \<subseteq> set (cs_checks c') \<and> (ex \<longrightarrow> inputs_checked c' txs) \<and>
     (table_memory calloc \<longrightarrow> inputs_mature (coin_at (cs_view c)) h txs)"
  using assms
proof (induction txs arbitrary: c s)
  case Nil
  then show ?case by (auto simp: cok inputs_checked_def)
next
  case (Cons tx txs)
  obtain c1 s1 where t: "connect_tx sha256 skip calloc h ex tx (c, s) = Some (Some (), c1, s1)"
      and r: "ceach (connect_tx sha256 skip calloc h ex) txs (c1, s1) = Some (Some x, c', s')"
    using Cons.prems(2) by (auto simp: cok)
  obtain us where a: "spec_update (coin_at (cs_view c)) tx h = Some (coin_at (cs_view c1), us)" "wf_cache (cs_view c1)"
      "cs_undo c1 = cs_undo c @ [us]" "cs_fees c1 = cs_fees c + tx_fee tx us" "set (cs_checks c) \<subseteq> set (cs_checks c1)"
      "\<not> transaction_is_coinbase tx \<longrightarrow> (ex \<longrightarrow> (\<forall>ji \<in> set (enumerate 0 (vin tx)). checked c1 tx ji)) \<and>
        (table_memory calloc \<longrightarrow> (\<forall>i \<in> set (vin tx). mature (coin_at (cs_view c)) h i))"
    using connect_tx_spec [OF Cons.prems(1) t] by blast
  obtain uss where b: "spec_connect (coin_at (cs_view c1)) txs h = Some (coin_at (cs_view c'), uss)" "wf_cache (cs_view c')"
      "cs_undo c' = cs_undo c1 @ uss" "cs_fees c' = cs_fees c1 + sum_list (map2 tx_fee txs uss)"
      "set (cs_checks c1) \<subseteq> set (cs_checks c')" "ex \<longrightarrow> inputs_checked c' txs"
      "table_memory calloc \<longrightarrow> inputs_mature (coin_at (cs_view c1)) h txs"
    using Cons.IH [OF a(2) r] by blast
  have "ex \<longrightarrow> inputs_checked c' (tx # txs)"
    using a(6) b(5,6) checked_mono [of c1 tx _ c'] unfolding inputs_checked_def by auto
  moreover have "table_memory calloc \<longrightarrow> inputs_mature (coin_at (cs_view c)) h (tx # txs)" using a(1,6) b(7) by simp
  moreover have "set (cs_checks c) \<subseteq> set (cs_checks c')" using a(5) b(5) by blast
  ultimately show ?case using a(1,3,4) b(1-4) by simp
qed

subsection \<open>The block\<close>

lemma connect_block_accepts:
  assumes "connect_block alloc calloc hash256 sha256 skip scheme verify now params cpdata deferred_below
       phashBlock nHeight parent just_check b s pindex view = Some (s', pindex', view', True)"
    and "connected_hash alloc hash256 phashBlock b \<noteq> hashGenesisBlock (consensus params)"
  obtains s1 s2 s3 c1 c2 s4 where
    "check_block alloc calloc hash256 scheme now params (expensive_checks cpdata deferred_below nHeight) (\<not> just_check) True b s = Some (s1, True)"
    "prevblock_check b (cstart view, s1) = Some (Some (), c1, s2)" "turnstile parent (vtx b) pindex s2 = Some (pindex', s3, True)"
    "connect_body sha256 skip calloc (verify (consensus_current_epoch_branch_id nHeight (consensus params))) (consensus params)
       deferred_below nHeight (expensive_checks cpdata deferred_below nHeight) just_check b (c1, s3) = Some (Some (), c2, s4)"
    "coin_at view' = coin_at (cs_view c2)" "wf_cache view' \<longleftrightarrow> wf_cache (cs_view c2)"
proof -
  have sb: "coin_at (if just_check then v else coins_view_cache_set_best_block v h) = coin_at v"
    "wf_cache (if just_check then v else coins_view_cache_set_best_block v h) \<longleftrightarrow> wf_cache v" for v h
    by (simp_all add: coins_view_cache_set_best_block_def coin_at_best_block wf_cache_def)
  define ex where "ex = expensive_checks cpdata deferred_below nHeight"
  define bid where "bid = consensus_current_epoch_branch_id nHeight (consensus params)"
  note run = assms(1) [unfolded connect_block_def Let_def, folded ex_def bid_def]
  obtain s1 where cb: "check_block alloc calloc hash256 scheme now params ex (\<not> just_check) True b s = Some (s1, True)"
    using run by (cases "check_block alloc calloc hash256 scheme now params ex (\<not> just_check) True b s") (auto split: if_splits)
  obtain c1 s2 where pb: "prevblock_check b (cstart view, s1) = Some (Some (), c1, s2)"
    using run cb assms(2) by (cases "prevblock_check b (cstart view, s1)") (auto split: if_splits)
  obtain pi s3 where tu: "turnstile parent (vtx b) pindex s2 = Some (pi, s3, True)"
    using run cb pb assms(2) by (cases "turnstile parent (vtx b) pindex s2") (auto split: if_splits)
  obtain c2 s4 where bo: "connect_body sha256 skip calloc (verify bid) (consensus params) deferred_below nHeight ex just_check b (c1, s3)
      = Some (Some (), c2, s4)"
    using run cb pb tu assms(2)
    by (cases "connect_body sha256 skip calloc (verify bid) (consensus params) deferred_below nHeight ex just_check b (c1, s3)")
      (auto split: if_splits)
  have "pi = pindex'" "view' = (if just_check then cs_view c2 else coins_view_cache_set_best_block (cs_view c2) (connected_hash alloc hash256 phashBlock b))"
    using run cb pb tu bo assms(2) by simp_all
  then show thesis using that [OF cb [unfolded ex_def] pb _ bo [unfolded bid_def ex_def]] tu sb by simp
qed

lemma connect_body_spec:
  assumes wf: "wf_cache (cs_view c)" "cs_undo c = []" "cs_fees c = 0"
    and ok: "connect_body sha256 skip calloc verify params deferred_below h ex just_check b (c, s) = Some (Some x, c', s')"
  shows "\<exists>uss subsidy v. spec_connect (coin_at (cs_view c)) (vtx b) h = Some (coin_at (cs_view c'), uss) \<and> wf_cache (cs_view c') \<and>
       get_block_subsidy h (Some params) = Some subsidy \<and> transaction_get_value_out (vtx b ! 0) = Some v \<and>
       v \<le> sum_list (map2 tx_fee (vtx b) uss) + subsidy"
    and "\<exists>cm. coin_at (cs_view cm) = coin_at (cs_view c') \<and> wf_cache (cs_view cm) \<and>
       run_checks verify (cs_view cm) (cs_rebuilt cm) (cs_checks cm) = Some True \<and> (ex \<longrightarrow> inputs_checked cm (vtx b))"
    and "table_memory calloc \<Longrightarrow> inputs_mature (coin_at (cs_view c)) h (vtx b)"
proof -
  let ?pre = "cbind (if deferred_below \<ge> 0 \<and> h \<le> deferred_below then cret () else ceach (bip30_check calloc h) (vtx b)) (\<lambda>_. alloc_step calloc b)"
  let ?mid = "cbind (scripts_step verify) (\<lambda>_. if just_check then cret () else sapling_root_check params h b)"
  obtain c1 s1 c2 s2 c3 s3 where p: "?pre (c, s) = Some (Some (), c1, s1)"
      and l: "ceach (connect_tx sha256 skip calloc h ex) (vtx b) (c1, s1) = Some (Some (), c2, s2)"
      and m: "?mid (c2, s2) = Some (Some (), c3, s3)" and r: "reward_check params h b (c3, s3) = Some (Some x, c', s')"
    using ok by (simp add: connect_body_def cok) blast
  have quiet: "quiet ?pre" "quiet ?mid" by (intro keeps)+
  note q1 = quietD [OF quiet(1) wf(1) p]
  obtain uss where uss: "spec_connect (coin_at (cs_view c1)) (vtx b) h = Some (coin_at (cs_view c2), uss)" "wf_cache (cs_view c2)"
      "cs_fees c2 = cs_fees c1 + sum_list (map2 tx_fee (vtx b) uss)" "ex \<longrightarrow> inputs_checked c2 (vtx b)"
      "table_memory calloc \<longrightarrow> inputs_mature (coin_at (cs_view c1)) h (vtx b)"
    using connect_loop_spec [OF q1(1) l] by blast
  note q3 = quietD [OF quiet(2) uss(2) m]
  note q4 = quietD [OF quiet_checks(8) q3(1) r]
  obtain subsidy v where "get_block_subsidy h (Some params) = Some subsidy" "transaction_get_value_out (vtx b ! 0) = Some v"
      "v \<le> cs_fees c3 + subsidy"
    using r by (auto simp: reward_check_def cok ck64_def split: if_splits)
  then show "\<exists>uss subsidy v. spec_connect (coin_at (cs_view c)) (vtx b) h = Some (coin_at (cs_view c'), uss) \<and> wf_cache (cs_view c') \<and>
       get_block_subsidy h (Some params) = Some subsidy \<and> transaction_get_value_out (vtx b ! 0) = Some v \<and>
       v \<le> sum_list (map2 tx_fee (vtx b) uss) + subsidy"
    using uss q1 q3 q4 wf by auto
  have "run_checks verify (cs_view c2) (cs_rebuilt c2) (cs_checks c2) = Some True" using m by (auto simp: scripts_step_def cok)
  then show "\<exists>cm. coin_at (cs_view cm) = coin_at (cs_view c') \<and> wf_cache (cs_view cm) \<and>
      run_checks verify (cs_view cm) (cs_rebuilt cm) (cs_checks cm) = Some True \<and> (ex \<longrightarrow> inputs_checked cm (vtx b))"
    using uss(2,4) q3(2) q4(2) by (intro exI [of _ c2]) simp
  show "table_memory calloc \<Longrightarrow> inputs_mature (coin_at (cs_view c)) h (vtx b)" using uss(5) q1(2) by simp
qed

text \<open>What an accepting run of \<^verbatim>\<open>connect_block\<close> on an ordinary block establishes.\<close>

lemma connect_block_run:
  assumes wf: "wf_cache view"
    and acc: "connect_block alloc calloc hash256 sha256 skip scheme verify now params cpdata deferred_below
       phashBlock nHeight parent just_check b s pindex view = Some (s', pindex', view', True)"
    and ng: "connected_hash alloc hash256 phashBlock b \<noteq> hashGenesisBlock (consensus params)"
  shows "\<exists>s1. check_block alloc calloc hash256 scheme now params (expensive_checks cpdata deferred_below nHeight) (\<not> just_check) True b s = Some (s1, True)"
    and "\<exists>uss subsidy v. spec_connect (coin_at view) (vtx b) nHeight = Some (coin_at view', uss) \<and> wf_cache view' \<and>
       get_block_subsidy nHeight (Some (consensus params)) = Some subsidy \<and> transaction_get_value_out (vtx b ! 0) = Some v \<and>
       v \<le> sum_list (map2 tx_fee (vtx b) uss) + subsidy"
    and "\<exists>cm. coin_at (cs_view cm) = coin_at view' \<and> wf_cache (cs_view cm) \<and>
       run_checks (verify (consensus_current_epoch_branch_id nHeight (consensus params))) (cs_view cm) (cs_rebuilt cm) (cs_checks cm) = Some True \<and>
       (expensive_checks cpdata deferred_below nHeight \<longrightarrow> inputs_checked cm (vtx b))"
    and "table_memory calloc \<Longrightarrow> inputs_mature (coin_at view) nHeight (vtx b)"
proof -
  obtain s1 s2 s3 c1 c2 s4 where
      cb: "check_block alloc calloc hash256 scheme now params (expensive_checks cpdata deferred_below nHeight) (\<not> just_check) True b s = Some (s1, True)"
      and pb: "prevblock_check b (cstart view, s1) = Some (Some (), c1, s2)"
      and body: "connect_body sha256 skip calloc (verify (consensus_current_epoch_branch_id nHeight (consensus params)))
        (consensus params) deferred_below nHeight (expensive_checks cpdata deferred_below nHeight) just_check b (c1, s3) = Some (Some (), c2, s4)"
      and v': "coin_at view' = coin_at (cs_view c2)" "wf_cache view' \<longleftrightarrow> wf_cache (cs_view c2)"
    using connect_block_accepts [OF acc ng] by metis
  have st: "wf_cache (cs_view c1)" "coin_at (cs_view c1) = coin_at view" "cs_undo c1 = []" "cs_fees c1 = 0"
    using quietD [OF quiet_checks(9) _ pb] wf by (simp_all add: cstart_def)
  note r = connect_body_spec [OF st(1,3,4) body, unfolded st(2), folded v']
  show "\<exists>s1. check_block alloc calloc hash256 scheme now params (expensive_checks cpdata deferred_below nHeight) (\<not> just_check) True b s = Some (s1, True)"
    using cb by blast
  show "\<exists>uss subsidy v. spec_connect (coin_at view) (vtx b) nHeight = Some (coin_at view', uss) \<and> wf_cache view' \<and>
       get_block_subsidy nHeight (Some (consensus params)) = Some subsidy \<and> transaction_get_value_out (vtx b ! 0) = Some v \<and>
       v \<le> sum_list (map2 tx_fee (vtx b) uss) + subsidy" by (rule r(1))
  show "\<exists>cm. coin_at (cs_view cm) = coin_at view' \<and> wf_cache (cs_view cm) \<and>
       run_checks (verify (consensus_current_epoch_branch_id nHeight (consensus params))) (cs_view cm) (cs_rebuilt cm) (cs_checks cm) = Some True \<and>
       (expensive_checks cpdata deferred_below nHeight \<longrightarrow> inputs_checked cm (vtx b))" by (rule r(2))
  show "table_memory calloc \<Longrightarrow> inputs_mature (coin_at view) nHeight (vtx b)" by (rule r(3))
qed

end
