(* ===== verification/Connect_Correct.thy ===== *)
theory Connect_Correct
  imports Connect_Block
begin

text \<open>
  The properties of \<^verbatim>\<open>connect_block\<close>: what an accepted block does to the supply, which blocks are
  accepted, the maturity of what they spend, what their script checks read, and that the turnstile of
  the shielded pools is never enforced.
\<close>

section \<open>Conservation\<close>

definition tx_flow :: "transaction \<Rightarrow> int" where
  "tx_flow tx = sum_list (map (\<lambda>js. vpub_old js - vpub_new js) (v_joinsplit tx)) - value_balance tx"

text \<open>The value a block moves from transparent outputs into the shielded pools, less what it takes out of them.\<close>

definition shielded_flow :: "transaction list \<Rightarrow> int" where
  "shielded_flow txs = sum_list (map tx_flow txs)"

lemma structural_amounts: "domain_consensus_check_transaction_structural alloc (Some tx) = Some (Inr ()) \<Longrightarrow> amounts_ok tx"
  unfolding domain_consensus_check_transaction_structural_def option.case by (auto simp: andthen_accept check_amounts_accept)

lemma amounts_news: "amounts_ok tx \<Longrightarrow> list_all MoneyRange (map vpub_new (v_joinsplit tx))"
  by (auto simp: amounts_ok_def total_in_range_def value_in_amounts_def)

lemma tx_balance:
  assumes "amounts_ok tx"
  shows "transaction_get_value_out tx = Some (sum_list (value_out_amounts tx))"
    "sum_list (map out_value (vout tx)) + tx_flow tx = sum_list (value_out_amounts tx) - shielded_in tx" "0 \<le> shielded_in tx"
proof -
  show "transaction_get_value_out tx = Some (sum_list (value_out_amounts tx))"
    using value_out_total assms by (simp add: amounts_ok_def total_in_range_def)
  show "sum_list (map out_value (vout tx)) + tx_flow tx = sum_list (value_out_amounts tx) - shielded_in tx"
    by (simp add: tx_flow_def value_out_amounts_def shielded_in_def sum_list_subtractf)
  show "0 \<le> shielded_in tx" using money_sum_nonneg [OF amounts_news [OF assms]] by (auto simp: shielded_in_def)
qed

lemma spec_connect_supply:
  "spec_connect f txs h = Some (f', uss) \<Longrightarrow> money_ok f \<Longrightarrow> list_all amounts_ok txs \<Longrightarrow>
   money_ok f' \<and> length uss = length txs \<and>
   money_supply f' + sum_list (map undo_value uss) \<le> money_supply f + sum_list (map (\<lambda>tx. sum_list (map out_value (vout tx))) txs)"
proof (induction txs arbitrary: f uss)
  case (Cons tx txs)
  obtain f1 us uss1 where s: "spec_update f tx h = Some (f1, us)" "spec_connect f1 txs h = Some (f', uss1)" "uss = us # uss1"
    using Cons.prems(1) by (auto split: bind_splits)
  have "list_all (\<lambda>out. MoneyRange (out_value out)) (vout tx)"
    using Cons.prems(3) by (auto simp: amounts_ok_def total_in_range_def value_out_amounts_def list_all_iff)
  note u = spec_update_supply [OF s(1) Cons.prems(2) this]
  from Cons.IH [OF s(2) u(1)] u(2) Cons.prems(3) s(3) show ?case by simp
qed simp

lemma fees_balance:
  "list_all amounts_ok txs \<Longrightarrow> length uss = length txs \<Longrightarrow> \<not> list_ex transaction_is_coinbase txs \<Longrightarrow>
   sum_list (map (\<lambda>tx. sum_list (map out_value (vout tx))) txs) + shielded_flow txs + sum_list (map2 tx_fee txs uss) =
   sum_list (map undo_value uss)"
proof (induction txs arbitrary: uss)
  case (Cons tx txs)
  then obtain us uss1 where "uss = us # uss1" "length uss1 = length txs" by (cases uss) auto
  then show ?case using Cons.IH [of uss1] Cons.prems tx_balance [of tx] by (simp add: shielded_flow_def tx_fee_def)
qed (simp add: shielded_flow_def)

lemma connect_block_conserves:
  assumes wf: "wf_cache view" and ok: "money_ok (coin_at view)"
    and acc: "connect_block alloc calloc hash256 sha256 skip scheme verify now params cpdata deferred_below
       phashBlock nHeight parent just_check b s pindex view = Some (s', pindex', view', True)"
    and ng: "connected_hash alloc hash256 phashBlock b \<noteq> hashGenesisBlock (consensus params)"
  shows "\<exists>subsidy. get_block_subsidy nHeight (Some (consensus params)) = Some subsidy \<and> wf_cache view' \<and> money_ok (coin_at view') \<and>
     money_supply (coin_at view') + shielded_flow (vtx b) \<le> money_supply (coin_at view) + subsidy"
proof -
  obtain s1 where cb: "check_block alloc calloc hash256 scheme now params (expensive_checks cpdata deferred_below nHeight) (\<not> just_check) True b s = Some (s1, True)"
    using connect_block_run(1) [OF wf acc ng] by blast
  obtain uss subsidy v where r: "spec_connect (coin_at view) (vtx b) nHeight = Some (coin_at view', uss)" "wf_cache view'"
      "get_block_subsidy nHeight (Some (consensus params)) = Some subsidy" "transaction_get_value_out (vtx b ! 0) = Some v"
      "v \<le> sum_list (map2 tx_fee (vtx b) uss) + subsidy"
    using connect_block_run(2) [OF wf acc ng] by blast
  have am: "list_all amounts_ok (vtx b)" and shape: "vtx b \<noteq> []" "transaction_is_coinbase (vtx b ! 0)" "\<not> list_ex transaction_is_coinbase (drop 1 (vtx b))"
    using cb structural_amounts
    by (auto simp: check_block_accept domain_consensus_check_block_size_and_coinbase_def accept list_all_iff)
  note sup = spec_connect_supply [OF r(1) ok am]
  then obtain tx txs us uss1 where e: "vtx b = tx # txs" "uss = us # uss1" "length uss1 = length txs"
    using shape(1) by (cases "vtx b"; cases uss) auto
  have "us = []" using r(1) shape(2) e by (auto simp: spec_update_def split: bind_splits if_splits)
  then show ?thesis
    using r(2-5) sup shape e am fees_balance [of txs uss1] tx_balance [of tx]
    by (simp add: shielded_flow_def tx_fee_def undo_value_def)
qed

section \<open>Which transactions are accepted\<close>

text \<open>The script checks of a transaction that is the one after \<open>n\<close> others.\<close>

definition tx_checks :: "nat \<Rightarrow> utxo \<Rightarrow> transaction \<Rightarrow> script_check list" where
  "tx_checks n f tx = map (\<lambda>(j, i). \<lparr>sc_script_sig = script_sig i, sc_script_pub_key = prevout i, sc_taken = n, sc_tx = tx, sc_index = j,
     sc_amount = value_at f (prevout i)\<rparr>) (enumerate 0 (vin tx))"

definition legacy_ops :: "transaction \<Rightarrow> u32" where
  "legacy_ops tx = ucast (get_legacy_sig_op_count (Some tx) block_flags)"

definition p2sh_ops :: "utxo \<Rightarrow> transaction \<Rightarrow> u32" where
  "p2sh_ops f tx = ucast (case domain_consensus_tx_p2sh_sig_op_count (Some tx) (Some (map (at_outpoint f \<circ> prevout) (vin tx))) block_flags True of
     Inl _ \<Rightarrow> 0 | Inr n \<Rightarrow> n)"

definition tx_value_in :: "utxo \<Rightarrow> transaction \<Rightarrow> int" where
  "tx_value_in f tx = sum_list (map (value_at f \<circ> prevout) (vin tx)) + shielded_in tx"

definition inputs_valid :: "utxo \<Rightarrow> int \<Rightarrow> transaction \<Rightarrow> bool" where
  "inputs_valid f h tx \<longleftrightarrow>
     list_all (\<lambda>i. at_outpoint f (prevout i) \<noteq> None \<and> MoneyRange (value_at f (prevout i)) \<and> mature f h i) (vin tx) \<and>
     MoneyRange (tx_value_in f tx) \<and> sum_list (value_out_amounts tx) \<le> tx_value_in f tx"

text \<open>
  A transaction on the coins, the fees and the signature operations so far; what the script checks ask
  of it, where the script of every output it spends has become the empty script; and a block.
\<close>

definition spec_tx :: "utxo \<Rightarrow> int \<Rightarrow> int \<Rightarrow> u32 \<Rightarrow> transaction \<Rightarrow> (utxo \<times> int \<times> u32) option" where
  "spec_tx f h fees ops tx =
     (let ops1 = ops + legacy_ops tx; ops2 = ops1 + p2sh_ops f tx;
          fees1 = fees + (tx_value_in f tx - sum_list (value_out_amounts tx))
      in if ops1 > MAX_BLOCK_SIGOPS then None
         else if transaction_is_coinbase tx then map_option (\<lambda>(f', us). (f', fees, ops1)) (spec_update f tx h)
         else if inputs_valid f h tx \<and> ops2 \<le> MAX_BLOCK_SIGOPS \<and> MoneyRange fees1
         then map_option (\<lambda>(f', us). (f', fees1, ops2)) (spec_update f tx h)
         else None)"

definition pass_on_empty :: "verifier \<Rightarrow> utxo \<Rightarrow> transaction \<Rightarrow> bool" where
  "pass_on_empty verify f tx \<longleftrightarrow>
     list_all (\<lambda>(j, i). verify (script_sig i) [] tx j (value_at f (prevout i))) (enumerate 0 (vin tx))"

fun spec_block :: "verifier \<Rightarrow> bool \<Rightarrow> utxo \<Rightarrow> int \<Rightarrow> int \<Rightarrow> u32 \<Rightarrow> transaction list \<Rightarrow> (utxo \<times> int) option" where
  "spec_block verify expensive f h fees ops [] = Some (f, fees)"
| "spec_block verify expensive f h fees ops (tx # txs) =
     do { (f1, fees1, ops1) \<leftarrow> spec_tx f h fees ops tx;
          if expensive \<and> \<not> transaction_is_coinbase tx \<and> \<not> pass_on_empty verify f tx then None
          else spec_block verify expensive f1 h fees1 ops1 txs }"

lemma cbind_run: "m \<sigma> = Some (Some x, \<sigma>') \<Longrightarrow> cbind m f \<sigma> = f x \<sigma>'"
  by (simp add: cbind_def)

lemma cquery_run: "q (cs_view c) = Some (v, x) \<Longrightarrow> cquery q (c, s) = Some (Some x, c\<lparr>cs_view := v\<rparr>, s)"
  by (simp add: cquery_def)

lemmas step_simps = cbind_def cret_def cstate_of_def cupd_def cdef_def creject_if_def cquery_def

lemma add_sig_ops_runs:
  "cs_sig_ops c + ucast n \<le> MAX_BLOCK_SIGOPS \<Longrightarrow> add_sig_ops n (c, s) = Some (Some (), c\<lparr>cs_sig_ops := cs_sig_ops c + ucast n\<rparr>, s)"
  by (auto simp: add_sig_ops_def step_simps)

lemma maturity_runs:
  "wf_cache (cs_view c) \<Longrightarrow> table_memory calloc \<Longrightarrow>
   \<forall>i \<in> set is. at_outpoint (coin_at (cs_view c)) (prevout i) \<noteq> None \<and> mature (coin_at (cs_view c)) h i \<Longrightarrow>
   \<exists>v. ceach (maturity_check calloc h) is (c, s) = Some (Some (), c\<lparr>cs_view := v\<rparr>, s) \<and> same_view (cs_view c) v"
proof (induction "is" arbitrary: c)
  case Nil
  then show ?case by (intro exI [of _ "cs_view c"]) (simp add: cret_def)
next
  case (Cons i "is")
  let ?k = "op_hash (prevout i)"
  have "\<not> unused (coin_at (cs_view c)) ?k" using Cons.prems(3) by (auto simp: at_outpoint_def unused_def)
  then obtain v co where v: "coins_view_cache_get_coins calloc (cs_view c) ?k = Some (v, Some co)" "same_view (cs_view c) v"
      "tag_at (coin_at (cs_view c)) ?k = (c_is_coinbase co, c_height co)"
    using get_coins_runs [OF Cons.prems(1,2), of ?k] by auto
  have "maturity_check calloc h i (c, s) = Some (Some (), c\<lparr>cs_view := v\<rparr>, s)"
    using v(1,3) Cons.prems(3) by (auto simp: maturity_check_def step_simps mature_def ck32_def)
  moreover obtain v' where "ceach (maturity_check calloc h) is (c\<lparr>cs_view := v\<rparr>, s) = Some (Some (), c\<lparr>cs_view := v'\<rparr>, s)" "same_view v v'"
    using Cons.IH [of "c\<lparr>cs_view := v\<rparr>"] v(2) Cons.prems(2,3) by auto
  ultimately show ?case using v(2) by (auto simp: cbind_def)
qed

lemma inputs_runs:
  assumes "wf_cache (cs_view c)" "table_memory calloc" "\<forall>i \<in> set (vin tx). at_outpoint (coin_at (cs_view c)) (prevout i) \<noteq> None"
    and "\<not> transaction_is_coinbase tx"
  shows "\<exists>v. inputs_check calloc tx (c, s) = Some (Some (), c\<lparr>cs_view := v\<rparr>, s) \<and> same_view (cs_view c) v \<and>
    (op_hash \<circ> prevout) ` set (vin tx) \<subseteq> loaded v"
  using have_inputs_runs [OF assms(1-3)] assms(4) by (auto simp: inputs_check_def step_simps)

lemma outputs_for_runs:
  "wf_cache c \<Longrightarrow> table_memory calloc \<Longrightarrow>
   \<exists>c'. outputs_for calloc c is = Some (c', map (at_outpoint (coin_at c) \<circ> prevout) is) \<and> same_view c c'"
proof (induction "is" arbitrary: c)
  case (Cons i "is")
  obtain c1 where c1: "coins_view_cache_get_output_for calloc c i = Some (c1, at_outpoint (coin_at c) (prevout i))" "same_view c c1"
    using get_output_for_runs [OF Cons.prems] by blast
  obtain c2 where "outputs_for calloc c1 is = Some (c2, map (at_outpoint (coin_at c) \<circ> prevout) is)" "same_view c1 c2"
    using Cons.IH [of c1] c1(2) Cons.prems(2) by auto
  then show ?case using c1 by auto
qed simp

lemma p2sh_runs:
  assumes "wf_cache c" "all_memory calloc" "\<not> transaction_is_coinbase tx"
  shows "\<exists>c' n. get_p2sh_sig_op_count calloc (Some tx) block_flags c = Some (c', n) \<and> ucast n = p2sh_ops (coin_at c) tx \<and> same_view c c'"
proof (cases "vin tx = []")
  case True
  have fl: "block_flags AND SCRIPT_VERIFY_P2SH \<noteq> 0" by (simp add: block_flags_def)
  have "p2sh_ops (coin_at c) tx = 0" using True assms(3) fl by (simp add: p2sh_ops_def domain_consensus_tx_p2sh_sig_op_count_def)
  then show ?thesis using True assms fl by (simp add: get_p2sh_sig_op_count_def)
next
  case False
  have fl: "block_flags AND SCRIPT_VERIFY_P2SH \<noteq> 0" by (simp add: block_flags_def)
  have "table_memory calloc" using assms(2) by (simp add: all_memory_def table_memory_def)
  then obtain c' where "outputs_for calloc c (vin tx) = Some (c', map (at_outpoint (coin_at c) \<circ> prevout) (vin tx))" "same_view c c'"
    using outputs_for_runs [OF assms(1)] by blast
  then show ?thesis using assms False fl by (auto simp: get_p2sh_sig_op_count_def p2sh_ops_def all_memory_def)
qed

lemma fee_runs:
  assumes "wf_cache (cs_view c)" "table_memory calloc" "\<not> transaction_is_coinbase tx" "amounts_ok tx"
    and iv: "inputs_valid (coin_at (cs_view c)) h tx"
    and fee: "MoneyRange (cs_fees c)" "MoneyRange (cs_fees c + (tx_value_in (coin_at (cs_view c)) tx - sum_list (value_out_amounts tx)))"
  shows "\<exists>v. fee_check calloc tx (c, s) = Some (Some (), c\<lparr>cs_view := v,
     cs_fees := cs_fees c + (tx_value_in (coin_at (cs_view c)) tx - sum_list (value_out_amounts tx))\<rparr>, s) \<and> same_view (cs_view c) v"
proof -
  let ?in = "tx_value_in (coin_at (cs_view c)) tx" and ?out = "sum_list (value_out_amounts tx)"
  have r: "MoneyRange ?in" "?out \<le> ?in" "MoneyRange ?out"
    using iv assms(4) unfolding inputs_valid_def amounts_ok_def total_in_range_def by blast+
  have js: "list_all (\<lambda>js. 0 \<le> vpub_new js) (v_joinsplit tx)"
    using amounts_news [OF assms(4)] by (simp add: list_all_iff MoneyRange_def)
  have av: "\<forall>i \<in> set (vin tx). at_outpoint (coin_at (cs_view c)) (prevout i) \<noteq> None \<and> MoneyRange (value_at (coin_at (cs_view c)) (prevout i))"
    using iv by (simp add: inputs_valid_def list_all_iff)
  obtain v where v: "coins_view_cache_get_value_in calloc (cs_view c) tx = Some (v, ?in)" "same_view (cs_view c) v"
    using get_value_in_runs [OF assms(1-3) av js] r(1) unfolding tx_value_in_def by blast
  note vo = tx_balance(1) [OF assms(4)]
  have "ck64 (?in - ?out) = Some (?in - ?out)" "ck64 (cs_fees c + (?in - ?out)) = Some (cs_fees c + (?in - ?out))"
    using r fee by (auto simp: ck64_def is_int64_def MoneyRange_def)
  moreover have "\<not> ?in < 0" "\<not> ?in - ?out < 0" "\<not> ?in < ?out" using r by (auto simp: MoneyRange_def)
  ultimately show ?thesis using v vo r fee(2) by (intro exI [of _ v]) (simp add: fee_check_def step_simps)
qed

lemma collect_runs:
  "wf_cache (cs_view c) \<Longrightarrow> table_memory calloc \<Longrightarrow>
   \<forall>ji \<in> set jis. at_outpoint (coin_at (cs_view c)) (prevout (snd ji)) \<noteq> None \<and> MoneyRange (value_at (coin_at (cs_view c)) (prevout (snd ji))) \<Longrightarrow>
   \<exists>v. ceach (collect_check calloc tx) jis (c, s) = Some (Some (), c\<lparr>cs_view := v, cs_checks := cs_checks c @
       map (\<lambda>(j, i). \<lparr>sc_script_sig = script_sig i, sc_script_pub_key = prevout i, sc_taken = length (cs_rebuilt c), sc_tx = tx, sc_index = j,
         sc_amount = value_at (coin_at (cs_view c)) (prevout i)\<rparr>) jis\<rparr>, s) \<and> same_view (cs_view c) v"
proof (induction jis arbitrary: c)
  case Nil
  then show ?case by (intro exI [of _ "cs_view c"]) (simp add: cret_def)
next
  case (Cons ji jis)
  obtain j i where ji: "ji = (j, i)" by (cases ji)
  obtain out where out: "at_outpoint (coin_at (cs_view c)) (prevout i) = Some out" using Cons.prems(3) ji by auto
  obtain v where v: "coins_view_cache_get_output_for calloc (cs_view c) i = Some (v, Some out)" "same_view (cs_view c) v"
    using get_output_for_runs [OF Cons.prems(1,2), of i] out by auto
  let ?sc = "\<lparr>sc_script_sig = script_sig i, sc_script_pub_key = prevout i, sc_taken = length (cs_rebuilt c), sc_tx = tx, sc_index = j,
    sc_amount = value_at (coin_at (cs_view c)) (prevout i)\<rparr>"
  let ?c1 = "c\<lparr>cs_view := v, cs_checks := cs_checks c @ [?sc]\<rparr>"
  have "collect_check calloc tx ji (c, s) = Some (Some (), ?c1, s)"
    using v(1) Cons.prems(3) ji out by (auto simp: collect_check_def step_simps value_at_def)
  then show ?case using Cons.IH [of ?c1] v(2) Cons.prems(2,3) ji by (auto simp: cbind_def)
qed

lemma update_runs:
  assumes "wf_cache (cs_view c)" "all_memory calloc" "spec_update (coin_at (cs_view c)) tx h = Some (f', us)" "outputs_ok tx"
  shows "\<exists>v. update_step sha256 skip calloc h tx (c, s) = Some (Some (), c\<lparr>cs_view := v, cs_undo := cs_undo c @ [us],
       cs_rebuilt := cs_rebuilt c @ [tx_hash tx]\<rparr>, s) \<and>
     wf_cache v \<and> coin_at v = f' \<and> loaded (cs_view c) \<subseteq> loaded v"
proof -
  obtain v where v: "update_coins_with_undo sha256 skip calloc tx (cs_view c) tx_undo_init h = Some (v, us, True)" "wf_cache v" "coin_at v = f'"
    using spec_update_runs [OF assms] by blast
  then show ?thesis using update_loaded [OF assms(1) v(1)] by (auto simp: update_step_def step_simps)
qed

lemma outputs_small:
  assumes "amounts_ok tx" "length (vout tx) \<le> 65536"
  shows "outputs_ok tx"
  using assms by (auto simp: outputs_ok_def amounts_ok_def total_in_range_def value_out_amounts_def list_all_iff)

text \<open>The checks of a transaction that spends, from the state after its own signature operations are counted.\<close>

lemma spending_checks_run:
  assumes wf: "wf_cache (cs_view c)" and mem: "all_memory calloc" and tx: "amounts_ok tx" "\<not> transaction_is_coinbase tx"
    and iv: "inputs_valid (coin_at (cs_view c)) h tx" and o2: "cs_sig_ops c + p2sh_ops (coin_at (cs_view c)) tx \<le> MAX_BLOCK_SIGOPS"
    and fees: "MoneyRange (cs_fees c)" "MoneyRange (cs_fees c + (tx_value_in (coin_at (cs_view c)) tx - sum_list (value_out_amounts tx)))"
  shows "\<exists>v. spending_checks calloc h ex tx (c, s) = Some (Some (), c\<lparr>cs_view := v, cs_sig_ops := cs_sig_ops c + p2sh_ops (coin_at (cs_view c)) tx,
       cs_fees := cs_fees c + (tx_value_in (coin_at (cs_view c)) tx - sum_list (value_out_amounts tx)),
       cs_checks := cs_checks c @ (if ex then tx_checks (length (cs_rebuilt c)) (coin_at (cs_view c)) tx else [])\<rparr>, s) \<and>
     same_view (cs_view c) v \<and> (op_hash \<circ> prevout) ` set (vin tx) \<subseteq> loaded v"
proof -
  let ?f = "coin_at (cs_view c)"
  let ?fees = "cs_fees c + (tx_value_in ?f tx - sum_list (value_out_amounts tx))"
  have tm: "table_memory calloc" using mem by (simp add: all_memory_def table_memory_def)
  have av: "\<forall>i \<in> set (vin tx). at_outpoint ?f (prevout i) \<noteq> None \<and> MoneyRange (value_at ?f (prevout i)) \<and> mature ?f h i"
    using iv by (simp add: inputs_valid_def list_all_iff)
  obtain v1 where v1: "ceach (maturity_check calloc h) (vin tx) (c, s) = Some (Some (), c\<lparr>cs_view := v1\<rparr>, s)" "same_view (cs_view c) v1"
    using maturity_runs [OF wf tm, of "vin tx" h s] av by blast
  obtain v2 where v2: "inputs_check calloc tx (c\<lparr>cs_view := v1\<rparr>, s) = Some (Some (), c\<lparr>cs_view := v2\<rparr>, s)" "same_view v1 v2"
      "(op_hash \<circ> prevout) ` set (vin tx) \<subseteq> loaded v2"
    using inputs_runs [of "c\<lparr>cs_view := v1\<rparr>" calloc tx s] v1(2) tm av tx(2) by auto
  obtain v3 n where v3: "get_p2sh_sig_op_count calloc (Some tx) block_flags v2 = Some (v3, n)" "ucast n = p2sh_ops ?f tx" "same_view v2 v3"
    using p2sh_runs [of v2 calloc tx] v2(2) v1(2) mem tx(2) by auto
  let ?c4 = "c\<lparr>cs_view := v3, cs_sig_ops := cs_sig_ops c + p2sh_ops ?f tx\<rparr>"
  have ops: "add_sig_ops n (c\<lparr>cs_view := v3\<rparr>, s) = Some (Some (), ?c4, s)"
    using add_sig_ops_runs [of "c\<lparr>cs_view := v3\<rparr>" n s] o2 v3(2) by simp
  have same: "same_view (cs_view c) v3" using v1(2) v2(2) v3(3) by auto
  obtain v5 where v5: "fee_check calloc tx (?c4, s) = Some (Some (), ?c4\<lparr>cs_view := v5, cs_fees := ?fees\<rparr>, s)" "same_view v3 v5"
    using fee_runs [of ?c4 calloc tx h s] same tm tx iv fees by auto
  let ?c5 = "?c4\<lparr>cs_view := v5, cs_fees := ?fees\<rparr>"
  let ?ch = "cs_checks c @ (if ex then tx_checks (length (cs_rebuilt c)) ?f tx else [])"
  obtain v6 where v6: "(if ex then ceach (collect_check calloc tx) (enumerate 0 (vin tx)) else cret ()) (?c5, s) =
      Some (Some (), ?c5\<lparr>cs_view := v6, cs_checks := ?ch\<rparr>, s)" "same_view v5 v6"
  proof (cases ex)
    case True
    have "\<forall>ji \<in> set (enumerate 0 (vin tx)). at_outpoint ?f (prevout (snd ji)) \<noteq> None \<and> MoneyRange (value_at ?f (prevout (snd ji)))"
      using av by (auto simp: in_set_enumerate_eq)
    then show ?thesis using collect_runs [of ?c5 calloc "enumerate 0 (vin tx)" tx s] v5(2) same tm True that by (auto simp: tx_checks_def)
  next
    case False
    then show ?thesis using that [of v5] v5(2) by (simp add: cret_def)
  qed
  have "spending_checks calloc h ex tx (c, s) = Some (Some (), ?c5\<lparr>cs_view := v6, cs_checks := ?ch\<rparr>, s)"
    using v1(1) v2(1) v3(1) ops v5(1) v6(1)
    by (simp add: spending_checks_def joinsplit_check_def coins_view_cache_have_joinsplit_requirements_def step_simps)
  moreover have "same_view (cs_view c) v6" using same v5(2) v6(2) by auto
  moreover have "loaded v2 \<subseteq> loaded v6" using v3(3) v5(2) v6(2) by auto
  ultimately show ?thesis using v2(3) by (intro exI [of _ v6]) auto
qed

lemma connect_tx_runs:
  assumes wf: "wf_cache (cs_view c)" and mem: "all_memory calloc" and tx: "amounts_ok tx" "length (vout tx) \<le> 65536"
    and fees: "MoneyRange (cs_fees c)"
    and sp: "spec_tx (coin_at (cs_view c)) h (cs_fees c) (cs_sig_ops c) tx = Some (f', fees', ops')"
  shows "\<exists>c'. connect_tx sha256 skip calloc h ex tx (c, s) = Some (Some (), c', s) \<and> wf_cache (cs_view c') \<and> coin_at (cs_view c') = f' \<and>
     cs_fees c' = fees' \<and> cs_sig_ops c' = ops' \<and> loaded (cs_view c) \<subseteq> loaded (cs_view c') \<and> MoneyRange fees' \<and>
     cs_checks c' = cs_checks c @ (if ex \<and> \<not> transaction_is_coinbase tx then tx_checks (length (cs_rebuilt c)) (coin_at (cs_view c)) tx else []) \<and>
     (\<not> transaction_is_coinbase tx \<longrightarrow> (op_hash \<circ> prevout) ` set (vin tx) \<subseteq> loaded (cs_view c')) \<and>
     cs_rebuilt c' = cs_rebuilt c @ [tx_hash tx] \<and> (\<exists>us. spec_update (coin_at (cs_view c)) tx h = Some (f', us))"
proof -
  let ?f = "coin_at (cs_view c)"
  let ?c0 = "c\<lparr>cs_sig_ops := cs_sig_ops c + legacy_ops tx\<rparr>"
  have ou: "outputs_ok tx" by (rule outputs_small [OF tx])
  have a: "add_sig_ops (get_legacy_sig_op_count (Some tx) block_flags) (c, s) = Some (Some (), ?c0, s)"
    using sp by (subst add_sig_ops_runs) (auto simp: spec_tx_def Let_def legacy_ops_def linorder_not_less split: if_splits)
  obtain us where us: "spec_update ?f tx h = Some (f', us)" using sp by (auto simp: spec_tx_def Let_def split: if_splits)
  show ?thesis
  proof (cases "transaction_is_coinbase tx")
    case True
    obtain v where "update_step sha256 skip calloc h tx (?c0, s) = Some (Some (), ?c0\<lparr>cs_view := v, cs_undo := cs_undo c @ [us],
          cs_rebuilt := cs_rebuilt c @ [tx_hash tx]\<rparr>, s)"
        "wf_cache v" "coin_at v = f'" "loaded (cs_view c) \<subseteq> loaded v"
      using update_runs [of ?c0 calloc tx h f' us sha256 skip s] wf mem us ou by auto
    then show ?thesis using True a sp fees us by (auto simp: connect_tx_def cbind_def cret_def spec_tx_def Let_def split: if_splits)
  next
    case False
    let ?fees = "cs_fees c + (tx_value_in ?f tx - sum_list (value_out_amounts tx))"
    have iv: "inputs_valid ?f h tx" and o2: "cs_sig_ops c + legacy_ops tx + p2sh_ops ?f tx \<le> MAX_BLOCK_SIGOPS"
        and r: "MoneyRange ?fees" "fees' = ?fees" "ops' = cs_sig_ops c + legacy_ops tx + p2sh_ops ?f tx"
      using sp False by (auto simp: spec_tx_def Let_def split: if_splits)
    obtain v where v: "spending_checks calloc h ex tx (?c0, s) = Some (Some (), c\<lparr>cs_view := v, cs_sig_ops := ops', cs_fees := fees',
        cs_checks := cs_checks c @ (if ex then tx_checks (length (cs_rebuilt c)) ?f tx else [])\<rparr>, s)" "same_view (cs_view c) v"
        "(op_hash \<circ> prevout) ` set (vin tx) \<subseteq> loaded v"
      using spending_checks_run [of ?c0 calloc tx h ex s] wf mem tx(1) False iv o2 fees r by (auto cong: if_cong)
    let ?c1 = "c\<lparr>cs_view := v, cs_sig_ops := ops', cs_fees := fees', cs_checks := cs_checks c @ (if ex then tx_checks (length (cs_rebuilt c)) ?f tx else [])\<rparr>"
    obtain v' where "update_step sha256 skip calloc h tx (?c1, s) = Some (Some (), ?c1\<lparr>cs_view := v', cs_undo := cs_undo c @ [us],
          cs_rebuilt := cs_rebuilt c @ [tx_hash tx]\<rparr>, s)"
        "wf_cache v'" "coin_at v' = f'" "loaded v \<subseteq> loaded v'"
      using update_runs [of ?c1 calloc tx h f' us sha256 skip s] mem us ou v(2) by auto
    then show ?thesis using False a v r us by (auto simp: connect_tx_def cbind_def)
  qed
qed

text \<open>A check that will pass: its pointer is good and reads the empty script.\<close>

definition check_passes :: "verifier \<Rightarrow> cstate \<Rightarrow> script_check \<Rightarrow> bool" where
  "check_passes verify c sc \<longleftrightarrow>
     op_hash (sc_script_pub_key sc) \<in> loaded (cs_view c) \<and> \<not> dangling (cs_rebuilt c) sc \<and>
     null_at (coin_at (cs_view c)) (sc_script_pub_key sc) \<and>
     verify (sc_script_sig sc) [] (sc_tx sc) (sc_index sc) (sc_amount sc)"

lemma run_checks_pass:
  assumes wf: "wf_cache (cs_view c)"
  shows "list_all (check_passes verify c) scs \<Longrightarrow> run_checks verify (cs_view c) (cs_rebuilt c) scs = Some True"
proof (induction scs)
  case (Cons sc scs)
  let ?k = "op_hash (sc_script_pub_key sc)"
  have p: "check_passes verify c sc" using Cons.prems by simp
  obtain sl where sl: "coins_map_find (cc_coins (cs_view c)) ?k = Some sl"
    using find_cases(2) [OF wf, of ?k] p by (cases "coins_map_find (cc_coins (cs_view c)) ?k") (auto simp: check_passes_def loaded_def)
  then have "script_at (cs_view c) (cs_rebuilt c) sc = Some []"
    using p holds_coin [OF wf find_cases(1) [OF wf sl]] by (simp add: script_at_def check_passes_def null_at_def tx_out_set_null_def)
  then show ?case using p Cons by (simp add: script_check_fn_def check_passes_def)
qed simp

text \<open>A check stays good while the block creates records under other txids.\<close>

lemma check_passes_update:
  assumes "check_passes verify c sc" "op_hash (sc_script_pub_key sc) \<noteq> tx_hash tx"
    and "spec_update (coin_at (cs_view c)) tx h = Some (coin_at (cs_view c'), us)" "loaded (cs_view c) \<subseteq> loaded (cs_view c')"
    and "cs_rebuilt c' = cs_rebuilt c @ [tx_hash tx]"
  shows "check_passes verify c' sc"
  using assms spec_update_places(1) [OF assms(3)]
  by (auto simp: check_passes_def dangling_def drop_append dest: in_set_dropD)

lemma new_checks_pass:
  assumes sp: "spec_update (coin_at (cs_view c)) tx h = Some (coin_at (cs_view c'), us)" and nc: "\<not> transaction_is_coinbase tx"
    and new: "unused (coin_at (cs_view c)) (tx_hash tx)" and l: "(op_hash \<circ> prevout) ` set (vin tx) \<subseteq> loaded (cs_view c')"
    and reb: "cs_rebuilt c' = cs_rebuilt c @ [tx_hash tx]" and pe: "pass_on_empty verify (coin_at (cs_view c)) tx"
    and sc: "sc \<in> set (tx_checks (length (cs_rebuilt c)) (coin_at (cs_view c)) tx)"
  shows "check_passes verify c' sc"
proof -
  obtain j where j: "j < length (vin tx)" "sc = \<lparr>sc_script_sig = script_sig (vin tx ! j), sc_script_pub_key = prevout (vin tx ! j),
      sc_taken = length (cs_rebuilt c), sc_tx = tx, sc_index = j, sc_amount = value_at (coin_at (cs_view c)) (prevout (vin tx ! j))\<rparr>"
    using sc by (auto simp: tx_checks_def in_set_enumerate_eq)
  then have i: "vin tx ! j \<in> set (vin tx)" by simp
  have "(j, vin tx ! j) \<in> set (enumerate 0 (vin tx))" using j(1) by (simp add: in_set_enumerate_eq)
  then have "verify (script_sig (vin tx ! j)) [] tx j (value_at (coin_at (cs_view c)) (prevout (vin tx ! j)))"
    using pe by (auto simp: pass_on_empty_def list_all_iff)
  moreover have "null_at (coin_at (cs_view c')) (prevout (vin tx ! j))" by (rule spec_update_places(5) [OF sp nc i new])
  moreover have "op_hash (prevout (vin tx ! j)) \<noteq> tx_hash tx" by (rule spec_update_places(6) [OF sp nc i new])
  moreover have "op_hash (prevout (vin tx ! j)) \<in> loaded (cs_view c')" using l i by auto
  ultimately show ?thesis using j(2) reb by (simp add: check_passes_def dangling_def)
qed

lemma connect_loop_runs:
  assumes "wf_cache (cs_view c)" and mem: "all_memory calloc" and "list_all (\<lambda>tx. amounts_ok tx \<and> length (vout tx) \<le> 65536) txs"
    and "MoneyRange (cs_fees c)" "spec_block verify ex (coin_at (cs_view c)) h (cs_fees c) (cs_sig_ops c) txs = Some (f', fees')"
    and "distinct (map tx_hash txs)" "\<forall>tx \<in> set txs. unused (coin_at (cs_view c)) (tx_hash tx)"
    and "list_all (check_passes verify c) (cs_checks c)" "\<forall>sc \<in> set (cs_checks c). op_hash (sc_script_pub_key sc) \<notin> tx_hash ` set txs"
  shows "\<exists>c'. ceach (connect_tx sha256 skip calloc h ex) txs (c, s) = Some (Some (), c', s) \<and> wf_cache (cs_view c') \<and>
     coin_at (cs_view c') = f' \<and> cs_fees c' = fees' \<and> MoneyRange fees' \<and> list_all (check_passes verify c') (cs_checks c')"
  using assms(1,3-)
proof (induction txs arbitrary: c)
  case Nil
  then show ?case by (simp add: cret_def)
next
  case (Cons tx txs)
  let ?f = "coin_at (cs_view c)"
  obtain f1 fees1 ops1 where sp: "spec_tx ?f h (cs_fees c) (cs_sig_ops c) tx = Some (f1, fees1, ops1)"
      and pe: "ex \<and> \<not> transaction_is_coinbase tx \<longrightarrow> pass_on_empty verify ?f tx"
      and r: "spec_block verify ex f1 h fees1 ops1 txs = Some (f', fees')"
    using Cons.prems(4) by (auto split: bind_splits if_splits)
  have ok: "amounts_ok tx" "length (vout tx) \<le> 65536" using Cons.prems(2) by simp_all
  obtain c1 us where c1: "connect_tx sha256 skip calloc h ex tx (c, s) = Some (Some (), c1, s)" "wf_cache (cs_view c1)" "coin_at (cs_view c1) = f1"
      "cs_fees c1 = fees1" "cs_sig_ops c1 = ops1" "loaded (cs_view c) \<subseteq> loaded (cs_view c1)" "MoneyRange fees1"
      "cs_checks c1 = cs_checks c @ (if ex \<and> \<not> transaction_is_coinbase tx then tx_checks (length (cs_rebuilt c)) ?f tx else [])"
      "\<not> transaction_is_coinbase tx \<longrightarrow> (op_hash \<circ> prevout) ` set (vin tx) \<subseteq> loaded (cs_view c1)"
      "cs_rebuilt c1 = cs_rebuilt c @ [tx_hash tx]" and up: "spec_update ?f tx h = Some (coin_at (cs_view c1), us)"
    using connect_tx_runs [OF Cons.prems(1) mem ok Cons.prems(3) sp] by blast
  note pl = spec_update_places [OF up]
  have "check_passes verify c1 sc \<and> op_hash (sc_script_pub_key sc) \<notin> tx_hash ` set txs" if "sc \<in> set (cs_checks c1)" for sc
  proof (cases "sc \<in> set (cs_checks c)")
    case True
    then show ?thesis
      using check_passes_update [OF _ _ up c1(6,10), of verify sc] Cons.prems(7,8) by (auto simp: list_all_iff)
  next
    case False
    then have nc: "ex" "\<not> transaction_is_coinbase tx" and sc: "sc \<in> set (tx_checks (length (cs_rebuilt c)) ?f tx)"
      using that c1(8) by (auto split: if_splits)
    obtain j where "j < length (vin tx)" "sc_script_pub_key sc = prevout (vin tx ! j)"
      using sc by (auto simp: tx_checks_def in_set_enumerate_eq)
    then have "op_hash (sc_script_pub_key sc) \<noteq> k" if "unused ?f k" for k using pl(6) [OF nc(2) nth_mem that] by simp
    then have "op_hash (sc_script_pub_key sc) \<notin> tx_hash ` set txs" using Cons.prems(6) by (metis imageE list.set_intros(2))
    then show ?thesis using new_checks_pass [OF up nc(2) _ _ c1(10) _ sc, of verify] c1(9) nc pe Cons.prems(6) by simp
  qed
  moreover have "unused (coin_at (cs_view c1)) (tx_hash t)" if "t \<in> set txs" for t
  proof -
    have "tx_hash t \<noteq> tx_hash tx" using Cons.prems(5) that by (simp, metis image_eqI)
    then show ?thesis using pl(4) [of "tx_hash t"] Cons.prems(6) that by (simp add: unused_def)
  qed
  ultimately obtain c2 where "ceach (connect_tx sha256 skip calloc h ex) txs (c1, s) = Some (Some (), c2, s)" "wf_cache (cs_view c2)"
      "coin_at (cs_view c2) = f'" "cs_fees c2 = fees'" "MoneyRange fees'" "list_all (check_passes verify c2) (cs_checks c2)"
    using Cons.IH [of c1] c1(2-5,7) r Cons.prems(2,5) by (auto simp: list_all_iff)
  then show ?case using c1(1) by (auto simp: cbind_def)
qed

lemma bip30_runs:
  assumes "wf_cache (cs_view c)" "table_memory calloc" "unused (coin_at (cs_view c)) (tx_hash tx)"
  shows "\<exists>v. bip30_check calloc h tx (c, s) = Some (Some (), c\<lparr>cs_view := v\<rparr>, s) \<and> same_view (cs_view c) v"
proof (cases "coins_view_cache_have_coins (cs_view c) (tx_hash tx)")
  case True
  then show ?thesis using get_coins_runs [OF assms(1,2), of "tx_hash tx"] assms(3) by (auto simp: bip30_check_def step_simps)
next
  case False
  then show ?thesis using assms(1) by (intro exI [of _ "cs_view c"]) (simp add: bip30_check_def step_simps)
qed

lemma bip30_each:
  "wf_cache (cs_view c) \<Longrightarrow> table_memory calloc \<Longrightarrow> \<forall>tx \<in> set txs. unused (coin_at (cs_view c)) (tx_hash tx) \<Longrightarrow>
   \<exists>v. ceach (bip30_check calloc h) txs (c, s) = Some (Some (), c\<lparr>cs_view := v\<rparr>, s) \<and> same_view (cs_view c) v"
proof (induction txs arbitrary: c)
  case Nil
  then show ?case by (intro exI [of _ "cs_view c"]) (simp add: cret_def)
next
  case (Cons tx txs)
  obtain v where v: "bip30_check calloc h tx (c, s) = Some (Some (), c\<lparr>cs_view := v\<rparr>, s)" "same_view (cs_view c) v"
    using bip30_runs [OF Cons.prems(1,2), of tx h s] Cons.prems(3) by auto
  obtain v' where "ceach (bip30_check calloc h) txs (c\<lparr>cs_view := v\<rparr>, s) = Some (Some (), c\<lparr>cs_view := v'\<rparr>, s)" "same_view v v'"
    using Cons.IH [of "c\<lparr>cs_view := v\<rparr>"] v(2) Cons.prems(2,3) by auto
  then show ?case using v by (auto simp: cbind_def)
qed

lemma alloc_runs: "all_memory calloc \<Longrightarrow> alloc_step calloc b \<sigma> = Some (Some (), \<sigma>)"
  by (simp add: alloc_step_def all_memory_def block_undo_alloc_def Let_def cret_def)

lemma reward_runs:
  assumes "get_block_subsidy h (Some params) = Some subsidy" "MoneyRange subsidy" "MoneyRange (cs_fees c)"
    and "transaction_get_value_out (vtx b ! 0) = Some v" "v \<le> cs_fees c + subsidy"
  shows "reward_check params h b (c, s) = Some (Some (), c, s)"
  using assms by (simp add: reward_check_def step_simps ck64_def is_int64_def MoneyRange_def)

text \<open>The conditions on the coins and on the block, once it has passed its own checks.\<close>

definition block_connects :: "verifier \<Rightarrow> consensus_params \<Rightarrow> bool \<Rightarrow> bool \<Rightarrow> int \<Rightarrow> block \<Rightarrow> utxo \<Rightarrow> utxo \<Rightarrow> bool" where
  "block_connects verify params expensive just_check h b f f' \<longleftrightarrow>
     distinct (map tx_hash (vtx b)) \<and> (\<forall>tx \<in> set (vtx b). unused f (tx_hash tx) \<and> length (vout tx) \<le> 65536) \<and>
     (\<exists>fees subsidy sapling_active. spec_block verify expensive f h 0 0 (vtx b) = Some (f', fees) \<and>
        consensus_network_upgrade_active params h UPGRADE_SAPLING = Some sapling_active \<and>
        (sapling_active \<and> \<not> just_check \<longrightarrow> hdr_hashFinalSaplingRoot (blk_header b) \<noteq> replicate 32 0) \<and>
        get_block_subsidy h (Some params) = Some subsidy \<and> MoneyRange subsidy \<and>
        sum_list (value_out_amounts (vtx b ! 0)) \<le> fees + subsidy)"

lemma connect_body_runs:
  assumes wf: "wf_cache (cs_view c)" and mem: "all_memory calloc" and am: "list_all amounts_ok (vtx b)" "vtx b \<noteq> []"
    and c0: "cs_fees c = 0" "cs_sig_ops c = 0" "cs_checks c = []"
    and v: "block_connects verify params ex just_check h b (coin_at (cs_view c)) f'"
  shows "\<exists>c'. connect_body sha256 skip calloc verify params deferred_below h ex just_check b (c, s) = Some (Some (), c', s) \<and>
     wf_cache (cs_view c') \<and> coin_at (cs_view c') = f'"
proof -
  obtain fees subsidy act where v: "spec_block verify ex (coin_at (cs_view c)) h 0 0 (vtx b) = Some (f', fees)" "distinct (map tx_hash (vtx b))"
      "consensus_network_upgrade_active params h UPGRADE_SAPLING = Some act"
      "act \<and> \<not> just_check \<longrightarrow> hdr_hashFinalSaplingRoot (blk_header b) \<noteq> replicate 32 0"
      "get_block_subsidy h (Some params) = Some subsidy" "MoneyRange subsidy" "sum_list (value_out_amounts (vtx b ! 0)) \<le> fees + subsidy"
      and un: "\<forall>tx \<in> set (vtx b). unused (coin_at (cs_view c)) (tx_hash tx) \<and> length (vout tx) \<le> 65536"
    using v unfolding block_connects_def by blast
  have tm: "table_memory calloc" using mem by (simp add: all_memory_def table_memory_def)
  obtain v1 where v1: "(if deferred_below \<ge> 0 \<and> h \<le> deferred_below then cret () else ceach (bip30_check calloc h) (vtx b)) (c, s) =
      Some (Some (), c\<lparr>cs_view := v1\<rparr>, s)" "same_view (cs_view c) v1"
    using bip30_each [OF wf tm, of "vtx b" h s] un wf that by (cases "deferred_below \<ge> 0 \<and> h \<le> deferred_below") (force simp: cret_def)+
  let ?c1 = "c\<lparr>cs_view := v1\<rparr>"
  have "list_all (\<lambda>tx. amounts_ok tx \<and> length (vout tx) \<le> 65536) (vtx b)" using am(1) un by (auto simp: list_all_iff)
  then obtain c2 where c2: "ceach (connect_tx sha256 skip calloc h ex) (vtx b) (?c1, s) = Some (Some (), c2, s)" "wf_cache (cs_view c2)"
      "coin_at (cs_view c2) = f'" "cs_fees c2 = fees" "MoneyRange fees" "list_all (check_passes verify c2) (cs_checks c2)"
    using connect_loop_runs [of ?c1 calloc "vtx b" verify ex h f' fees sha256 skip s] v1(2) mem c0 v(1,2) un by auto
  have "run_checks verify (cs_view c2) (cs_rebuilt c2) (cs_checks c2) = Some True" by (rule run_checks_pass [OF c2(2,6)])
  then have sc: "scripts_step verify (c2, s) = Some (Some (), c2, s)" by (simp add: scripts_step_def step_simps)
  have root: "(if just_check then cret () else sapling_root_check params h b) (c2, s) = Some (Some (), c2, s)"
    using v(3,4) by (auto simp: sapling_root_check_def step_simps)
  have "amounts_ok (vtx b ! 0)" using am by (simp add: list_all_length)
  then have "reward_check params h b (c2, s) = Some (Some (), c2, s)"
    using reward_runs [OF v(5,6), of c2 b _ s] c2(4,5) v(7) tx_balance(1) by simp
  then have "connect_body sha256 skip calloc verify params deferred_below h ex just_check b (c, s) = Some (Some (), c2, s)"
    using v1(1) c2(1) sc root alloc_runs [OF mem] by (simp add: connect_body_def cbind_def)
  then show ?thesis using c2(2,3) by blast
qed

lemma turnstile_state: "turnstile parent txs pindex s = Some (pindex', s', True) \<Longrightarrow> s' = s"
  by (auto simp: turnstile_def validation_state_dos_def Let_def split: option.splits bind_splits if_splits)

lemma connect_block_succeeds:
  assumes wf: "wf_cache view" and mem: "all_memory calloc"
    and cb: "check_block alloc calloc hash256 scheme now params (expensive_checks cpdata deferred_below nHeight) (\<not> just_check) True b s = Some (s, True)"
    and ng: "connected_hash alloc hash256 phashBlock b \<noteq> hashGenesisBlock (consensus params)"
    and best: "uint256_is_null (snd (coins_view_cache_get_best_block view)) \<or>
       snd (coins_view_cache_get_best_block view) = hdr_hashPrevBlock (blk_header b)"
    and tu: "turnstile parent (vtx b) pindex s = Some (pindex', s, True)"
    and v: "block_connects (verify (consensus_current_epoch_branch_id nHeight (consensus params))) (consensus params)
       (expensive_checks cpdata deferred_below nHeight) just_check nHeight b (coin_at view) f'"
  shows "\<exists>view'. connect_block alloc calloc hash256 sha256 skip scheme verify now params cpdata deferred_below
       phashBlock nHeight parent just_check b s pindex view = Some (s, pindex', view', True) \<and> wf_cache view' \<and> coin_at view' = f'"
proof -
  have am: "list_all amounts_ok (vtx b)" "vtx b \<noteq> []"
    using cb structural_amounts
    by (auto simp: check_block_accept domain_consensus_check_block_size_and_coinbase_def accept list_all_iff)
  let ?v1 = "fst (coins_view_cache_get_best_block view)"
  have sv: "same_view view ?v1" using readsD [OF best_block_reads wf] by (metis prod.collapse)
  have v': "block_connects (verify (consensus_current_epoch_branch_id nHeight (consensus params))) (consensus params)
       (expensive_checks cpdata deferred_below nHeight) just_check nHeight b (coin_at (cs_view (cstart ?v1))) f'"
    using v sv by (simp add: cstart_def)
  have pb: "prevblock_check b (cstart view, s) = Some (Some (), cstart ?v1, s)"
    using best by (auto simp: prevblock_check_def step_simps cstart_def split: prod.splits)
  obtain c' where c': "connect_body sha256 skip calloc (verify (consensus_current_epoch_branch_id nHeight (consensus params))) (consensus params)
       deferred_below nHeight (expensive_checks cpdata deferred_below nHeight) just_check b (cstart ?v1, s) = Some (Some (), c', s)"
      "wf_cache (cs_view c')" "coin_at (cs_view c') = f'"
    using connect_body_runs [of "cstart ?v1", OF _ mem am _ _ _ v', of sha256 skip deferred_below s] sv by (auto simp: cstart_def)
  have "wf_cache (coins_view_cache_set_best_block w h) = wf_cache w" "coin_at (coins_view_cache_set_best_block w h) = coin_at w" for w h
    by (simp_all add: coins_view_cache_set_best_block_def coin_at_best_block wf_cache_def)
  then show ?thesis using cb ng pb tu c' by (simp add: connect_block_def Let_def)
qed

section \<open>Maturity, scripts and the turnstile\<close>

lemma spends_mature:
  "spec_connect f txs h = Some (f', uss) \<Longrightarrow> inputs_mature f h txs \<Longrightarrow> tx \<in> set txs \<Longrightarrow> \<not> transaction_is_coinbase tx \<Longrightarrow>
   i \<in> set (vin tx) \<Longrightarrow> op_hash (prevout i) \<notin> tx_hash ` set txs \<Longrightarrow> mature f h i"
proof (induction txs arbitrary: f uss)
  case (Cons t txs)
  obtain f1 us uss1 where s: "spec_update f t h = Some (f1, us)" "spec_connect f1 txs h = Some (f', uss1)"
    using Cons.prems(1) by (auto split: bind_splits)
  show ?case
  proof (cases "tx = t")
    case True
    then show ?thesis using Cons.prems by simp
  next
    case False
    then have "mature f1 h i" using Cons.IH [OF s(2)] Cons.prems s(1) by simp
    then show ?thesis using spec_update_places(2) [OF s(1), of "op_hash (prevout i)"] Cons.prems(6) by (simp add: mature_def)
  qed
qed simp

lemma first_not_spent:
  assumes "spec_connect f txs h = Some (f', uss)" "inputs_mature f h txs" "distinct (map tx_hash txs)"
    and "txs \<noteq> []" "transaction_is_coinbase (txs ! 0)" "tx \<in> set txs" "\<not> transaction_is_coinbase tx" "i \<in> set (vin tx)"
  shows "op_hash (prevout i) \<noteq> tx_hash (txs ! 0)"
proof
  assume k: "op_hash (prevout i) = tx_hash (txs ! 0)"
  obtain t ts where t: "txs = t # ts" using assms(4) by (cases txs) auto
  obtain f1 us uss1 where s: "spec_update f t h = Some (f1, us)" "spec_connect f1 ts h = Some (f', uss1)"
    using assms(1) t by (auto split: bind_splits)
  have "tx \<in> set ts" using assms(5-7) t by auto
  then have "mature f1 h i" using spends_mature [OF s(2) _ _ assms(7,8)] assms(2,3) k s(1) t by simp
  then show False using spec_update_places(3) [OF s(1)] assms(5) k t by (simp add: mature_def)
qed

lemma run_checks_null:
  assumes wf: "wf_cache v" and ok: "run_checks verify v rebuilt scs = Some True" and sc: "sc \<in> set scs"
    and null: "null_at (coin_at v) (sc_script_pub_key sc)"
  shows "verify (sc_script_sig sc) [] (sc_tx sc) (sc_index sc) (sc_amount sc)"
proof -
  have "script_check_fn verify v rebuilt sc = Some True" using ok sc by (induction scs) (auto split: bind_splits if_splits)
  then obtain spk where spk: "script_at v rebuilt sc = Some spk" "verify (sc_script_sig sc) spk (sc_tx sc) (sc_index sc) (sc_amount sc)"
    by (auto simp: script_check_fn_def)
  then obtain sl where sl: "coins_map_find (cc_coins v) (op_hash (sc_script_pub_key sc)) = Some sl"
    by (auto simp: script_at_def split: bind_splits if_splits)
  then have "spk = []" using spk(1) null holds_coin [OF wf find_cases(1) [OF wf sl]]
    by (simp add: script_at_def null_at_def tx_out_set_null_def split: if_splits)
  then show ?thesis using spk(2) by simp
qed

text \<open>The records of the shielded pools that connecting blocks gives rise to.\<close>

inductive pool_record :: "pool_values \<Rightarrow> bool" where
  blank: "pool_record pool_values_init"
| connected: "pool_record pindex \<Longrightarrow> \<forall>p \<in> set_option parent. pool_record p \<Longrightarrow>
    connect_block alloc calloc hash256 sha256 skip scheme verify now params cpdata deferred_below
      phashBlock nHeight parent just_check b s pindex view = Some (s', pindex', view', ok) \<Longrightarrow> pool_record pindex'"

lemma turnstile_flags:
  assumes "turnstile parent txs pindex s = Some (p, s', ok)" "\<not> has_chain_sprout_value pindex \<and> \<not> has_chain_sapling_value pindex"
    and "\<forall>q \<in> set_option parent. \<not> has_chain_sprout_value q \<and> \<not> has_chain_sapling_value q"
  shows "\<not> has_chain_sprout_value p \<and> \<not> has_chain_sapling_value p"
  using assms by (auto simp: turnstile_def Let_def split: option.splits bind_splits)

lemma connect_block_record:
  assumes "connect_block alloc calloc hash256 sha256 skip scheme verify now params cpdata deferred_below
      phashBlock nHeight parent just_check b s pindex view = Some (s', pindex', view', ok)"
  shows "pindex' = pindex \<or> (\<exists>s2 s3 ok'. turnstile parent (vtx b) pindex s2 = Some (pindex', s3, ok'))"
  using assms by (auto simp: connect_block_def Let_def split: bind_splits if_splits)

lemma pool_record_blank: "pool_record p \<Longrightarrow> \<not> has_chain_sprout_value p \<and> \<not> has_chain_sapling_value p"
proof (induction rule: pool_record.induct)
  case blank
  then show ?case by (simp add: pool_values_init_def)
next
  case (connected pindex parent alloc calloc hash256 sha256 skip scheme verify now params cpdata deferred_below phashBlock nHeight just_check b s view s' pindex' view' ok)
  then show ?case using connect_block_record [OF connected.hyps(2)] turnstile_flags by blast
qed

lemma map_option_bind: "map_option f (Option.bind m g) = Option.bind m (\<lambda>x. map_option f (g x))"
  by (cases m) simp_all

lemma turnstile_blank:
  assumes "\<not> has_chain_sprout_value prev" "\<not> has_chain_sapling_value prev"
    and "add_all64 0 (sprout_amounts txs) \<noteq> None" "add_all64 0 (map value_balance txs) \<noteq> None"
  shows "\<exists>p. \<forall>s. turnstile (Some prev) txs pindex s = Some (p, s, True)"
  using assms by (auto simp: turnstile_def Let_def)

section \<open>Properties\<close>

text \<open>
  C2: no inflation. When \<^verbatim>\<open>connect_block\<close> accepts a block that is not the genesis block, the value of all
  unspent outputs plus what the block moved into the shielded pools grows by at most the subsidy of
  its height. Fees, coinbases, overwritten outputs and transfers to and from the pools included,
  nothing else creates value, and every unspent output stays in the money range.
\<close>

theorem connect_block_no_inflation:
  assumes "wf_cache view" "money_ok (coin_at view)"
    and "connect_block alloc calloc hash256 sha256 skip scheme verify now params cpdata deferred_below
       phashBlock nHeight parent just_check b s pindex view = Some (s', pindex', view', True)"
    and "connected_hash alloc hash256 phashBlock b \<noteq> hashGenesisBlock (consensus params)"
  shows "\<exists>subsidy. get_block_subsidy nHeight (Some (consensus params)) = Some subsidy \<and> wf_cache view' \<and> money_ok (coin_at view') \<and>
     money_supply (coin_at view') + shielded_flow (vtx b) \<le> money_supply (coin_at view) + subsidy"
  using assms by (rule connect_block_conserves)


text \<open>
  C6: coinbase maturity. In an accepted block with different txids, no input spends the coinbase of
  the block itself, and an input that spends an output of an earlier coinbase does so at least 100
  blocks later. The table of the cache must be able to grow: the check is skipped for a record that
  cannot be loaded.
\<close>

theorem connected_spends_are_mature:
  assumes "wf_cache view" "table_memory calloc"
    and "connect_block alloc calloc hash256 sha256 skip scheme verify now params cpdata deferred_below
       phashBlock nHeight parent just_check b s pindex view = Some (s', pindex', view', True)"
    and "connected_hash alloc hash256 phashBlock b \<noteq> hashGenesisBlock (consensus params)"
    and "distinct (map tx_hash (vtx b))" "tx \<in> set (vtx b)" "\<not> transaction_is_coinbase tx" "i \<in> set (vin tx)"
  shows "op_hash (prevout i) \<noteq> tx_hash (vtx b ! 0) \<and>
     (op_hash (prevout i) \<notin> tx_hash ` set (vtx b) \<and> c_is_coinbase (coin_at view (op_hash (prevout i))) \<longrightarrow>
       c_height (coin_at view (op_hash (prevout i))) + 100 \<le> nHeight)"
proof -
  obtain uss where r: "spec_connect (coin_at view) (vtx b) nHeight = Some (coin_at view', uss)"
    using connect_block_run(2) [OF assms(1,3,4)] by blast
  have m: "inputs_mature (coin_at view) nHeight (vtx b)" by (rule connect_block_run(4) [OF assms(1,3,4,2)])
  obtain s1 where "check_block alloc calloc hash256 scheme now params (expensive_checks cpdata deferred_below nHeight) (\<not> just_check) True b s = Some (s1, True)"
    using connect_block_run(1) [OF assms(1,3,4)] by blast
  then have "vtx b \<noteq> []" "transaction_is_coinbase (vtx b ! 0)"
    by (auto simp: check_block_accept domain_consensus_check_block_size_and_coinbase_def accept)
  then show ?thesis using spends_mature [OF r m assms(6-8)] first_not_spent [OF r m assms(5)] assms(6-8) by (auto simp: mature_def tag_at_def)
qed

text \<open>
  C8: what the script checks read. In an accepted block above the checkpoints and the height of
  deferred validation, with new and different txids, each input was verified against an empty script in place of the script of the output it
  spends: the checks run after the UTXO update has set that output to null.
\<close>

theorem script_checks_read_empty_scripts:
  assumes "wf_cache view"
    and "connect_block alloc calloc hash256 sha256 skip scheme verify now params cpdata deferred_below
       phashBlock nHeight parent just_check b s pindex view = Some (s', pindex', view', True)"
    and "connected_hash alloc hash256 phashBlock b \<noteq> hashGenesisBlock (consensus params)"
    and "expensive_checks cpdata deferred_below nHeight"
    and "distinct (map tx_hash (vtx b))" "\<forall>tx \<in> set (vtx b). unused (coin_at view) (tx_hash tx)"
    and "tx \<in> set (vtx b)" "\<not> transaction_is_coinbase tx" "j < length (vin tx)"
  shows "\<exists>amount. verify (consensus_current_epoch_branch_id nHeight (consensus params)) (script_sig (vin tx ! j)) [] tx j amount"
proof -
  obtain uss where r: "spec_connect (coin_at view) (vtx b) nHeight = Some (coin_at view', uss)"
    using connect_block_run(2) [OF assms(1-3)] by blast
  obtain cm where cm: "coin_at (cs_view cm) = coin_at view'" "wf_cache (cs_view cm)"
      "run_checks (verify (consensus_current_epoch_branch_id nHeight (consensus params))) (cs_view cm) (cs_rebuilt cm) (cs_checks cm) = Some True"
      "inputs_checked cm (vtx b)"
    using connect_block_run(3) [OF assms(1-3)] assms(4) by blast
  have "(j, vin tx ! j) \<in> set (enumerate 0 (vin tx))" using assms(9) by (simp add: in_set_enumerate_eq)
  then obtain n amount where sc: "\<lparr>sc_script_sig = script_sig (vin tx ! j), sc_script_pub_key = prevout (vin tx ! j), sc_taken = n, sc_tx = tx,
      sc_index = j, sc_amount = amount\<rparr> \<in> set (cs_checks cm)"
    using cm(4) assms(7,8) by (force simp: inputs_checked_def checked_def)
  have "null_at (coin_at (cs_view cm)) (prevout (vin tx ! j))"
    using spec_connect_nulls [OF r assms(5,6)] assms(7-9) cm(1) by simp
  then show ?thesis using run_checks_null [OF cm(2,3) sc] by auto
qed

text \<open>
  C38: the turnstile is never enforced. The record of the shielded pools of a block index entry starts
  blank and \<^verbatim>\<open>connect_block\<close> is what writes it. Whatever blocks have been connected before, in
  whatever order and with whatever outcome, no entry ever carries the value of a pool, and
  \<^verbatim>\<open>connect_block\<close> gives the same verdict, validation state and coins as for a block whose entry has no
  parent, for which the ZIP-209 check is skipped. The pool flows of the block must fit in 64 bits.
\<close>

theorem turnstile_never_enforced:
  assumes "pool_record parent" "add_all64 0 (sprout_amounts (vtx b)) \<noteq> None" "add_all64 0 (map value_balance (vtx b)) \<noteq> None"
  shows "\<not> has_chain_sprout_value parent \<and> \<not> has_chain_sapling_value parent \<and>
     map_option (\<lambda>(s', _, view', ok). (s', view', ok)) (connect_block alloc calloc hash256 sha256 skip scheme verify now params cpdata
       deferred_below phashBlock nHeight (Some parent) just_check b s pindex view) =
     map_option (\<lambda>(s', _, view', ok). (s', view', ok)) (connect_block alloc calloc hash256 sha256 skip scheme verify now params cpdata
       deferred_below phashBlock nHeight None just_check b s pindex view)"
proof -
  have np: "\<not> has_chain_sprout_value parent" "\<not> has_chain_sapling_value parent" using pool_record_blank [OF assms(1)] by simp_all
  obtain p where "\<And>s. turnstile (Some parent) (vtx b) pindex s = Some (p, s, True)" using turnstile_blank [OF np assms(2,3)] by blast
  moreover have "turnstile None (vtx b) pindex s = Some (pindex, s, True)" for s by (simp add: turnstile_def)
  ultimately show ?thesis using np by (simp add: connect_block_def Let_def split_beta map_option_bind if_distrib [of "map_option _"] cong: if_cong)
qed

subsection \<open>On a concrete block\<close>

text \<open>A block of height 9 on the sample cache: a coinbase and the transaction that spends the 50 units there.\<close>

definition zero_hash :: hashfun where
  "zero_hash m = replicate 32 0"

definition paying_coinbase :: transaction where
  "paying_coinbase = sample_coinbase\<lparr>vin := [tx_in_init\<lparr>script_sig := [0x51, 0x51]\<rparr>]\<rparr>"

definition spending_block :: block where
  "spending_block = \<lparr>blk_header = block_header_init\<lparr>hdr_nBits := 0x03000001\<rparr>, vtx = [paying_coinbase, sample_spend]\<rparr>"

definition empty_only :: "u32 \<Rightarrow> verifier" where
  "empty_only branch_id sig spk tx n amount \<longleftrightarrow> spk = []"

abbreviation connect_sample where
  "connect_sample \<equiv> connect_block (\<lambda>_. True) (\<lambda>_ _. True) zero_hash zero_hash False (Some (\<lambda>_ _. True)) empty_only 0 mainParams [] (- 1)
     (Some (replicate 32 9)) 9 None False spending_block validation_state_init pool_values_init sample_cache"

lemma sample_txs_wf: "wf_fields paying_coinbase" "wf_fields sample_spend"
  by (simp_all add: paying_coinbase_def sample_coinbase_def sample_spend_def wf_fields_def wf_version_def wf_sapling_def wf_joinsplits_def
      transaction_init_def tx_in_init_def wf_tx_in_def wf_tx_out_def wf_outpoint_def wf_script_def outpoint_set_null_def is_int64_def)

lemma sample_txs_coinbase: "transaction_is_coinbase paying_coinbase" "\<not> transaction_is_coinbase sample_spend"
  by (simp_all add: paying_coinbase_def sample_coinbase_def sample_spend_def transaction_is_coinbase_def tx_in_init_def
      outpoint_set_null_def outpoint_is_null_def uint256_is_null_def list_all_iff)

lemma sample_txs_amounts: "amounts_ok paying_coinbase" "amounts_ok sample_spend"
  by (simp_all add: paying_coinbase_def sample_coinbase_def sample_spend_def transaction_init_def amounts_ok_def total_in_range_def
      value_out_amounts_def value_in_amounts_def MoneyRange_def)

lemma sample_txs_size: "transaction_serialize_size (\<lambda>_. True) paying_coinbase \<le> 100000" "transaction_serialize_size (\<lambda>_. True) sample_spend \<le> 100000"
  unfolding serialize_size_enc [OF sample_txs_wf(1)] serialize_size_enc [OF sample_txs_wf(2)]
  by (simp_all add: paying_coinbase_def sample_coinbase_def sample_spend_def transaction_init_def enc_transaction_def Let_def enc_vec_def
      enc_when_def enc_tx_in_def enc_tx_out_def enc_outpoint_def enc_script_def length_enc_compact_size compact_size_sizeof_def
      tx_in_init_def outpoint_set_null_def)

lemma sample_txs_valid:
  "domain_consensus_check_transaction_structural (\<lambda>_. True) (Some paying_coinbase) = Some (Inr ())"
  "domain_consensus_check_transaction_structural (\<lambda>_. True) (Some sample_spend) = Some (Inr ())"
proof -
  have "structurally_valid (\<lambda>_. True) paying_coinbase" "structurally_valid (\<lambda>_. True) sample_spend"
    using sample_txs_size sample_txs_amounts sample_txs_coinbase unfolding structurally_valid_def
    by (simp_all add: paying_coinbase_def sample_coinbase_def sample_spend_def transaction_init_def tx_in_init_def outpoint_is_null_def uint256_is_null_def)
  then show "domain_consensus_check_transaction_structural (\<lambda>_. True) (Some paying_coinbase) = Some (Inr ())"
    "domain_consensus_check_transaction_structural (\<lambda>_. True) (Some sample_spend) = Some (Inr ())"
    by (simp_all add: structural_accept wf_fields_ids sample_txs_wf)
qed

lemma easy_header:
  assumes "hdr_nBits h = 0x03000001" "hdr_nVersion h = 4" "hdr_nTime h = 0"
  shows "check_block_header (\<lambda>_. True) zero_hash (Some (\<lambda>_ _. True)) 0 mainParams True h validation_state_init = Some (validation_state_init, True)"
proof -
  have v: "compact_value 0x03000001 = 1" by (simp add: compact_value_def compact_word_def compact_size_byte_def compact_mantissa_def)
  have "words_val (powLimit (consensus mainParams)) \<noteq> 0"
    by (simp add: words_val_eq_0_iff mainParams_def uint256_of_nat_def) (rule bexI [of _ 0], simp_all)
  moreover have "compact_valid 0x03000001" by (simp add: compact_valid_def v compact_negative_def compact_word_def)
  ultimately have "domain_consensus_verify_pow_solution (Some (replicate 32 0)) 0x03000001 (Some (consensus mainParams)) = Inr ()"
    by (subst verify_pow_iff) (simp_all add: v, simp add: mainParams_def)
  then have "CheckProofOfWork (replicate 32 0) 0x03000001 (Some (consensus mainParams))" by (simp add: CheckProofOfWork_def)
  moreover have "block_header_get_hash (\<lambda>_. True) zero_hash h = replicate 32 0" for h by (simp add: block_header_get_hash_def zero_hash_def)
  ultimately show ?thesis using assms
    by (simp add: check_block_header_def check_block_header_impl_def vaccept check_equihash_solution_via_registry_def
        block_header_get_time_def ck64_def is_int64_def)
qed

lemma spending_block_checked:
  "check_block (\<lambda>_. True) (\<lambda>_ _. True) zero_hash (Some (\<lambda>_ _. True)) 0 mainParams True True True spending_block validation_state_init =
     Some (validation_state_init, True)"
proof -
  have ids: "tx_hash paying_coinbase = replicate 32 2" "tx_hash sample_spend = replicate 32 3"
    by (simp_all add: paying_coinbase_def sample_coinbase_def sample_spend_def)
  have "compute_merkle_root_mutated zero_hash (\<lambda>_. True) [replicate 32 2, replicate 32 3] = (replicate 32 0, False)"
    using sample_txids(3) by (simp add: compute_merkle_root_mutated_def zero_hash_def merkle_hash_pair_def merkle_levels.simps merkle_level_loop.simps)
  then have "domain_consensus_check_block_merkle_root zero_hash (\<lambda>_. True) (\<lambda>_ _. True) (Some spending_block) = Some (Inr ())"
    by (simp add: domain_consensus_check_block_merkle_root_def spending_block_def ids accept block_header_init_def)
  moreover have "block_sig_ops (vtx spending_block) = 0"
    by (simp add: block_sig_ops_def spending_block_def get_legacy_sig_op_count_def domain_consensus_tx_legacy_sig_op_count_def
        sample_spend_def paying_coinbase_def sample_coinbase_def tx_in_init_def script_get_sig_op_count_def sig_op_loop.simps script_get_op_def sig_ops_of_def)
  moreover have "check_block_header (\<lambda>_. True) zero_hash (Some (\<lambda>_ _. True)) 0 mainParams True (blk_header spending_block) validation_state_init =
      Some (validation_state_init, True)"
    by (rule easy_header) (simp_all add: spending_block_def block_header_init_def)
  ultimately show ?thesis using sample_txs_valid sample_txs_coinbase
    by (simp add: check_block_accept domain_consensus_check_block_size_and_coinbase_def domain_consensus_check_block_sigops_def accept)
      (simp add: spending_block_def)
qed

lemma spending_block_applies:
  "\<exists>f'. spec_block (empty_only n) True (coin_at sample_cache) 9 0 0 (vtx spending_block) = Some (f', 1)"
proof -
  let ?f = "coin_at sample_cache" and ?k1 = "replicate 32 1 :: bytes" and ?k2 = "replicate 32 2 :: bytes" and ?k3 = "replicate 32 3 :: bytes"
  let ?f1 = "?f(?k2 := tx_coins paying_coinbase 9)"
  let ?f2 = "?f1(?k1 := spent (?f ?k1) 0)"
  let ?f3 = "?f2(?k3 := tx_coins sample_spend 9)"
  let ?op = "\<lparr>op_hash = ?k1, op_n = 0\<rparr>"
  have ids: "tx_hash paying_coinbase = ?k2" "tx_hash sample_spend = ?k3" "vin sample_spend = [tx_in_init\<lparr>prevout := ?op\<rparr>]"
    by (simp_all add: paying_coinbase_def sample_coinbase_def sample_spend_def)
  have f1: "?f1 ?k1 = \<lparr>c_is_coinbase = False, c_vout = [\<lparr>out_value = 50, script_pub_key = [0x51]\<rparr>], c_height = 7, c_version = 1\<rparr>"
    using sample_txids by (simp add: sample_coins)
  have at: "at_outpoint ?f1 ?op = Some \<lparr>out_value = 50, script_pub_key = [0x51]\<rparr>"
    using f1 by (simp add: at_outpoint_def avail_def tx_out_is_null_def)
  have ops: "legacy_ops paying_coinbase = 0" "legacy_ops sample_spend = 0" "p2sh_ops ?f1 sample_spend = 0"
    using sample_txs_coinbase(2)
    by (simp_all add: legacy_ops_def p2sh_ops_def domain_consensus_tx_p2sh_sig_op_count_def ids at script_is_pay_to_script_hash_def script_is_p2sh_def)
      (simp_all add: get_legacy_sig_op_count_def domain_consensus_tx_legacy_sig_op_count_def sample_spend_def paying_coinbase_def sample_coinbase_def
        tx_in_init_def script_get_sig_op_count_def sig_op_loop.simps script_get_op_def sig_ops_of_def)
  have up: "spec_update ?f paying_coinbase 9 = Some (?f1, [])" "\<exists>us. spec_update ?f1 sample_spend 9 = Some (?f3, us)"
    using sample_txs_coinbase at f1 by (simp_all add: spec_update_def ids spec_spend_def at_outpoint_def MoneyRange_def)
  have iv: "inputs_valid ?f1 9 sample_spend" "tx_value_in ?f1 sample_spend = 50" "sum_list (value_out_amounts sample_spend) = 49"
    using at f1 by (simp_all add: inputs_valid_def tx_value_in_def ids value_at_def mature_def tag_at_def MoneyRange_def)
      (simp_all add: sample_spend_def transaction_init_def shielded_in_def value_out_amounts_def MoneyRange_def)
  have "pass_on_empty (empty_only n) ?f1 sample_spend" by (auto simp: pass_on_empty_def empty_only_def list_all_iff)
  then have "spec_block (empty_only n) True ?f 9 0 0 (vtx spending_block) = Some (?f3, 1)"
    using up iv ops sample_txs_coinbase by (auto simp: spending_block_def spec_tx_def Let_def MoneyRange_def)
  then show ?thesis by blast
qed

lemma spending_block_connects:
  "\<exists>f'. block_connects (empty_only n) (consensus mainParams) True False 9 spending_block (coin_at sample_cache) f'"
proof -
  obtain f' where f': "spec_block (empty_only n) True (coin_at sample_cache) 9 0 0 (vtx spending_block) = Some (f', 1)"
    using spending_block_applies by blast
  have d: "distinct (map tx_hash (vtx spending_block))"
    using sample_txids by (simp add: spending_block_def paying_coinbase_def sample_coinbase_def sample_spend_def)
  have "unused (coin_at sample_cache) (tx_hash tx) \<and> length (vout tx) \<le> 65536" if "tx \<in> set (vtx spending_block)" for tx
    using that sample_txids by (auto simp: spending_block_def paying_coinbase_def sample_coinbase_def sample_spend_def unused_def sample_coins)
  moreover have "consensus_network_upgrade_active (consensus mainParams) 9 UPGRADE_SAPLING = Some False" by (simp add: consensus_network_upgrade_active_def consensus_upgrade_state_def domain_consensus_upgrade_state_def
        dcu_idx_valid_def mainParams_def activation_height_def upgrade_rows_def)
  moreover obtain sub where "get_block_subsidy 9 (Some (consensus mainParams)) = Some sub" "MoneyRange sub" "9 \<le> sub"
    using main_reward [of 9] by (auto simp: MoneyRange_def)
  moreover have "sum_list (value_out_amounts (vtx spending_block ! 0)) = 10"
    by (simp add: spending_block_def paying_coinbase_def sample_coinbase_def transaction_init_def value_out_amounts_def)
  ultimately show ?thesis using f' d unfolding block_connects_def by (intro exI conjI) auto
qed

lemma sample_not_genesis:
  "connected_hash (\<lambda>_. True) zero_hash (Some (replicate 32 9)) spending_block \<noteq> hashGenesisBlock (consensus mainParams)"
proof
  assume "connected_hash (\<lambda>_. True) zero_hash (Some (replicate 32 9)) spending_block = hashGenesisBlock (consensus mainParams)"
  then have "replicate 32 9 ! 0 = hashGenesisBlock (consensus mainParams) ! 0" by (simp add: connected_hash_def)
  then show False by (simp add: mainParams_def uint256_of_nat_def)
qed

lemma sample_best: "uint256_is_null (snd (coins_view_cache_get_best_block sample_cache))"
  by (simp add: coins_view_cache_get_best_block_def sample_cache_def Let_def uint256_is_null_def list_all_iff coins_view_get_best_block_def)

lemma sample_turnstile: "turnstile None (vtx spending_block) pool_values_init validation_state_init = Some (pool_values_init, validation_state_init, True)"
  by (simp add: turnstile_def)

lemma sample_money: "money_ok (coin_at sample_cache)"
proof -
  have "at_outpoint (coin_at sample_cache) op = (if op = \<lparr>op_hash = replicate 32 1, op_n = 0\<rparr> then Some \<lparr>out_value = 50, script_pub_key = [0x51]\<rparr> else None)" for op
    by (cases "op_hash op = replicate 32 1") (auto simp: at_outpoint_def sample_coins avail_def tx_out_is_null_def coins_init_def unat_eq_0 intro!: outpoint.equality)
  then show ?thesis by (auto simp: money_ok_def live_def MoneyRange_def split: if_splits)
qed

lemma spending_block_accepted: "\<exists>view'. connect_sample = Some (validation_state_init, pool_values_init, view', True)"
proof -
  obtain f' where f': "block_connects (empty_only (consensus_current_epoch_branch_id 9 (consensus mainParams))) (consensus mainParams) True False 9
      spending_block (coin_at sample_cache) f'"
    using spending_block_connects by blast
  have "expensive_checks [] (- 1) 9" by (simp add: expensive_checks_def checkpoint_covers_def)
  then show ?thesis
    using connect_block_succeeds [OF sample_wf _ _ sample_not_genesis _ sample_turnstile, of "\<lambda>_ _. True" "Some (\<lambda>_ _. True)" 0 "[]" "- 1" 9 False empty_only f' zero_hash False]
      spending_block_checked f' sample_best by (auto simp: all_memory_def)
qed

theorem connect_block_no_inflation_witness:
  "\<exists>view' subsidy. connect_sample = Some (validation_state_init, pool_values_init, view', True) \<and>
     get_block_subsidy 9 (Some (consensus mainParams)) = Some subsidy \<and>
     money_supply (coin_at view') + shielded_flow (vtx spending_block) \<le> money_supply (coin_at sample_cache) + subsidy"
proof -
  obtain view' where v: "connect_sample = Some (validation_state_init, pool_values_init, view', True)"
    using spending_block_accepted by blast
  show ?thesis using connect_block_no_inflation [OF sample_wf sample_money v sample_not_genesis] v by blast
qed


lemma sample_ids: "distinct (map tx_hash (vtx spending_block))" "\<forall>tx \<in> set (vtx spending_block). unused (coin_at sample_cache) (tx_hash tx)"
    "sample_spend \<in> set (vtx spending_block)" "vin sample_spend = [tx_in_init\<lparr>prevout := \<lparr>op_hash = replicate 32 1, op_n = 0\<rparr>\<rparr>]"
  using sample_txids by (auto simp: spending_block_def paying_coinbase_def sample_coinbase_def sample_spend_def unused_def sample_coins)

theorem connected_spends_are_mature_witness:
  "\<exists>view'. connect_sample = Some (validation_state_init, pool_values_init, view', True) \<and>
     op_hash (prevout (hd (vin sample_spend))) \<noteq> tx_hash (vtx spending_block ! 0)"
proof -
  obtain view' where v: "connect_sample = Some (validation_state_init, pool_values_init, view', True)"
    using spending_block_accepted by blast
  have "table_memory (\<lambda>_ _. True)" by (simp add: table_memory_def)
  from connected_spends_are_mature [OF sample_wf this v sample_not_genesis sample_ids(1,3) sample_txs_coinbase(2), of "hd (vin sample_spend)"] v sample_ids(4)
  show ?thesis by simp
qed

theorem script_checks_read_empty_scripts_witness:
  "\<exists>view' amount. connect_sample = Some (validation_state_init, pool_values_init, view', True) \<and>
     script_pub_key (c_vout (coin_at sample_cache (replicate 32 1)) ! 0) = [0x51] \<and>
     empty_only (consensus_current_epoch_branch_id 9 (consensus mainParams)) (script_sig (vin sample_spend ! 0)) [] sample_spend 0 amount"
proof -
  obtain view' where v: "connect_sample = Some (validation_state_init, pool_values_init, view', True)"
    using spending_block_accepted by blast
  have ex: "expensive_checks [] (- 1) 9" by (simp add: expensive_checks_def checkpoint_covers_def)
  from script_checks_read_empty_scripts [OF sample_wf v sample_not_genesis ex sample_ids(1-3) sample_txs_coinbase(2), of 0] v sample_ids(4)
  show ?thesis by (simp add: sample_coins)
qed

text \<open>The sample block on a blank parent, and a parent left by connecting it.\<close>

theorem turnstile_never_enforced_witness:
  "\<exists>view' p. pool_record p \<and> \<not> has_chain_sapling_value p \<and>
     map_option (\<lambda>(s', _, view', ok). (s', view', ok)) (connect_block (\<lambda>_. True) (\<lambda>_ _. True) zero_hash zero_hash False (Some (\<lambda>_ _. True))
       empty_only 0 mainParams [] (- 1) (Some (replicate 32 9)) 9 (Some p) False spending_block validation_state_init pool_values_init sample_cache) =
     Some (validation_state_init, view', True)"
proof -
  obtain view' where v: "connect_sample = Some (validation_state_init, pool_values_init, view', True)"
    using spending_block_accepted by blast
  have b: "pool_record pool_values_init" by (rule pool_record.blank)
  have "add_all64 0 (sprout_amounts (vtx spending_block)) \<noteq> None" "add_all64 0 (map value_balance (vtx spending_block)) \<noteq> None"
    by (simp_all add: spending_block_def paying_coinbase_def sample_coinbase_def sample_spend_def transaction_init_def sprout_amounts_def ck64_def is_int64_def)
  note t = turnstile_never_enforced [OF pool_record.connected [OF b _ v] this, of "\<lambda>_. True" "\<lambda>_ _. True" zero_hash zero_hash False
    "Some (\<lambda>_ _. True)" empty_only 0 mainParams "[]" "- 1" "Some (replicate 32 9)" 9 False validation_state_init pool_values_init sample_cache]
  show ?thesis using t v b by (intro exI [of _ view'] exI [of _ pool_values_init]) simp
qed

end
