(* ===== verification/Spec2Isabelle.thy ===== *)
theory Spec2Isabelle
  imports Pow Merkle Coins_View Connect_Correct
begin

text \<open>
  A verification library for the consensus core of the ZClassic full node, the C program under
  \<^verbatim>\<open>src/\<close>: everything a node evaluates to decide whether a header, a transaction or a block is
  valid, and the changes to the set of unspent outputs that follow. All paths below are relative
  to \<^verbatim>\<open>src/\<close>.

  \<^bold>\<open>The program and its parts.\<close> Bytes from a peer or from disk are parsed by the stream layer into
  transactions, headers and blocks. A header is checked against the block index, a tree of entries
  linked by parent and skip pointers, which gives the required target, the median time past and the
  height. A block is checked without context (proof of work, Merkle root, transactions one by one),
  then in the context of its parent, and is at last connected: each transaction is looked up in and
  applied to the cache of unspent outputs, with undo data kept for a later disconnection. The
  subsidy bounds what the coinbase may claim. The cache is a hash table over a backing view and is
  flushed into its parent.

  \<^bold>\<open>Conventions.\<close> An unsigned integer of the source is a word of its width and wraps. A signed integer
  is an \<^typ>\<open>int\<close>, and where it may leave its range the range is tested: a signed overflow, a shift
  into the sign, a division by zero, a failed assertion or a read out of bounds gives
  \<^const>\<open>None\<close> as the outermost option, so that a result of the form \<^term>\<open>Some r\<close> says that the C code
  has defined behaviour. A struct is a record, a pointer into an array an index, a pointer to an
  index entry an address of an explicit store. Error codes, reject reasons and scores are kept;
  log lines, events and message texts are not. Parameters of the model are the code it does not
  define: the memory allocators (\<^verbatim>\<open>alloc\<close>, \<^verbatim>\<open>calloc\<close>; ``with memory'' in the properties
  means that they succeed), the hash functions, the point codec of secp256k1, the Equihash
  verifier, the signature and proof verifiers, \<^verbatim>\<open>verify_script\<close> and the clock.

  \<^bold>\<open>The theories.\<close>

  \<^item> \<open>Zcl_Prelude\<close>: word types, ranges of the signed types, lemmas on lists, words and byte
    order that all others use.
  \<^item> \<open>Uint256_Spec\<close>, \<open>Arith_Uint256\<close>, \<open>Compact_Target\<close> (\<^verbatim>\<open>lib/core/src/arith_uint256.c\<close>): the 256-bit
    integer as eight limbs, each routine loop by loop, and the compact encoding of targets. The
    locale \<open>uint256_arith\<close> states the laws of arithmetic modulo \<open>2 ^ 256\<close> and is interpreted on the
    limb routines. Shown: every routine computes the arithmetic operation, division is exact,
    decoding and encoding of targets are correct on every input.
  \<^item> \<open>Params\<close> (\<^verbatim>\<open>lib/consensus/src/upgrades.c\<close>, \<^verbatim>\<open>params.c\<close>, \<^verbatim>\<open>lib/chain/src/chainparams.c\<close>) and
    \<open>Subsidy\<close> (\<^verbatim>\<open>domain/consensus/src/subsidy.c\<close>, \<^verbatim>\<open>lib/core/include/core/amount.h\<close>): the upgrade schedule of
    the three networks and the reward of a height. Shown: the supply of the main chain is bounded.
  \<^item> \<open>Block_Index\<close> (\<^verbatim>\<open>lib/chain/src/chain.c\<close>): entries in a store, \<^verbatim>\<open>get_ancestor\<close> by the skip list,
    \<^verbatim>\<open>build_skip\<close>, the median time past. Shown: the search agrees with the walk along parents, the
    invariant of the index is kept, the in-place sort yields the median.
  \<^item> \<open>Pow\<close> (\<^verbatim>\<open>domain/consensus/src/pow.c\<close>, \<^verbatim>\<open>verify.c\<close>, \<^verbatim>\<open>lib/chain/src/pow.c\<close>): work of a block,
    retargeting, acceptance of a hash. Shown: exact work, the retarget formula and that it is
    defined and within the limit on every branch.
  \<^item> \<open>Serialize\<close> (\<^verbatim>\<open>lib/core/src/serialize.c\<close>, \<^verbatim>\<open>serialize.h\<close>): the growing stream and the wire integers.
    The locale \<open>stream_codec\<close> is the contract of a writer and a reader; its interpretations
    run from single bytes over scripts and shielded descriptions to whole blocks and undo data.
  \<^item> \<open>Script\<close> (\<^verbatim>\<open>lib/script/include/script/script.h\<close>, \<^verbatim>\<open>lib/script/src/script.c\<close>): instruction reader,
    builders, script numbers, counters of signature operations.
  \<^item> \<open>Transaction\<close>, \<open>Block\<close> (\<^verbatim>\<open>lib/primitives\<close>): records, copies, totals and the wire format of every
    transaction version, headers, blocks and locators. Shown: round trips, and the type of what
    the parser returns.
  \<^item> \<open>Merkle\<close> (\<^verbatim>\<open>lib/bloom/src/merkle.c\<close>): the root computed in place with its mutation flag, the
    recursive tree, partial trees. Shown: both computations agree, partial trees round trip, and
    equal roots mean equal lists or a collision.
  \<^item> \<open>Tx_Checks\<close> (\<^verbatim>\<open>tx_structural.c\<close>, \<^verbatim>\<open>sapling_structural.c\<close> and \<^verbatim>\<open>locktime.c\<close> of \<^verbatim>\<open>domain/consensus/src\<close>): the
    stateless rules in source order and the rules of finality and expiry.
  \<^item> \<open>Coins\<close> (\<^verbatim>\<open>lib/coins/src/coins.c\<close>, \<^verbatim>\<open>compressor.c\<close>, \<^verbatim>\<open>undo.h\<close>, \<^verbatim>\<open>domain/consensus/src/coins_math.c\<close>,
    parts of \<^verbatim>\<open>lib/keys/src/pubkey.c\<close>): the record of a transaction's outputs, the compressors, undo
    records.
  \<^item> \<open>Coins_Map\<close>, \<open>Coins_View\<close> (\<^verbatim>\<open>lib/coins/src/coins_view.c\<close>, \<^verbatim>\<open>utxo_commitment.c\<close>): the open-addressed
    table with growth and deletion, and the write-back cache above it. The locale
    \<open>finite_map_impl\<close> is the contract of the table. Shown: the table refines a finite map, a flush
    keeps what the cache presents, and \<^verbatim>\<open>disconnect_block\<close> (of \<^verbatim>\<open>lib/validation/src/connect_block.c\<close>)
    undoes a connected block.
  \<^item> \<open>Utxo_Spec\<close> (\<^verbatim>\<open>lib/validation/src/update_coins.c\<close>): an abstract specification of the set of unspent
    outputs, that \<^verbatim>\<open>update_coins_with_undo\<close> refines it, and that it makes progress.
  \<^item> \<open>Block_Checks\<close> (\<^verbatim>\<open>check_block.c\<close>, \<^verbatim>\<open>sigops.c\<close>, \<^verbatim>\<open>header_accept.c\<close> and \<^verbatim>\<open>checkpoints.c\<close> of
    \<^verbatim>\<open>domain/consensus/src\<close> with their callers in \<^verbatim>\<open>lib/validation/src\<close>, \<^verbatim>\<open>contextual_check_tx.c\<close>,
    \<^verbatim>\<open>lib/consensus/include/consensus/validation.h\<close>): the checks of headers and blocks with the state they leave.
    Shown: \<^verbatim>\<open>check_block\<close> always decides, a hash identifies a block, finality is stable.
  \<^item> \<open>Coinbase\<close> (\<^verbatim>\<open>domain/consensus/src/coinbase.c\<close>): the coinbase of a block template, and what the
    node's own checks say of it.
  \<^item> \<open>Connect_Block\<close>, \<open>Connect_Correct\<close> (\<^verbatim>\<open>lib/validation/src/connect_block.c\<close>): \<^verbatim>\<open>connect_block\<close> with every check
    in order, as a state monad over view, undo data, fees and deferred script checks. A deferred
    check holds a pointer into the cache, so the model reads the script when the check runs and
    gives \<^const>\<open>None\<close> where the array has been freed. Shown: no inflation, sufficient conditions for
    acceptance, coinbase maturity, what the script checks read, that the turnstile never runs.
  \<^item> \<open>Spec2Isabelle\<close>: the states a node reaches by connecting main chain blocks one after the other
    and the bound on the supply in all of them.

  \<^bold>\<open>Bounds and termination.\<close> No definition runs on fuel. Loops are structural or have a termination
  proof. The only loop that need not end, the one that closes a gap in the table
  (\<open>erase_loop\<close>), is a partial function, and it is proved to return on every well-formed table. A
  height is an \<^verbatim>\<open>int\<close> of 32 bits; the supply theorem stops at 2147483640, a few blocks below
  its maximum, where the arithmetic on heights is still defined.

  \<^bold>\<open>Where the code departs from its intent.\<close> Some properties state what the code does where that
  differs from its comments. Script checks run after the outputs they refer to have been set to
  null. The turnstile of the shielded pools is never reached, because no record of a pool ever
  becomes known. The compressor takes the parity of an uncompressed key from the wrong byte. The
  coinbase of a template has a height push of fixed size and no overwintered flag. The decoder of
  script numbers shifts into the sign of an \<^verbatim>\<open>int64_t\<close> for eight-byte negative numbers. The
  sufficient conditions for acceptance are stated with these behaviours.

  \<^bold>\<open>Not modelled.\<close> Hash functions, signatures, Equihash and the shielded proofs (cryptographic
  primitives, parameters here); the script interpreter, signature hashes and script templates
  (\<^verbatim>\<open>verify_script\<close> is a parameter of \<^verbatim>\<open>connect_block\<close>); the driver of chain state, mempool and
  block files (storage, threads and callbacks around the modelled checks); storage engines, network,
  synchronisation, wallet, remote calls, mining policy, overlay protocols, runtime services and the
  application layer, which are not part of block validity. Of modelled files, text formatting,
  logging, event emission and functions over a database are left out. The worker pool for script
  checks is represented by the sequential loop, which evaluates the same checks.
\<close>

section \<open>The supply of the main chain\<close>

text \<open>
  The states of a node that connects main chain blocks, one after the other, to a cache that starts
  without coins: the height, the cache and the value moved into the shielded pools so far. Memory,
  clock, hash functions, verifiers, checkpoints and the block index entry may differ at each step.
\<close>

inductive main_chain :: "nat \<Rightarrow> coins_view_cache \<Rightarrow> int \<Rightarrow> bool" where
  start: "wf_cache view \<Longrightarrow> \<forall>k. unused (coin_at view) k \<Longrightarrow> main_chain 0 view 0"
| connect: "main_chain h view pool \<Longrightarrow>
    connected_hash alloc hash256 phashBlock b \<noteq> hashGenesisBlock (consensus mainParams) \<Longrightarrow>
    connect_block alloc calloc hash256 sha256 skip scheme verify now mainParams cpdata deferred_below
      phashBlock (int (Suc h)) parent just_check b s pindex view = Some (s', pindex', view', True) \<Longrightarrow>
    main_chain (Suc h) view' (pool + shielded_flow (vtx b))"

lemma no_coins_supply: "\<forall>k. unused f k \<Longrightarrow> money_ok f \<and> money_supply f = 0"
proof -
  assume "\<forall>k. unused f k"
  then have "at_outpoint f op = None" for op by (simp add: at_outpoint_def unused_def)
  then show ?thesis by (simp add: money_ok_def live_def money_supply_def)
qed

lemma main_chain_supply:
  "main_chain h view pool \<Longrightarrow> h \<le> 2147483640 \<Longrightarrow>
   wf_cache view \<and> money_ok (coin_at view) \<and> money_supply (coin_at view) + pool \<le> int (\<Sum>k<Suc h. main_reward_nat k)"
proof (induction rule: main_chain.induct)
  case (start view)
  then show ?case using no_coins_supply by simp
next
  case (connect h view pool alloc hash256 phashBlock b calloc sha256 skip scheme verify now cpdata deferred_below parent just_check s pindex s' pindex' view')
  then have ih: "wf_cache view" "money_ok (coin_at view)" "money_supply (coin_at view) + pool \<le> int (\<Sum>k<Suc h. main_reward_nat k)" by simp_all
  from connect_block_conserves [OF ih(1,2) connect.hyps(3,2)] obtain subsidy where
      sub: "get_block_subsidy (int (Suc h)) (Some (consensus mainParams)) = Some subsidy" and
      st: "wf_cache view'" "money_ok (coin_at view')"
        "money_supply (coin_at view') + shielded_flow (vtx b) \<le> money_supply (coin_at view) + subsidy" by blast
  have "subsidy = int (main_reward_nat (Suc h))" using sub main_reward [of "Suc h"] connect.prems by (simp add: main_reward_nat_def)
  then show ?case using ih(3) st by simp
qed

text \<open>
  C1: the supply of the main chain. However a node gets to a height by connecting accepted blocks,
  the value of all its unspent outputs and of the shielded pools together is at most
  \<^verbatim>\<open>MAX_MONEY\<close>.
\<close>

theorem main_chain_supply_bounded:
  assumes "main_chain h view pool" "h \<le> 2147483640"
  shows "money_supply (coin_at view) + pool \<le> MAX_MONEY"
  using main_chain_supply [OF assms] main_reward_sum [of "Suc h"] by linarith

subsection \<open>On a concrete chain\<close>

definition empty_cache :: coins_view_cache where
  "empty_cache = sample_cache\<lparr>cc_coins := coins_map_init\<rparr>"

definition first_block :: block where
  "first_block = \<lparr>blk_header = block_header_init\<lparr>hdr_nBits := 0x03000001, hdr_hashMerkleRoot := replicate 32 2\<rparr>, vtx = [paying_coinbase]\<rparr>"

lemma empty_cache_coins: "wf_cache empty_cache" "coin_at empty_cache k = coins_init"
proof -
  show "wf_cache empty_cache" using table.wf_empty by (simp add: wf_cache_def empty_cache_def)
  show "coin_at empty_cache k = coins_init"
    by (simp add: coin_at_def view_coins_def entries_def empty_cache_def sample_cache_def coins_map_init_def coins_view_get_coins_def)
qed

lemma first_block_checked:
  "check_block (\<lambda>_. True) (\<lambda>_ _. True) zero_hash (Some (\<lambda>_ _. True)) 0 mainParams True True True first_block validation_state_init =
     Some (validation_state_init, True)"
proof -
  have "tx_hash paying_coinbase = replicate 32 2" by (simp add: paying_coinbase_def sample_coinbase_def)
  then have "domain_consensus_check_block_merkle_root zero_hash (\<lambda>_. True) (\<lambda>_ _. True) (Some first_block) = Some (Inr ())"
    by (simp add: domain_consensus_check_block_merkle_root_def first_block_def accept compute_merkle_root_mutated_def)
  moreover have "block_sig_ops (vtx first_block) = 0"
    by (simp add: block_sig_ops_def first_block_def get_legacy_sig_op_count_def domain_consensus_tx_legacy_sig_op_count_def
        paying_coinbase_def sample_coinbase_def tx_in_init_def script_get_sig_op_count_def sig_op_loop.simps script_get_op_def sig_ops_of_def)
  moreover have "check_block_header (\<lambda>_. True) zero_hash (Some (\<lambda>_ _. True)) 0 mainParams True (blk_header first_block) validation_state_init =
      Some (validation_state_init, True)"
    by (rule easy_header) (simp_all add: first_block_def block_header_init_def)
  ultimately show ?thesis using sample_txs_valid sample_txs_coinbase
    by (simp add: check_block_accept domain_consensus_check_block_size_and_coinbase_def domain_consensus_check_block_sigops_def accept)
      (simp add: first_block_def)
qed

lemma first_block_connects:
  "\<exists>f. block_connects (empty_only n) (consensus mainParams) True False 1 first_block (coin_at empty_cache) f"
proof -
  have ops: "legacy_ops paying_coinbase = 0"
    by (simp add: legacy_ops_def get_legacy_sig_op_count_def domain_consensus_tx_legacy_sig_op_count_def paying_coinbase_def sample_coinbase_def
        tx_in_init_def script_get_sig_op_count_def sig_op_loop.simps script_get_op_def sig_ops_of_def)
  then have "\<exists>f. spec_block (empty_only n) True (coin_at empty_cache) 1 0 0 (vtx first_block) = Some (f, 0)"
    using sample_txs_coinbase(1) by (simp add: first_block_def spec_tx_def Let_def spec_update_def)
  moreover have "unused (coin_at empty_cache) (tx_hash tx) \<and> length (vout tx) \<le> 65536" if "tx \<in> set (vtx first_block)" for tx
    using that by (simp add: first_block_def paying_coinbase_def sample_coinbase_def unused_def empty_cache_coins)
  moreover have "consensus_network_upgrade_active (consensus mainParams) 1 UPGRADE_SAPLING = Some False"
    by (simp add: consensus_network_upgrade_active_def consensus_upgrade_state_def domain_consensus_upgrade_state_def
        dcu_idx_valid_def mainParams_def activation_height_def upgrade_rows_def)
  moreover have "get_block_subsidy 1 (Some (consensus mainParams)) = Some 1250000000" using main_reward [of 1] by simp
  moreover have "sum_list (value_out_amounts (vtx first_block ! 0)) = 10"
    by (simp add: first_block_def paying_coinbase_def sample_coinbase_def transaction_init_def value_out_amounts_def)
  ultimately show ?thesis unfolding block_connects_def by (auto simp: MoneyRange_def first_block_def)
qed

theorem main_chain_supply_bounded_witness:
  "\<exists>view. main_chain 1 view 0 \<and> money_supply (coin_at view) + 0 \<le> MAX_MONEY"
proof -
  obtain f where f: "block_connects (empty_only (consensus_current_epoch_branch_id 1 (consensus mainParams))) (consensus mainParams) True False 1
      first_block (coin_at empty_cache) f"
    using first_block_connects by blast
  have ng: "connected_hash (\<lambda>_. True) zero_hash (Some (replicate 32 9)) first_block \<noteq> hashGenesisBlock (consensus mainParams)"
    using sample_not_genesis by (simp add: connected_hash_def)
  have tu: "turnstile None (vtx first_block) pool_values_init validation_state_init = Some (pool_values_init, validation_state_init, True)"
    by (simp add: turnstile_def)
  have "uint256_is_null (snd (coins_view_cache_get_best_block empty_cache))"
    by (simp add: empty_cache_def coins_view_cache_get_best_block_def sample_cache_def Let_def uint256_is_null_def list_all_iff coins_view_get_best_block_def)
  moreover have "expensive_checks [] (- 1) 1" by (simp add: expensive_checks_def checkpoint_covers_def)
  ultimately obtain view where v: "connect_block (\<lambda>_. True) (\<lambda>_ _. True) zero_hash zero_hash False (Some (\<lambda>_ _. True)) empty_only 0 mainParams [] (- 1)
      (Some (replicate 32 9)) (int (Suc 0)) None False first_block validation_state_init pool_values_init empty_cache = Some (validation_state_init, pool_values_init, view, True)"
    using connect_block_succeeds [OF empty_cache_coins(1) _ _ ng _ tu, of "\<lambda>_ _. True" "Some (\<lambda>_ _. True)" 0 "[]" "- 1" 1 False empty_only f zero_hash False]
      first_block_checked f by (auto simp: all_memory_def)
  have "main_chain 0 empty_cache 0" by (rule main_chain.start) (simp_all add: empty_cache_coins unused_def)
  from main_chain.connect [OF this ng v] have "main_chain 1 view 0"
    by (simp add: first_block_def paying_coinbase_def sample_coinbase_def transaction_init_def shielded_flow_def tx_flow_def)
  then show ?thesis using main_chain_supply_bounded [of 1 view 0] by auto
qed

end
